(* ===== verification/Prelude.thy ===== *)
theory Prelude
  imports Main "HOL-Library.Word"
begin

text \<open>
  Shared vocabulary of the development: the machine integers of the C++ sources as words, the
  failures the sources can run into as values of an error type, little- and big-endian byte
  images of integers (what \<^verbatim>\<open>memcpy\<close>, \<^verbatim>\<open>htonl\<close> and the serializers produce), and generic
  lemmas on lists and words used by several components.
\<close>

unbundle bit_operations_syntax

named_theorems byte_simps \<open>byte images of machine integers and their inverses\<close>
named_theorems result_simps \<open>propagation of failures\<close>

type_synonym byte = "8 word"
type_synonym u16 = "16 word"
type_synonym u32 = "32 word"
type_synonym u64 = "64 word"

subsection \<open>Failures as values\<close>

text \<open>
  What the sources do on a failure: an access past the end of a vector (undefined behaviour in
  C++, a failure here), \<^verbatim>\<open>std::length_error\<close> from \<^verbatim>\<open>resize\<close>, a boost end-of-file error, an
  integer division by zero, a failed assertion, the standard library's other exceptions, and a loop that does not end.
\<close>

datatype cpp_error =
    Out_Of_Bounds
  | Length_Error
  | End_Of_Stream
  | Division_By_Zero
  | Assertion_Failed
  | Invalid_Argument
  | Out_Of_Range
  | Runtime_Error
  | Endless_Loop

type_synonym 'a result = "cpp_error + 'a"

definition rbind :: "'a result \<Rightarrow> ('a \<Rightarrow> 'b result) \<Rightarrow> 'b result" where
  "rbind r f = (case r of Inl e \<Rightarrow> Inl e | Inr a \<Rightarrow> f a)"

lemma rbind_simps [simp, result_simps]:
  "rbind (Inl e) f = Inl e"
  "rbind (Inr a) f = f a"
  by (simp_all add: rbind_def)

lemma rbind_eq_Inr [result_simps]:
  "rbind r f = Inr b \<longleftrightarrow> (\<exists>a. r = Inr a \<and> f a = Inr b)"
  by (cases r) simp_all

lemma rbind_eq_Inl:
  "rbind r f = Inl e \<longleftrightarrow> r = Inl e \<or> (\<exists>a. r = Inr a \<and> f a = Inl e)"
  by (cases r) simp_all

lemma rbind_cong [fundef_cong]:
  "r = r' \<Longrightarrow> (\<And>a. r' = Inr a \<Longrightarrow> f a = g a) \<Longrightarrow> rbind r f = rbind r' g"
  by (cases r') auto

lemma rbind_assoc: "rbind (rbind r f) g = rbind r (\<lambda>a. rbind (f a) g)"
  by (cases r) simp_all

text \<open>The result of a loop whose end is not evident; \<open>None\<close> stands for a loop that does not end.\<close>

definition ended :: "'a result option \<Rightarrow> 'a result" where
  "ended r = (case r of None \<Rightarrow> Inl Endless_Loop | Some x \<Rightarrow> x)"

lemma ended_simps [simp]: "ended (Some x) = x" "ended None = Inl Endless_Loop"
  by (simp_all add: ended_def)

text \<open>A computation succeeds with a result that has a given property.\<close>

definition succeeds :: "'a result \<Rightarrow> ('a \<Rightarrow> bool) \<Rightarrow> bool" where
  "succeeds r P \<longleftrightarrow> (case r of Inl e \<Rightarrow> False | Inr a \<Rightarrow> P a)"

lemma succeeds_simps [simp]:
  "\<not> succeeds (Inl e) P"
  "succeeds (Inr a) P \<longleftrightarrow> P a"
  "succeeds (rbind r f) P \<longleftrightarrow> succeeds r (\<lambda>a. succeeds (f a) P)"
  by (simp_all add: succeeds_def rbind_def split: sum.split)

lemma succeeds_mono: "succeeds r P \<Longrightarrow> (\<And>a. r = Inr a \<Longrightarrow> P a \<Longrightarrow> Q a) \<Longrightarrow> succeeds r Q"
  by (cases r) simp_all

lemma succeedsD: "succeeds r P \<Longrightarrow> \<exists>a. r = Inr a \<and> P a"
  by (cases r) simp_all

lemma succeeds_prod [simp]: "succeeds (case x of (a, b) \<Rightarrow> f a b) P \<longleftrightarrow> (case x of (a, b) \<Rightarrow> succeeds (f a b) P)"
  by (cases x) simp

lemma succeeds_if [simp]: "succeeds (if c then r else r') P \<longleftrightarrow> (if c then succeeds r P else succeeds r' P)"
  by simp

subsection \<open>Byte images of machine integers\<close>

text \<open>The object representation on a little-endian machine, lowest byte first.\<close>

fun le_bytes :: "nat \<Rightarrow> 'a::len word \<Rightarrow> byte list" where
  "le_bytes 0 w = []"
| "le_bytes (Suc n) w = ucast w # le_bytes n (drop_bit 8 w)"

fun of_le_bytes :: "byte list \<Rightarrow> 'a::len word" where
  "of_le_bytes [] = 0"
| "of_le_bytes (b # bs) = ucast b OR push_bit 8 (of_le_bytes bs)"

lemma unat_less_2p: "unat (w :: 'a::len word) < 2 ^ LENGTH('a)"
  by (rule unsigned_less)

lemma unat_inc: "n < m \<Longrightarrow> unat (n + 1) = Suc (unat n)" for n m :: "'a::len word"
proof -
  assume "n < m"
  then have "unat n < unat m"
    by (simp add: word_less_nat_alt)
  then have "Suc (unat n) < 2 ^ LENGTH('a)"
    using unat_less_2p [of m] by linarith
  then show ?thesis
    by (simp add: unat_word_ariths)
qed

text \<open>Network order: highest byte first.\<close>

definition be_bytes :: "nat \<Rightarrow> 'a::len word \<Rightarrow> byte list" where
  "be_bytes n w = rev (le_bytes n w)"

definition of_be_bytes :: "byte list \<Rightarrow> 'a::len word" where
  "of_be_bytes bs = of_le_bytes (rev bs)"

lemma length_le_bytes [simp, byte_simps]: "length (le_bytes n w) = n"
  by (induction n arbitrary: w) simp_all

lemma length_be_bytes [simp, byte_simps]: "length (be_bytes n w) = n"
  by (simp add: be_bytes_def)

lemma of_le_bytes_le_bytes: "of_le_bytes (le_bytes n w) = take_bit (8 * n) (w :: 'a::len word)"
proof (induction n arbitrary: w)
  case 0
  then show ?case by simp
next
  case (Suc n)
  show ?case
    by (rule bit_word_eqI)
      (auto simp: Suc.IH bit_simps not_le not_less algebra_simps)
qed

lemma of_le_bytes_inverse [byte_simps]:
  "LENGTH('a) \<le> 8 * n \<Longrightarrow> of_le_bytes (le_bytes n w) = (w :: 'a::len word)"
  by (simp add: of_le_bytes_le_bytes take_bit_word_eq_self)

lemma of_be_bytes_inverse [byte_simps]:
  "LENGTH('a) \<le> 8 * n \<Longrightarrow> of_be_bytes (be_bytes n w) = (w :: 'a::len word)"
  by (simp add: of_be_bytes_def be_bytes_def of_le_bytes_inverse)

lemma bit_of_le_bytesD: "bit (of_le_bytes bs :: 'a::len word) i \<Longrightarrow> i < 8 * length bs"
proof (induction bs arbitrary: i)
  case Nil
  then show ?case by simp
next
  case (Cons c cs)
  show ?case
  proof (cases "i < 8")
    case False
    with Cons.prems have "bit (of_le_bytes cs :: 'a word) (i - 8)"
      by (auto simp: bit_simps dest: bit_imp_le_length)
    then have "i - 8 < 8 * length cs"
      by (rule Cons.IH)
    then show ?thesis by simp
  qed simp
qed

lemma le_bytes_of_le_bytes:
  "8 * length bs \<le> LENGTH('a) \<Longrightarrow> le_bytes (length bs) (of_le_bytes bs :: 'a::len word) = bs"
proof (induction bs)
  case Nil
  then show ?case by simp
next
  case (Cons b bs)
  have low: "ucast (ucast b OR push_bit 8 (of_le_bytes bs) :: 'a word) = b"
    using Cons.prems by (intro bit_word_eqI) (auto simp: bit_simps)
  have high: "drop_bit 8 (ucast b OR push_bit 8 (of_le_bytes bs) :: 'a word) = of_le_bytes bs"
  proof (rule bit_word_eqI)
    fix n
    show "bit (drop_bit 8 (ucast b OR push_bit 8 (of_le_bytes bs) :: 'a word)) n
        = bit (of_le_bytes bs :: 'a word) n"
      using Cons.prems bit_of_le_bytesD [of bs n, where 'a = 'a] bit_imp_le_length [of b "8 + n"]
      by (auto simp: bit_simps)
  qed
  show ?case
    using Cons by (simp add: low high del: drop_bit_or)
qed

lemma be_bytes_of_be_bytes:
  "8 * length bs \<le> LENGTH('a) \<Longrightarrow> be_bytes (length bs) (of_be_bytes bs :: 'a::len word) = bs"
  using le_bytes_of_le_bytes [of "rev bs", where 'a = 'a]
  by (simp add: be_bytes_def of_be_bytes_def)

subsection \<open>Words below a power of two\<close>

lemma small_masked: "w AND mask n = w" if "unat w < 2 ^ n" for w :: "'a::len word"
  using that unsigned_take_bit_eq [of n w, where ?'a = nat]
  by (simp flip: take_bit_eq_mask) (simp add: take_bit_nat_eq_self unsigned_word_eqI)

lemma bit_small: "unat w < 2 ^ n \<Longrightarrow> bit w i \<Longrightarrow> i < n" for w :: "'a::len word"
  using small_masked [of w n] by (metis bit_and_iff bit_mask_iff)

lemma uint_take_bit: "uint (take_bit n w) = uint w mod 2 ^ n" for w :: "'a::len word"
  unfolding unsigned_take_bit_eq by (rule take_bit_eq_mod)

lemma uint_drop_bit: "uint (drop_bit n w) = uint w div 2 ^ n" for w :: "'a::len word"
proof -
  have "take_bit LENGTH('a) (uint w) = uint w"
    by (simp add: take_bit_int_eq_self uint_lt2p)
  then show ?thesis
    using unsigned_drop_bit_eq [of n w, where ?'a = int] drop_bit_eq_div [of n "uint w"] by simp
qed

end
