(* ===== verification/Bf16.thy ===== *)
theory Bf16
  imports Prelude
begin

text \<open>
  The brain floating point numbers of \<^verbatim>\<open>include/srsran/adt/bf16.h\<close> and the complex samples of
  \<^verbatim>\<open>include/srsran/adt/complex.h\<close>. A \<^verbatim>\<open>float\<close> is its 32-bit object representation, which is
  what the conversions work on: they reinterpret, round and shift bits.
\<close>

type_synonym bf16_t = u16
type_synonym float32 = u32

record cbf16_t =
  re :: bf16_t
  im :: bf16_t

definition to_bf16 :: "float32 \<Rightarrow> bf16_t" where
  "to_bf16 value =
     (let temp_u32 = value + (0x7fff + (drop_bit 16 value AND 1))
      in ucast (drop_bit 16 temp_u32))"

definition to_float :: "bf16_t \<Rightarrow> float32" where
  "to_float value = push_bit 16 (ucast value)"

definition to_cbf16 :: "float32 \<Rightarrow> float32 \<Rightarrow> cbf16_t" where
  "to_cbf16 r i = \<lparr>re = to_bf16 r, im = to_bf16 i\<rparr>"

definition to_cf :: "cbf16_t \<Rightarrow> float32 \<times> float32" where
  "to_cf value = (to_float (re value), to_float (im value))"

lemma unat_to_float: "unat (to_float b) = unat b * 65536"
proof -
  have "unat b < 65536"
    using unat_less_2p [of b] by simp
  then show ?thesis
    by (simp add: to_float_def push_bit_eq_mult unat_word_ariths unsigned_ucast_eq take_bit_eq_mod)
qed

lemma unat_to_bf16:
  "unat (to_bf16 f) = (unat f + 32767 + unat f div 65536 mod 2) mod 2 ^ 32 div 65536"
proof -
  have "unat (drop_bit 16 f AND 1) = unat f div 65536 mod 2"
    unfolding and_one_eq unat_mod by (simp add: drop_bit_eq_div unat_div)
  then have "unat (f + (0x7fff + (drop_bit 16 f AND 1)))
      = (unat f + 32767 + unat f div 65536 mod 2) mod 2 ^ 32"
    by (simp add: unat_word_ariths mod_simps add.assoc)
  moreover have "unat (ucast (drop_bit 16 g) :: u16) = unat g div 65536" for g :: u32
  proof -
    have "unat (drop_bit 16 g) < 65536"
      using unat_less_2p [of g] by (simp add: drop_bit_eq_div unat_div)
    then show ?thesis
      by (simp add: unsigned_ucast_eq take_bit_eq_mod drop_bit_eq_div unat_div)
  qed
  ultimately show ?thesis
    by (simp add: to_bf16_def Let_def)
qed

lemma to_bf16_to_float [simp]: "to_bf16 (to_float b) = b"
proof -
  have "unat b < 65536"
    using unat_less_2p [of b] by simp
  then have "unat (to_bf16 (to_float b)) = unat b"
    unfolding unat_to_bf16 unat_to_float by simp
  then show ?thesis
    by (simp add: unsigned_word_eqI)
qed

subsection \<open>Properties\<close>

lemma to_bf16_no_carry:
  assumes "unat f + 32768 < 2 ^ 32"
  shows "unat (to_bf16 f) = (unat f + 32767 + unat f div 65536 mod 2) div 65536"
proof -
  have "unat f + 32767 + unat f div 65536 mod 2 < 2 ^ 32"
    using assms mod_less_divisor [of 2 "unat f div 65536"] by linarith
  then show ?thesis
    by (simp add: unat_to_bf16)
qed

text \<open>C31. For every bit pattern whose rounding does not carry out of the word (all finite floats and
  the infinities among them), \<open>to_bf16\<close> rounds to nearest: the chosen bf16 number is within half a
  unit in the last place, and in the middle it is the even one.\<close>

theorem to_bf16_nearest_even:
  assumes "unat f + 32768 < 2 ^ 32"
  defines "err \<equiv> \<bar>int (unat f) - int (unat (to_float (to_bf16 f)))\<bar>"
  shows "2 * err \<le> 65536 \<and> (2 * err = 65536 \<longrightarrow> even (unat (to_bf16 f)))"
proof -
  define q r where "q = unat f div 65536" and "r = unat f mod 65536"
  have f: "unat f = 65536 * q + r" and r: "r < 65536"
    by (simp_all add: q_def r_def)
  have to: "unat (to_bf16 f) = q + (r + 32767 + q mod 2) div 65536"
    unfolding to_bf16_no_carry [OF assms(1)] using f r by simp
  have up: "(r + 32767 + q mod 2) div 65536 = (if 65536 \<le> r + 32767 + q mod 2 then 1 else 0)"
    using r by auto
  have parity: "q mod 2 = 0 \<or> q mod 2 = 1"
    by auto
  show ?thesis
  proof (cases "65536 \<le> r + 32767 + q mod 2")
    case True
    then have "unat (to_bf16 f) = q + 1" and err: "err = 65536 - int r"
      using to up f r unfolding err_def unat_to_float by simp_all
    with True parity r show ?thesis
      by (auto simp: odd_iff_mod_2_eq_one)
  next
    case False
    then have "unat (to_bf16 f) = q" and err: "err = int r"
      using to up f r unfolding err_def unat_to_float by simp_all
    with False parity show ?thesis
      by (auto simp: even_iff_mod_2_eq_zero)
  qed
qed

theorem to_bf16_nearest_even_witness:
  "2 * \<bar>int (unat (0x3F818000 :: float32)) - int (unat (to_float (to_bf16 0x3F818000)))\<bar> \<le> 65536 \<and>
   to_bf16 0x3F818000 = 0x3F82"
  using to_bf16_nearest_even [of "0x3F818000"] by (simp add: to_bf16_def)

text \<open>The rounding addition carries into the sign for the not-a-number patterns from
  \<open>0x7FFF8000\<close> on: \<open>to_bf16\<close> turns them into negative zero.\<close>

theorem to_bf16_nan_becomes_zero:
  assumes "0x7FFF8000 \<le> f" "f \<le> 0x7FFFFFFF"
  shows "to_bf16 f = 0x8000"
proof -
  have u: "0x7FFF8000 \<le> unat f" "unat f \<le> 0x7FFFFFFF"
    using assms by (simp_all add: word_le_nat_alt)
  then have "unat f div 65536 = 0x7FFF"
    by auto
  then have "unat (to_bf16 f) = 0x8000"
    using u by (subst to_bf16_no_carry) auto
  then show ?thesis
    by (intro unsigned_word_eqI) simp
qed

theorem to_bf16_nan_becomes_zero_witness: "to_bf16 0x7FFFFFFF = 0x8000"
  using to_bf16_nan_becomes_zero [of "0x7FFFFFFF"] by simp

end
