(* ===== verification/Iq_Conv.thy ===== *)
theory Iq_Conv
  imports Bf16
begin

text \<open>
  The conversions between byte buffers and complex samples of \<^verbatim>\<open>lib/d_compression/iq.cpp\<close>
  (class \<^verbatim>\<open>iq_conv\<close> of \<^verbatim>\<open>include/d_compression/iq.h\<close>). \<open>to_iq\<close> puts each byte of a buffer
  into the high half of a bf16 number, two bytes to a sample; \<open>serialize\<close> writes the samples as
  pairs of single-precision floats, in the little-endian object representation the
  \<^verbatim>\<open>reinterpret_cast\<close> exposes.
\<close>

datatype compression_options = NONE | BFP | RLE | LZ77

definition byte_to_bf16 :: "byte \<Rightarrow> bf16_t" where
  "byte_to_bf16 b = push_bit 8 (ucast b)"

definition bf16_high_byte :: "bf16_t \<Rightarrow> byte" where
  "bf16_high_byte v = ucast (drop_bit 8 v)"

definition mk_sample :: "byte \<Rightarrow> byte \<Rightarrow> cbf16_t" where
  "mk_sample i q = \<lparr>re = byte_to_bf16 i, im = byte_to_bf16 q\<rparr>"

text \<open>The loop \<^verbatim>\<open>for (i = 0; i + 1 < in.size(); i += 2)\<close> of \<^verbatim>\<open>to_iq\<close>.\<close>

fun to_iq_loop :: "byte list \<Rightarrow> cbf16_t list" where
  "to_iq_loop (i # q # bs) = mk_sample i q # to_iq_loop bs"
| "to_iq_loop _ = []"

definition to_iq :: "byte list \<Rightarrow> cbf16_t list \<times> nat" where
  "to_iq bs =
     (let out = to_iq_loop bs
      in if length bs mod 2 = 1
         then (out @ [\<lparr>re = byte_to_bf16 (bs ! (length bs - 1)), im = 0\<rparr>], 1)
         else (out, 0))"

definition from_iq_bytes :: "cbf16_t list \<Rightarrow> byte list" where
  "from_iq_bytes smp = concat (map (\<lambda>iq. [bf16_high_byte (re iq), bf16_high_byte (im iq)]) smp)"

text \<open>
  \<^verbatim>\<open>out.resize(out.size() - blank_bytes)\<close>: the subtraction wraps around when there are more
  blank bytes than bytes, and \<^verbatim>\<open>resize\<close> then throws \<^verbatim>\<open>std::length_error\<close>.
\<close>

definition from_iq :: "cbf16_t list \<Rightarrow> nat \<Rightarrow> byte list result" where
  "from_iq smp blank_bytes =
     (let out = from_iq_bytes smp
      in if blank_bytes \<le> length out then Inr (take (length out - blank_bytes) out)
         else Inl Length_Error)"

definition float_bytes :: "float32 \<Rightarrow> byte list" where
  "float_bytes f = le_bytes 4 f"

definition serialize :: "cbf16_t list \<Rightarrow> byte list" where
  "serialize smp =
     concat (map (\<lambda>v. float_bytes (to_float (re v)) @ float_bytes (to_float (im v))) smp)"

text \<open>
  Each round of \<^verbatim>\<open>deserialize\<close> copies eight bytes; with fewer than eight left the second (or the
  first) \<^verbatim>\<open>memcpy\<close> reads past the end of the buffer.
\<close>

function deserialize :: "byte list \<Rightarrow> cbf16_t list result" where
  "deserialize bs =
     (if bs = [] then Inr []
      else if length bs < 8 then Inl Out_Of_Bounds
      else rbind (deserialize (drop 8 bs))
        (\<lambda>rest. Inr (to_cbf16 (of_le_bytes (take 4 bs)) (of_le_bytes (take 4 (drop 4 bs))) # rest)))"
  by pat_completeness auto
termination
  by (relation "measure length") auto

declare deserialize.simps [simp del]

subsection \<open>Bytes in the high half of a bf16 number\<close>

lemma bf16_high_byte_inverse [simp]: "bf16_high_byte (byte_to_bf16 b) = b"
  unfolding bf16_high_byte_def byte_to_bf16_def
  by (rule bit_word_eqI) (auto simp: bit_simps)

text \<open>The samples the sender makes: nothing below the high byte.\<close>

definition high_only :: "cbf16_t \<Rightarrow> bool" where
  "high_only s \<longleftrightarrow> byte_to_bf16 (bf16_high_byte (re s)) = re s
                \<and> byte_to_bf16 (bf16_high_byte (im s)) = im s"

lemma high_only_mk_sample [simp]: "high_only (mk_sample i q)"
  by (simp add: high_only_def mk_sample_def)

lemma byte_to_bf16_0 [simp]: "byte_to_bf16 0 = 0"
  by (simp add: byte_to_bf16_def)

lemma mk_sample_high_bytes: "high_only s \<Longrightarrow> mk_sample (bf16_high_byte (re s)) (bf16_high_byte (im s)) = s"
  by (simp add: high_only_def mk_sample_def)

subsection \<open>Samples and bytes\<close>

text \<open>\<open>to_iq\<close> is the pairing of a buffer padded to an even length.\<close>

definition pad_even :: "byte list \<Rightarrow> byte list" where
  "pad_even bs = (if odd (length bs) then bs @ [0] else bs)"

lemma to_iq_loop_snoc_odd:
  "odd (length bs) \<Longrightarrow>
     to_iq_loop (bs @ [b]) = to_iq_loop bs @ [mk_sample (bs ! (length bs - 1)) b]"
  by (induction bs rule: to_iq_loop.induct) (auto simp: nth_Cons')

lemma to_iq_eq: "to_iq bs = (to_iq_loop (pad_even bs), length bs mod 2)"
proof (cases "odd (length bs)")
  case True
  then show ?thesis
    by (simp add: to_iq_def pad_even_def to_iq_loop_snoc_odd odd_iff_mod_2_eq_one mk_sample_def)
next
  case False
  then show ?thesis
    by (simp add: to_iq_def pad_even_def even_iff_mod_2_eq_zero)
qed

lemma from_iq_bytes_Cons [simp]:
  "from_iq_bytes [] = []"
  "from_iq_bytes (s # ss) = bf16_high_byte (re s) # bf16_high_byte (im s) # from_iq_bytes ss"
  by (simp_all add: from_iq_bytes_def)

lemma length_from_iq_bytes [simp]: "length (from_iq_bytes ss) = 2 * length ss"
  by (induction ss) simp_all

lemma from_iq_bytes_to_iq_loop: "even (length bs) \<Longrightarrow> from_iq_bytes (to_iq_loop bs) = bs"
  by (induction bs rule: to_iq_loop.induct) (auto simp: mk_sample_def)

lemma even_length_pad_even [simp]: "even (length (pad_even bs))"
  by (simp add: pad_even_def)

lemma take_pad_even: "take (length (pad_even bs) - length bs mod 2) (pad_even bs) = bs"
  by (simp add: pad_even_def odd_iff_mod_2_eq_one even_iff_mod_2_eq_zero)

lemma from_iq_to_iq_pair: "from_iq (fst (to_iq bs)) (snd (to_iq bs)) = Inr bs"
proof -
  have "length bs mod 2 \<le> length (pad_even bs)"
    by (cases bs) (auto simp: pad_even_def)
  then show ?thesis
    by (simp add: from_iq_def to_iq_eq from_iq_bytes_to_iq_loop take_pad_even Let_def)
qed

lemma to_iq_loop_high_only: "list_all high_only (to_iq_loop bs)"
  by (induction bs rule: to_iq_loop.induct) auto

lemma to_iq_high_only: "list_all high_only (fst (to_iq bs))"
  by (simp add: to_iq_eq to_iq_loop_high_only)

lemma length_to_iq_loop: "length (to_iq_loop bs) = length bs div 2"
  by (induction bs rule: to_iq_loop.induct) auto

lemma length_to_iq: "length (fst (to_iq bs)) = (length bs + 1) div 2"
  by (simp add: to_iq_eq length_to_iq_loop pad_even_def)

lemma blank_bytes_le_1: "snd (to_iq bs) \<le> 1"
  by (simp add: to_iq_eq)

subsection \<open>Serialisation\<close>

lemma length_float_bytes [simp]: "length (float_bytes f) = 4"
  by (simp add: float_bytes_def)

lemma of_le_bytes_float_bytes [simp]: "of_le_bytes (float_bytes f) = f"
  by (simp add: float_bytes_def of_le_bytes_inverse)

lemma serialize_Cons [simp]:
  "serialize [] = []"
  "serialize (s # ss) = float_bytes (to_float (re s)) @ float_bytes (to_float (im s)) @ serialize ss"
  by (simp_all add: serialize_def)

lemma length_serialize [simp]: "length (serialize ss) = 8 * length ss"
  by (induction ss) simp_all

lemma deserialize_Nil [simp]: "deserialize [] = Inr []"
  by (simp add: deserialize.simps)

lemma deserialize_step [simp]:
  "deserialize (float_bytes a @ float_bytes b @ bs)
     = rbind (deserialize bs) (\<lambda>rest. Inr (to_cbf16 a b # rest))"
proof -
  have "float_bytes a \<noteq> []"
    by (simp flip: length_0_conv)
  then show ?thesis
    by (subst deserialize.simps) simp
qed

lemma deserialize_serialize: "deserialize (serialize ss) = Inr ss"
  by (induction ss) (simp_all add: to_cbf16_def)

text \<open>\<open>deserialize\<close> fails exactly on the lengths that are not a multiple of a sample's eight bytes.\<close>

lemma deserialize_defined:
  "(\<exists>ss. deserialize bs = Inr ss \<and> 8 * length ss = length bs) \<longleftrightarrow> 8 dvd length bs"
proof (induction bs rule: deserialize.induct)
  case (1 bs)
  show ?case
  proof (cases "bs = [] \<or> length bs < 8")
    case True
    then show ?thesis
      by (subst deserialize.simps) (auto dest: nat_dvd_not_less)
  next
    case False
    then have iff: "(\<exists>ss. deserialize (drop 8 bs) = Inr ss \<and> 8 * length ss = length bs - 8)
        \<longleftrightarrow> 8 dvd length bs - 8"
      using 1 by simp
    have "8 dvd length bs - 8 \<longleftrightarrow> 8 dvd length bs"
      using False by (simp add: dvd_minus_self)
    moreover have "(\<exists>ss. deserialize bs = Inr ss \<and> 8 * length ss = length bs)
      \<longleftrightarrow> (\<exists>ss. deserialize (drop 8 bs) = Inr ss \<and> 8 * length ss = length bs - 8)"
      using False by (subst deserialize.simps) (auto simp: rbind_eq_Inr)
    ultimately show ?thesis
      using iff by simp
  qed
qed

lemma deserialize_undefined:
  "\<not> 8 dvd length bs \<Longrightarrow> deserialize bs = Inl Out_Of_Bounds"
proof (induction bs rule: deserialize.induct)
  case (1 bs)
  show ?case
  proof (cases "length bs < 8")
    case True
    with "1.prems" show ?thesis
      by (subst deserialize.simps) auto
  next
    case False
    with "1.prems" have "\<not> 8 dvd length (drop 8 bs)"
      by (simp add: dvd_minus_self)
    moreover have "bs \<noteq> []"
      using "1.prems" by auto
    ultimately have "deserialize (drop 8 bs) = Inl Out_Of_Bounds"
      using False by (intro 1) auto
    with False show ?thesis
      by (subst deserialize.simps) auto
  qed
qed

subsection \<open>Properties\<close>

text \<open>A byte buffer survives the trip through complex samples: \<open>from_iq\<close> applied to the result of
  \<open>to_iq\<close> and its count of blank bytes gives the buffer back, whatever its length.\<close>

theorem from_iq_to_iq:
  "(case to_iq bs of (smp, blank_bytes) \<Rightarrow>
     from_iq smp blank_bytes = Inr bs \<and> blank_bytes = length bs mod 2 \<and> length smp = (length bs + 1) div 2)"
  using from_iq_to_iq_pair [of bs] length_to_iq [of bs] to_iq_eq [of bs] by (simp split: prod.splits)

text \<open>Serialised samples are read back exactly, and take eight bytes each.\<close>

theorem serialize_roundtrip: "deserialize (serialize smp) = Inr smp \<and> length (serialize smp) = 8 * length smp"
  by (simp add: deserialize_serialize)

text \<open>\<open>deserialize\<close> reads inside its buffer exactly when the length is a multiple of eight; otherwise
  the last round copies past the end.\<close>

theorem deserialize_result:
  "(case deserialize bs of Inr smp \<Rightarrow> 8 * length smp = length bs
    | Inl e \<Rightarrow> e = Out_Of_Bounds \<and> length bs mod 8 \<noteq> 0)"
  using deserialize_defined [of bs] deserialize_undefined [of bs]
  by (cases "8 dvd length bs") (auto split: sum.splits simp: dvd_eq_mod_eq_0)

text \<open>With more blank bytes than bytes the size wraps around and \<open>from_iq\<close> throws.\<close>

theorem from_iq_wraps:
  assumes "2 * length smp < blank_bytes"
  shows "from_iq smp blank_bytes = Inl Length_Error"
  using assms by (simp add: from_iq_def)

theorem from_iq_wraps_witness: "from_iq [] 1 = Inl Length_Error"
  using from_iq_wraps [of "[]" 1] by simp

end
