(* ===== verification/Rle.thy ===== *)
theory Rle
  imports Iq_Conv
begin

text \<open>
  The run length encoder of \<^verbatim>\<open>lib/d_compression/rle.cpp\<close> (class \<^verbatim>\<open>rle_compressor\<close>).
\<close>

text \<open>
  The inner \<^verbatim>\<open>while\<close>: extend the run while the next byte is the same and the \<^verbatim>\<open>uint8_t\<close> counter
  is below 255. The result is the run length and the rest of the input.
\<close>

fun rle_run :: "byte \<Rightarrow> byte \<Rightarrow> byte list \<Rightarrow> byte \<times> byte list" where
  "rle_run current_byte run_length [] = (run_length, [])"
| "rle_run current_byte run_length (b # bs) =
     (if b = current_byte \<and> run_length < 255
      then rle_run current_byte (run_length + 1) bs
      else (run_length, b # bs))"

lemma length_rle_run: "length (snd (rle_run c n bs)) \<le> length bs"
  by (induction c n bs rule: rle_run.induct) auto

text \<open>The outer \<^verbatim>\<open>for\<close>.\<close>

function rle_loop :: "byte list \<Rightarrow> byte list" where
  "rle_loop [] = []"
| "rle_loop (c # bs) = (let (n, rest) = rle_run c 1 bs in c # n # rle_loop rest)"
  by pat_completeness auto
termination
  by (relation "measure length") (auto simp: less_Suc_eq_le, metis length_rle_run snd_conv)

definition rle_compress :: "byte list \<Rightarrow> byte list" where
  "rle_compress bs =
     (if bs = [] then []
      else let out = rle_loop bs
           in if length out mod 2 \<noteq> 0 then out @ [bs ! (length bs - 1), 1] else out)"

text \<open>
  \<^verbatim>\<open>decompress\<close> only reports an odd length and goes on; the last round then reads \<^verbatim>\<open>in[i + 1]\<close>
  past the end.
\<close>

fun rle_decompress :: "byte list \<Rightarrow> byte list result" where
  "rle_decompress [] = Inr []"
| "rle_decompress [b] = Inl Out_Of_Bounds"
| "rle_decompress (b # n # bs) =
     rbind (rle_decompress bs) (\<lambda>out. Inr (replicate (unat n) b @ out))"

lemma even_length_rle_loop: "even (length (rle_loop bs))"
  by (induction bs rule: rle_loop.induct) (auto split: prod.splits)

lemma rle_compress_eq: "rle_compress bs = rle_loop bs"
  using even_length_rle_loop [of bs]
  by (cases bs) (auto simp: rle_compress_def Let_def even_iff_mod_2_eq_zero)

text \<open>The inner loop splits off a run: what it counted and what it left make up the input.\<close>

lemma rle_run_spec:
  "rle_run c n bs = (m, rest) \<Longrightarrow>
     replicate (unat n) c @ bs = replicate (unat m) c @ rest \<and> n \<le> m"
proof (induction c n bs rule: rle_run.induct)
  case (1 c n)
  then show ?case by simp
next
  case (2 c n b bs)
  show ?case
  proof (cases "b = c \<and> n < 255")
    case True
    then have n: "unat (n + 1) = Suc (unat n)"
      by (blast intro: unat_inc)
    from True "2.prems" have "rle_run c (n + 1) bs = (m, rest)"
      by simp
    with True have "replicate (unat (n + 1)) c @ bs = replicate (unat m) c @ rest \<and> n + 1 \<le> m"
      by (intro "2.IH") auto
    then show ?thesis
      using True n by (auto simp: word_le_nat_alt replicate_append_same [symmetric])
  next
    case False
    with "2.prems" show ?thesis by auto
  qed
qed

lemma rle_decompress_rle_loop: "rle_decompress (rle_loop bs) = Inr bs"
proof (induction bs rule: rle_loop.induct)
  case 1
  then show ?case by simp
next
  case (2 c bs)
  obtain n rest where run: "rle_run c 1 bs = (n, rest)"
    by (cases "rle_run c 1 bs")
  then have "rle_decompress (rle_loop rest) = Inr rest"
    using 2 by simp
  moreover have "replicate (unat n) c @ rest = c # bs"
    using rle_run_spec [OF run] by simp
  ultimately show ?case
    using run by simp
qed

lemma rle_decompress_rle_compress: "rle_decompress (rle_compress bs) = Inr bs"
  by (simp add: rle_compress_eq rle_decompress_rle_loop)

lemma rle_decompress_odd: "odd (length bs) \<Longrightarrow> rle_decompress bs = Inl Out_Of_Bounds"
  by (induction bs rule: rle_decompress.induct) auto

lemma rle_decompress_even: "even (length bs) \<Longrightarrow> \<exists>out. rle_decompress bs = Inr out"
  by (induction bs rule: rle_decompress.induct) auto

text \<open>Every emitted run length is between 1 and 255, and the output at most doubles the input.\<close>

lemma length_rle_loop: "length (rle_loop bs) \<le> 2 * length bs"
proof (induction bs rule: rle_loop.induct)
  case 1
  then show ?case by simp
next
  case (2 c bs)
  obtain n rest where run: "rle_run c 1 bs = (n, rest)"
    by (cases "rle_run c 1 bs")
  then have "length (rle_loop rest) \<le> 2 * length rest"
    using 2 by simp
  with run length_rle_run [of c 1 bs] show ?case
    by simp
qed

subsection \<open>Properties\<close>

text \<open>Run length encoding is lossless for every input, its output has even length and is at most
  twice as long as the input.\<close>

theorem rle_roundtrip:
  "rle_decompress (rle_compress bs) = Inr bs \<and> even (length (rle_compress bs)) \<and>
   length (rle_compress bs) \<le> 2 * length bs"
  using length_rle_loop [of bs] even_length_rle_loop [of bs] rle_decompress_rle_loop [of bs]
  by (simp add: rle_compress_eq)

lemma upt_two_steps: "map f [0..<Suc n] = f 0 # map (\<lambda>i. f (Suc i)) [0..<n]"
  by (simp add: upt_conv_Cons map_Suc_upt [symmetric] comp_def del: upt_Suc)

text \<open>\<open>decompress\<close> expands the pairs of its input in order; a length that is not even, which it
  only reports, makes it read past the end.\<close>

theorem rle_decompress_result:
  "rle_decompress bs =
     (if odd (length bs) then Inl Out_Of_Bounds
      else Inr (concat (map (\<lambda>i. replicate (unat (bs ! (2 * i + 1))) (bs ! (2 * i))) [0..<length bs div 2])))"
  by (induction bs rule: rle_decompress.induct) (auto simp: upt_two_steps simp del: upt_Suc)

end
