(* ===== verification/Bfp.thy ===== *)
theory Bfp
  imports Rle
begin

text \<open>
  The lossy coder of \<^verbatim>\<open>lib/d_compression/bfp.cpp\<close> (class \<^verbatim>\<open>bfp_compressor\<close> of
  \<^verbatim>\<open>include/d_compression/bfp.h\<close>): each component is cut to its high byte, in blocks of
  \<^verbatim>\<open>NOF_SAMPLES_PER_PRB\<close> samples.
\<close>

definition BFP_NOF_SAMPLES_PER_PRB :: nat where
  "BFP_NOF_SAMPLES_PER_PRB = 100"

definition bfp_compress_prb_generic :: "cbf16_t list \<Rightarrow> byte list" where
  "bfp_compress_prb_generic smp =
     concat (map (\<lambda>iq. [ucast (drop_bit 8 (re iq)), ucast (drop_bit 8 (im iq))]) smp)"

text \<open>
  Block \<open>i\<close> is the range from \<open>begin + N * i\<close> to \<open>end\<close> or \<open>begin + N * (i + 1)\<close>, whichever
  comes first.
\<close>

definition bfp_block :: "cbf16_t list \<Rightarrow> nat \<Rightarrow> cbf16_t list" where
  "bfp_block smp i =
     (let first = BFP_NOF_SAMPLES_PER_PRB * i;
          last = (if length smp \<le> BFP_NOF_SAMPLES_PER_PRB * (i + 1) then length smp
                  else BFP_NOF_SAMPLES_PER_PRB * (i + 1))
      in take (last - first) (drop first smp))"

definition bfp_compress :: "cbf16_t list \<Rightarrow> byte list" where
  "bfp_compress smp =
     (let nof_prbs = length smp div BFP_NOF_SAMPLES_PER_PRB + 1
      in concat (map (\<lambda>i. bfp_compress_prb_generic (bfp_block smp i)) [0..<nof_prbs]))"

fun bfp_decompress :: "byte list \<Rightarrow> cbf16_t list" where
  "bfp_decompress (i # q # bs) =
     \<lparr>re = push_bit 8 (ucast i), im = push_bit 8 (ucast q)\<rparr> # bfp_decompress bs"
| "bfp_decompress _ = []"

text \<open>
  \<^verbatim>\<open>determine_exponent\<close>: \<^verbatim>\<open>__builtin_clz\<close> of a positive 16-bit value as a 32-bit unsigned, in the
  unsigned arithmetic of the source (the two subtractions wrap around modulo \<open>2 ^ 32\<close>).
\<close>

definition clz32 :: "u32 \<Rightarrow> nat" where
  "clz32 x = length (takeWhile (\<lambda>i. \<not> bit x i) (rev [0..<32]))"

definition bfp_determine_exponent :: "u16 \<Rightarrow> u32 \<Rightarrow> u32" where
  "bfp_determine_exponent x data_width =
     (let max_shift = 32 - data_width;
          lz_without_sign =
            (if x > 0 \<and> max_shift > 0 then of_nat (clz32 (ucast x)) - 16 - 1 else max_shift);
          raw_exp = sint (min max_shift lz_without_sign)
      in word_of_int (max 0 (sint (32 - data_width) - raw_exp)))"

subsection \<open>The blocks cover the input\<close>

lemma bfp_block_eq:
  "bfp_block smp i = take BFP_NOF_SAMPLES_PER_PRB (drop (BFP_NOF_SAMPLES_PER_PRB * i) smp)"
  by (auto simp: bfp_block_def Let_def BFP_NOF_SAMPLES_PER_PRB_def)

lemma concat_chunks_take:
  "concat (map (\<lambda>i. take n (drop (n * i) xs)) [0..<k]) = take (n * k) xs"
proof (induction k)
  case 0
  then show ?case by simp
next
  case (Suc k)
  have "take (n * Suc k) xs = take (n * k) xs @ take n (drop (n * k) xs)"
    by (simp only: mult_Suc_right add.commute [of n] take_add)
  with Suc show ?case
    by simp
qed

lemma concat_bfp_blocks:
  "concat (map (bfp_block smp) [0..<length smp div BFP_NOF_SAMPLES_PER_PRB + 1]) = smp"
proof -
  have "length smp \<le> BFP_NOF_SAMPLES_PER_PRB * (length smp div BFP_NOF_SAMPLES_PER_PRB + 1)"
    unfolding BFP_NOF_SAMPLES_PER_PRB_def by simp
  then show ?thesis
    unfolding bfp_block_eq concat_chunks_take by simp
qed

lemma bfp_compress_prb_generic_eq: "bfp_compress_prb_generic smp = from_iq_bytes smp"
  by (simp add: bfp_compress_prb_generic_def from_iq_bytes_def bf16_high_byte_def)

lemma from_iq_bytes_append [simp]:
  "from_iq_bytes (xs @ ys) = from_iq_bytes xs @ from_iq_bytes ys"
  by (simp add: from_iq_bytes_def)

lemma from_iq_bytes_concat:
  "from_iq_bytes (concat xss) = concat (map from_iq_bytes xss)"
  by (induction xss) simp_all

lemma bfp_compress_eq: "bfp_compress smp = from_iq_bytes smp"
proof -
  have "from_iq_bytes smp
      = from_iq_bytes (concat (map (bfp_block smp) [0..<length smp div BFP_NOF_SAMPLES_PER_PRB + 1]))"
    by (simp only: concat_bfp_blocks)
  then show ?thesis
    unfolding from_iq_bytes_concat map_map bfp_compress_def bfp_compress_prb_generic_eq Let_def
    by (simp add: comp_def)
qed

lemma bfp_decompress_eq: "bfp_decompress bs = to_iq_loop bs"
  by (induction bs rule: bfp_decompress.induct) (simp_all add: mk_sample_def byte_to_bf16_def)

lemma to_iq_loop_from_iq_bytes:
  "to_iq_loop (from_iq_bytes smp)
     = map (\<lambda>s. mk_sample (bf16_high_byte (re s)) (bf16_high_byte (im s))) smp"
  by (induction smp) simp_all

text \<open>What survives: the high byte of each component.\<close>

definition bfp_truncate :: "cbf16_t \<Rightarrow> cbf16_t" where
  "bfp_truncate s = \<lparr>re = re s AND 0xFF00, im = im s AND 0xFF00\<rparr>"

lemma byte_to_bf16_high_byte: "byte_to_bf16 (bf16_high_byte v) = v AND 0xFF00"
proof (rule bit_word_eqI)
  fix n
  assume "n < LENGTH(16)"
  moreover have mask: "v AND 0xFF00 = v AND push_bit 8 (mask 8)"
    by (simp add: mask_eq_exp_minus_1 push_bit_eq_mult)
  ultimately show "bit (byte_to_bf16 (bf16_high_byte v)) n = bit (v AND 0xFF00) n"
    unfolding mask by (auto simp: byte_to_bf16_def bf16_high_byte_def bit_simps)
qed

lemma bfp_roundtrip: "bfp_decompress (bfp_compress smp) = map bfp_truncate smp"
  by (simp add: bfp_compress_eq bfp_decompress_eq to_iq_loop_from_iq_bytes mk_sample_def
      byte_to_bf16_high_byte bfp_truncate_def)

lemma bfp_truncate_high_only: "high_only s \<Longrightarrow> bfp_truncate s = s"
  by (simp add: high_only_def bfp_truncate_def byte_to_bf16_high_byte)

lemma bfp_lossless: "list_all high_only smp \<Longrightarrow> bfp_decompress (bfp_compress smp) = smp"
  by (simp add: bfp_roundtrip list.pred_set map_idI bfp_truncate_high_only)

lemma length_bfp_compress: "length (bfp_compress smp) = 2 * length smp"
  by (simp add: bfp_compress_eq)

subsection \<open>Properties\<close>

text \<open>The block loop covers the whole input, the encoding takes two bytes per sample, and decoding
  gives every sample back with the low byte of both parts cleared.\<close>

theorem bfp_truncates:
  "bfp_decompress (bfp_compress smp) = map bfp_truncate smp \<and> length (bfp_compress smp) = 2 * length smp"
  by (simp add: bfp_roundtrip length_bfp_compress)

end
