(* ===== verification/Lz77.thy ===== *)
theory Lz77
  imports Bfp
begin

text \<open>
  The zlib wrapper of \<^verbatim>\<open>lib/d_compression/lz77.cpp\<close> (class \<^verbatim>\<open>lz77_compressor\<close>): the length of the
  input as an eight-byte \<^verbatim>\<open>uLong\<close>, then the zlib stream. zlib itself is not part of the sources:
  its three entry points are fields of a record, and what the wrapper relies on are the two
  predicates below.
\<close>

record zlib =
  z_compressBound :: "nat \<Rightarrow> nat"
  z_compress :: "nat \<Rightarrow> byte list \<Rightarrow> int + byte list"
  z_uncompress :: "nat \<Rightarrow> byte list \<Rightarrow> int + byte list"

text \<open>
  \<open>z_compress cap src\<close> is \<^verbatim>\<open>::compress\<close> with a destination of \<open>cap\<close> bytes: \<open>Inl\<close> an error code
  other than \<^verbatim>\<open>Z_OK\<close>, or \<open>Inr\<close> the bytes written; \<open>z_uncompress\<close> likewise. The manual promises that
  a stream uncompresses to its source when there is room for it, and that \<^verbatim>\<open>compressBound\<close> bytes
  are room enough (memory permitting).
\<close>

definition zlib_inverse :: "zlib \<Rightarrow> bool" where
  "zlib_inverse z \<longleftrightarrow>
     (\<forall>cap src dst n. z_compress z cap src = Inr dst \<longrightarrow> length src \<le> n \<longrightarrow>
        z_uncompress z n dst = Inr src)"

definition zlib_bound :: "zlib \<Rightarrow> bool" where
  "zlib_bound z \<longleftrightarrow>
     (\<forall>src. \<exists>dst. z_compress z (z_compressBound z (length src)) src = Inr dst
        \<and> length dst \<le> z_compressBound z (length src))"

definition ULONG_SIZE :: nat where
  "ULONG_SIZE = 8"

definition VECTOR_MAX_SIZE :: nat where
  "VECTOR_MAX_SIZE = 2 ^ 63 - 1"

definition lz77_compress :: "zlib \<Rightarrow> byte list \<Rightarrow> byte list" where
  "lz77_compress z bs =
     (if bs = [] then []
      else let sourceSize = length bs;
               compressedSize = z_compressBound z sourceSize
           in case z_compress z compressedSize bs of
                Inl result \<Rightarrow> []
              | Inr dst \<Rightarrow> le_bytes ULONG_SIZE (of_nat sourceSize :: u64) @ dst)"

text \<open>
  \<^verbatim>\<open>decompress\<close> takes its input by reference and erases the header from it: the result is the
  input as it leaves it and the output.
\<close>

definition lz77_decompress :: "zlib \<Rightarrow> byte list \<Rightarrow> (byte list \<times> byte list) result" where
  "lz77_decompress z bs =
     (if length bs < ULONG_SIZE then Inr (bs, [])
      else let originalSize = unat (of_le_bytes (take ULONG_SIZE bs) :: u64);
               inp = drop ULONG_SIZE bs
           in if VECTOR_MAX_SIZE < originalSize then Inl Length_Error
              else case z_uncompress z originalSize inp of
                     Inl result \<Rightarrow> Inr (inp, [])
                   | Inr dst \<Rightarrow> Inr (inp, dst))"

lemma lz77_compress_nonempty:
  assumes "zlib_bound z" "bs \<noteq> []"
  obtains dst where "lz77_compress z bs = le_bytes ULONG_SIZE (of_nat (length bs) :: u64) @ dst"
    and "z_compress z (z_compressBound z (length bs)) bs = Inr dst"
    and "length dst \<le> z_compressBound z (length bs)"
  using assms unfolding zlib_bound_def lz77_compress_def Let_def
  by (metis old.sum.simps(6))

lemma unat_of_nat_u64: "n < 2 ^ 64 \<Longrightarrow> unat (of_nat n :: u64) = n"
  by (simp add: unsigned_of_nat take_bit_nat_eq_self)

lemma lz77_roundtrip:
  assumes inv: "zlib_inverse z" and bnd: "zlib_bound z"
    and ne: "bs \<noteq> []" and len: "length bs \<le> VECTOR_MAX_SIZE"
  shows "\<exists>rest. lz77_decompress z (lz77_compress z bs) = Inr (rest, bs)"
proof -
  obtain dst where out: "lz77_compress z bs = le_bytes ULONG_SIZE (of_nat (length bs) :: u64) @ dst"
    and dst: "z_compress z (z_compressBound z (length bs)) bs = Inr dst"
    using lz77_compress_nonempty [OF bnd ne] by blast
  have size: "unat (of_le_bytes (le_bytes ULONG_SIZE (of_nat (length bs) :: u64)) :: u64) = length bs"
    using len by (simp add: of_le_bytes_inverse ULONG_SIZE_def VECTOR_MAX_SIZE_def unat_of_nat_u64)
  have "z_uncompress z (length bs) dst = Inr bs"
    using inv dst unfolding zlib_inverse_def by blast
  with len show ?thesis
    by (simp add: out lz77_decompress_def size Let_def)
qed

lemma length_lz77_compress:
  "zlib_bound z \<Longrightarrow> length (lz77_compress z bs) \<le> ULONG_SIZE + z_compressBound z (length bs)"
  by (cases "bs = []")
    (simp add: lz77_compress_def, metis lz77_compress_nonempty add_left_mono length_append length_le_bytes)

subsection \<open>A library that stores\<close>

text \<open>An instance of the library's promises: streams hold their source uncompressed, under the bound
  zlib documents.\<close>

definition stored_zlib :: zlib where
  "stored_zlib =
     \<lparr>z_compressBound = (\<lambda>n. n + n div 4096 + n div 16384 + n div 33554432 + 13),
      z_compress = (\<lambda>cap src. if length src \<le> cap then Inr src else Inl (- 5)),
      z_uncompress = (\<lambda>cap src. if length src \<le> cap then Inr src else Inl (- 5))\<rparr>"

lemma stored_zlib_inverse: "zlib_inverse stored_zlib"
  by (auto simp: zlib_inverse_def stored_zlib_def split: if_splits)

lemma stored_zlib_bound: "zlib_bound stored_zlib"
  by (auto simp: zlib_bound_def stored_zlib_def)

subsection \<open>Properties\<close>

text \<open>With a library that keeps its promises, a non-empty buffer compressed by \<open>lz77_compress\<close> is
  decompressed to itself.\<close>

theorem lz77_lossless:
  assumes "zlib_inverse z" "zlib_bound z" "bs \<noteq> []" "length bs \<le> VECTOR_MAX_SIZE"
  shows "\<exists>rest. lz77_decompress z (lz77_compress z bs) = Inr (rest, bs)"
  using assms by (rule lz77_roundtrip)

theorem lz77_lossless_witness:
  "\<exists>rest. lz77_decompress stored_zlib (lz77_compress stored_zlib [1, 1, 2]) = Inr (rest, [1, 1, 2])"
  using lz77_lossless [OF stored_zlib_inverse stored_zlib_bound, of "[1, 1, 2]"]
  by (simp add: VECTOR_MAX_SIZE_def)

text \<open>\<open>lz77_decompress\<close> returns an empty buffer for an input shorter than its size header and
  for a stream the library refuses, and throws for a size no vector can have.\<close>

theorem lz77_decompress_errors:
  "(length bs < 8 \<longrightarrow> lz77_decompress z bs = Inr (bs, [])) \<and>
   (8 \<le> length bs \<longrightarrow>
      (let n = unat (of_le_bytes (take 8 bs) :: u64)
       in (VECTOR_MAX_SIZE < n \<longrightarrow> lz77_decompress z bs = Inl Length_Error) \<and>
          (n \<le> VECTOR_MAX_SIZE \<longrightarrow> z_uncompress z n (drop 8 bs) = Inl code \<longrightarrow>
             lz77_decompress z bs = Inr (drop 8 bs, []))))"
  by (auto simp: lz77_decompress_def ULONG_SIZE_def Let_def)

theorem lz77_decompress_errors_witness:
  "lz77_decompress stored_zlib [1, 2] = Inr ([1, 2], []) \<and>
   lz77_decompress stored_zlib [1, 0, 0, 0, 0, 0, 0, 0, 9, 9] = Inr ([9, 9], [])"
  using lz77_decompress_errors [of "[1, 2]" stored_zlib 0]
    lz77_decompress_errors [of "[1, 0, 0, 0, 0, 0, 0, 0, 9, 9]" stored_zlib "- 5"]
  by (simp add: VECTOR_MAX_SIZE_def stored_zlib_def Let_def)

end
