(* ===== verification/Codec.thy ===== *)
theory Codec
  imports Lz77
begin

text \<open>
  The contract between the sender's \<^verbatim>\<open>switch\<close> over the compression type and the receiver's: what
  the sender writes for a buffer of samples, the receiver turns back into the same samples. The
  contract is a locale; each of the four algorithms is shown to satisfy it, the zlib based one
  for any zlib that keeps its promises.
\<close>

locale sample_codec =
  fixes encode :: "cbf16_t list \<Rightarrow> byte list"
    and decode :: "byte list \<Rightarrow> cbf16_t list result"
    and in_domain :: "cbf16_t list \<Rightarrow> bool"
  assumes decode_encode: "in_domain smp \<Longrightarrow> decode (encode smp) = Inr smp"
    and to_iq_in_domain: "bs \<noteq> [] \<Longrightarrow> length bs \<le> 2 ^ 32 \<Longrightarrow> in_domain (fst (to_iq bs))"
begin

lemma buffer_roundtrip:
  assumes "bs \<noteq> []" "length bs \<le> 2 ^ 32"
  shows "rbind (decode (encode (fst (to_iq bs)))) (\<lambda>smp. from_iq smp (snd (to_iq bs))) = Inr bs"
  using assms by (simp add: decode_encode to_iq_in_domain from_iq_to_iq_pair)

lemma encode_inj_on: "inj_on encode {smp. in_domain smp}"
  by (rule inj_on_inverseI [where g = "\<lambda>b. projr (decode b)"]) (simp add: decode_encode)

end

subsection \<open>The four algorithms, as the sender and the receiver run them\<close>

definition encode_samples :: "zlib \<Rightarrow> compression_options \<Rightarrow> cbf16_t list \<Rightarrow> byte list" where
  "encode_samples z opt smp =
     (let buffer = serialize smp
      in case opt of
           BFP \<Rightarrow> bfp_compress smp
         | RLE \<Rightarrow> rle_compress buffer
         | LZ77 \<Rightarrow> lz77_compress z buffer
         | NONE \<Rightarrow> buffer)"

definition decode_samples :: "zlib \<Rightarrow> compression_options \<Rightarrow> byte list \<Rightarrow> cbf16_t list result" where
  "decode_samples z opt buffer =
     (case opt of
        NONE \<Rightarrow> deserialize buffer
      | BFP \<Rightarrow> Inr (bfp_decompress buffer)
      | RLE \<Rightarrow> rbind (rle_decompress buffer) deserialize
      | LZ77 \<Rightarrow> rbind (lz77_decompress z buffer) (\<lambda>(_, intermediate). deserialize intermediate))"

interpretation none_codec: sample_codec "encode_samples z NONE" "decode_samples z NONE" "\<lambda>_. True"
  for z
  by unfold_locales (simp_all add: encode_samples_def decode_samples_def deserialize_serialize)

interpretation rle_codec: sample_codec "encode_samples z RLE" "decode_samples z RLE" "\<lambda>_. True"
  for z
  by unfold_locales
    (simp_all add: encode_samples_def decode_samples_def deserialize_serialize
      rle_decompress_rle_compress)

interpretation bfp_codec: sample_codec "encode_samples z BFP" "decode_samples z BFP" "list_all high_only"
  for z
  by unfold_locales
    (simp_all add: encode_samples_def decode_samples_def bfp_lossless to_iq_high_only)

text \<open>
  The zlib based codec: not on an empty buffer (its encoding is empty, which the decoder takes
  for a truncated one), and not beyond what a vector holds.
\<close>

definition lz77_domain :: "cbf16_t list \<Rightarrow> bool" where
  "lz77_domain smp \<longleftrightarrow> smp \<noteq> [] \<and> 8 * length smp \<le> VECTOR_MAX_SIZE"

lemma lz77_codec:
  assumes "zlib_inverse z" "zlib_bound z"
  shows "sample_codec (encode_samples z LZ77) (decode_samples z LZ77) lz77_domain"
proof
  fix smp
  assume dom: "lz77_domain smp"
  then have "serialize smp \<noteq> []"
    by (cases smp) (auto simp: lz77_domain_def simp flip: length_0_conv)
  with dom assms obtain rest where
    "lz77_decompress z (lz77_compress z (serialize smp)) = Inr (rest, serialize smp)"
    using lz77_roundtrip [of z "serialize smp"] by (auto simp: lz77_domain_def)
  then show "decode_samples z LZ77 (encode_samples z LZ77 smp) = Inr smp"
    by (simp add: encode_samples_def decode_samples_def deserialize_serialize)
next
  fix bs :: "byte list"
  assume "bs \<noteq> []" "length bs \<le> 2 ^ 32"
  then have "0 < length (fst (to_iq bs))" "length (fst (to_iq bs)) \<le> 2 ^ 32"
    by (cases bs; simp add: length_to_iq)+
  then show "lz77_domain (fst (to_iq bs))"
    by (auto simp: lz77_domain_def VECTOR_MAX_SIZE_def)
qed

text \<open>All four at once: the frame payload of any algorithm decodes to the buffer it was made from.\<close>

lemma decode_encode_buffer:
  assumes "zlib_inverse z" "zlib_bound z" "bs \<noteq> []" "length bs \<le> 2 ^ 32"
  shows "rbind (decode_samples z opt (encode_samples z opt (fst (to_iq bs))))
           (\<lambda>smp. from_iq smp (snd (to_iq bs))) = Inr bs"
  using none_codec.buffer_roundtrip bfp_codec.buffer_roundtrip rle_codec.buffer_roundtrip
    sample_codec.buffer_roundtrip [OF lz77_codec] assms
  by (cases opt) simp_all

text \<open>How long a payload can get.\<close>

lemma length_encode_samples:
  assumes "zlib_bound z"
  shows "length (encode_samples z opt smp)
           \<le> max (16 * length smp) (8 + z_compressBound z (8 * length smp))"
proof (cases opt)
  case RLE
  have "length (rle_loop (serialize smp)) \<le> 2 * (8 * length smp)"
    using length_rle_loop [of "serialize smp"] by simp
  with RLE show ?thesis
    by (simp add: encode_samples_def rle_compress_eq)
next
  case LZ77
  with length_lz77_compress [OF assms, of "serialize smp"] show ?thesis
    by (simp add: encode_samples_def ULONG_SIZE_def)
qed (simp_all add: encode_samples_def length_bfp_compress)

subsection \<open>Properties\<close>

text \<open>C11. Whatever algorithm is selected, a buffer that is converted to samples, encoded, decoded and
  converted back is unchanged.\<close>

theorem every_codec_lossless:
  assumes "zlib_inverse z" "zlib_bound z" "bs \<noteq> []" "length bs \<le> 2 ^ 32"
  shows "rbind (decode_samples z opt (encode_samples z opt (fst (to_iq bs))))
           (\<lambda>smp. from_iq smp (snd (to_iq bs))) = Inr bs"
  using assms by (rule decode_encode_buffer)

theorem every_codec_lossless_witness:
  "rbind (decode_samples stored_zlib LZ77 (encode_samples stored_zlib LZ77 (fst (to_iq [1, 2, 3]))))
     (\<lambda>smp. from_iq smp (snd (to_iq [1, 2, 3]))) = Inr [1, 2, 3]"
  using every_codec_lossless [OF stored_zlib_inverse stored_zlib_bound, of "[1, 2, 3]" LZ77] by simp

end
