(* ===== verification/Channel.thy ===== *)
theory Channel
  imports Codec
begin

text \<open>
  The message channels: \<^verbatim>\<open>include/d_compression/channel.h\<close>, which frames messages on a TCP
  connection, and \<^verbatim>\<open>lib/d_compression/zmq_channel.cpp\<close>. A connection is the sequence of bytes
  written and not yet read; \<^verbatim>\<open>boost::asio::write\<close> writes all it is given, \<^verbatim>\<open>boost::asio::read\<close>
  fills its buffer or fails at the end of the stream.
\<close>

type_synonym stream = "byte list"

definition CHUNK_SIZE :: nat where
  "CHUNK_SIZE = 1024"

definition htonl :: "u32 \<Rightarrow> u32" where
  "htonl w = of_le_bytes (be_bytes 4 w)"

definition ntohl :: "u32 \<Rightarrow> u32" where
  "ntohl w = of_be_bytes (le_bytes 4 w)"

definition asio_write :: "stream \<Rightarrow> byte list \<Rightarrow> stream" where
  "asio_write s bs = s @ bs"

definition asio_read :: "nat \<Rightarrow> stream \<Rightarrow> (byte list \<times> stream) result" where
  "asio_read n s = (if length s < n then Inl End_Of_Stream else Inr (take n s, drop n s))"

function send_loop :: "byte list \<Rightarrow> nat \<Rightarrow> stream \<Rightarrow> nat \<times> stream" where
  "send_loop buffer total_sent s =
     (if total_sent < length buffer
      then let bytes_to_send = min CHUNK_SIZE (length buffer - total_sent)
           in send_loop buffer (total_sent + bytes_to_send)
                (asio_write s (take bytes_to_send (drop total_sent buffer)))
      else (total_sent, s))"
  by pat_completeness auto
termination
  by (relation "measure (\<lambda>(buffer, total_sent, s). length buffer - total_sent)")
    (auto simp: CHUNK_SIZE_def)

declare send_loop.simps [simp del]

definition channel_send :: "byte list \<Rightarrow> stream \<Rightarrow> nat \<times> stream" where
  "channel_send buffer s =
     (let data_size = (of_nat (length buffer) :: u32);
          data_size_net = htonl data_size
      in send_loop buffer 0 (asio_write s (le_bytes 4 data_size_net)))"

text \<open>The receive buffer is allocated at its full size, zeroed, and filled chunk by chunk.\<close>

function recv_loop :: "nat \<Rightarrow> nat \<Rightarrow> byte list \<Rightarrow> stream \<Rightarrow> (byte list \<times> stream) result" where
  "recv_loop data_size total_received buffer s =
     (if total_received < data_size
      then let bytes_to_read = min CHUNK_SIZE (data_size - total_received)
           in rbind (asio_read bytes_to_read s)
                (\<lambda>(chunk, s'). recv_loop data_size (total_received + bytes_to_read)
                   (take total_received buffer @ chunk @ drop (total_received + bytes_to_read) buffer) s')
      else Inr (buffer, s))"
  by pat_completeness auto
termination
  by (relation "measure (\<lambda>(data_size, total_received, buffer, s). data_size - total_received)")
    (auto simp: CHUNK_SIZE_def)

declare recv_loop.simps [simp del]

definition channel_recv :: "stream \<Rightarrow> (byte list \<times> stream) result" where
  "channel_recv s =
     rbind (asio_read 4 s)
       (\<lambda>(hdr, s'). let data_size_net = of_le_bytes hdr;
                        data_size = unat (ntohl data_size_net)
                    in recv_loop data_size 0 (replicate data_size 0) s')"

subsection \<open>Chunking does not show\<close>

lemma send_loop_eq:
  "n \<le> length buf \<Longrightarrow> send_loop buf n s = (length buf, s @ drop n buf)"
proof (induction buf n s rule: send_loop.induct)
  case (1 buf n s)
  show ?case
  proof (cases "n < length buf")
    case True
    define k where "k = min CHUNK_SIZE (length buf - n)"
    have "n + k \<le> length buf"
      using True by (simp add: k_def)
    then have "send_loop buf (n + k) (asio_write s (take k (drop n buf)))
        = (length buf, (s @ take k (drop n buf)) @ drop (n + k) buf)"
      using 1 True by (simp add: k_def asio_write_def)
    also have "\<dots> = (length buf, s @ drop n buf)"
      by (simp add: add.commute [of n] flip: drop_drop)
    finally show ?thesis
      using True by (subst send_loop.simps) (simp add: k_def Let_def)
  next
    case False
    with "1.prems" show ?thesis
      by (subst send_loop.simps) simp
  qed
qed

lemma recv_loop_eq:
  "n \<le> sz \<Longrightarrow> length buf = sz \<Longrightarrow> sz - n \<le> length s \<Longrightarrow>
     recv_loop sz n buf s = Inr (take n buf @ take (sz - n) s, drop (sz - n) s)"
proof (induction "sz - n" arbitrary: n buf s rule: less_induct)
  case less
  show ?case
  proof (cases "n < sz")
    case True
    define k where "k = min CHUNK_SIZE (sz - n)"
    define buf' where "buf' = take n buf @ take k s @ drop (n + k) buf"
    have k: "0 < k" "n + k \<le> sz" "k \<le> length s"
      using True less.prems by (auto simp: k_def CHUNK_SIZE_def)
    have rd: "asio_read k s = Inr (take k s, drop k s)"
      using k by (simp add: asio_read_def)
    have "length buf' = sz"
      using k less.prems by (simp add: buf'_def)
    then have "recv_loop sz (n + k) buf' (drop k s)
        = Inr (take (n + k) buf' @ take (sz - (n + k)) (drop k s), drop (sz - (n + k)) (drop k s))"
      using less.hyps [of "n + k" buf' "drop k s"] True k less.prems by simp
    also have "take (n + k) buf' = take n buf @ take k s"
      using k less.prems by (simp add: buf'_def)
    also have "(take n buf @ take k s) @ take (sz - (n + k)) (drop k s)
        = take n buf @ take (sz - n) s"
      using k by (simp flip: take_add)
    also have "drop (sz - (n + k)) (drop k s) = drop (sz - n) s"
      using k by (simp add: add.commute)
    finally have "recv_loop sz (n + k) buf' (drop k s)
        = Inr (take n buf @ take (sz - n) s, drop (sz - n) s)" .
    then show ?thesis
      using True rd by (subst recv_loop.simps) (simp add: k_def buf'_def Let_def)
  next
    case False
    with less.prems show ?thesis
      by (subst recv_loop.simps) simp
  qed
qed

lemma recv_loop_short:
  "n \<le> sz \<Longrightarrow> length s < sz - n \<Longrightarrow> recv_loop sz n buf s = Inl End_Of_Stream"
proof (induction "sz - n" arbitrary: n buf s rule: less_induct)
  case less
  define k where "k = min CHUNK_SIZE (sz - n)"
  have n: "n < sz" and k: "n + k \<le> sz" "0 < k"
    using less.prems by (auto simp: k_def CHUNK_SIZE_def)
  show ?case
  proof (cases "length s < k")
    case True
    with n show ?thesis
      by (subst recv_loop.simps) (simp add: k_def asio_read_def Let_def)
  next
    case False
    then have rd: "asio_read k s = Inr (take k s, drop k s)"
      by (simp add: asio_read_def)
    have "recv_loop sz (n + k) (take n buf @ take k s @ drop (n + k) buf) (drop k s)
        = Inl End_Of_Stream"
      using n k less.prems False by (intro less.hyps) auto
    with n rd show ?thesis
      by (subst recv_loop.simps) (simp add: k_def Let_def)
  qed
qed

lemma le_bytes_htonl: "le_bytes 4 (htonl w) = be_bytes 4 w"
  using le_bytes_of_le_bytes [of "be_bytes 4 w", where 'a = 32] by (simp add: htonl_def)

lemma ntohl_of_le_bytes: "length bs = 4 \<Longrightarrow> ntohl (of_le_bytes bs) = of_be_bytes bs"
  using le_bytes_of_le_bytes [of bs, where 'a = 32] by (simp add: ntohl_def)

lemma channel_send_eq:
  "channel_send buffer s = (length buffer, s @ be_bytes 4 (of_nat (length buffer) :: u32) @ buffer)"
  by (simp add: channel_send_def send_loop_eq le_bytes_htonl asio_write_def Let_def)

lemma channel_recv_frame:
  assumes "length hdr = 4" "unat (of_be_bytes hdr :: u32) = length buffer"
  shows "channel_recv (hdr @ buffer @ rest) = Inr (buffer, rest)"
  using assms
  by (simp add: channel_recv_def asio_read_def ntohl_of_le_bytes recv_loop_eq)

lemma unat_of_nat_u32: "n < 2 ^ 32 \<Longrightarrow> unat (of_nat n :: u32) = n"
  by (simp add: unsigned_of_nat take_bit_nat_eq_self)

subsection \<open>The contract of a message channel\<close>

text \<open>
  A channel that keeps message boundaries and order: reading from what has been written returns
  the messages one by one.
\<close>

locale message_channel =
  fixes send :: "byte list \<Rightarrow> 's \<Rightarrow> nat \<times> 's"
    and recv :: "'s \<Rightarrow> (byte list \<times> 's) result"
    and empty :: 's
    and join :: "'s \<Rightarrow> 's \<Rightarrow> 's"
    and fits :: "byte list \<Rightarrow> bool"
  assumes send_returns: "fst (send msg s) = length msg"
    and send_join: "snd (send msg s) = join s (snd (send msg empty))"
    and join_empty: "join empty s = s" "join s empty = s"
    and join_assoc: "join (join r s) t = join r (join s t)"
    and recv_send: "fits msg \<Longrightarrow> recv (join (snd (send msg empty)) s) = Inr (msg, s)"
begin

primrec send_all :: "byte list list \<Rightarrow> 's \<Rightarrow> 's" where
  "send_all [] s = s"
| "send_all (m # ms) s = send_all ms (snd (send m s))"

primrec recv_n :: "nat \<Rightarrow> 's \<Rightarrow> (byte list list \<times> 's) result" where
  "recv_n 0 s = Inr ([], s)"
| "recv_n (Suc n) s =
     rbind (recv s) (\<lambda>(m, s'). rbind (recv_n n s') (\<lambda>(ms, s''). Inr (m # ms, s'')))"

lemma send_all_join: "send_all ms s = join s (send_all ms empty)"
proof (induction ms arbitrary: s)
  case Nil
  then show ?case by (simp add: join_empty)
next
  case (Cons m ms)
  have "send_all (m # ms) s = join (snd (send m s)) (send_all ms empty)"
    by (simp add: Cons.IH [of "snd (send m s)"])
  also have "\<dots> = join s (join (snd (send m empty)) (send_all ms empty))"
    by (subst send_join) (rule join_assoc)
  also have "\<dots> = join s (send_all (m # ms) empty)"
    by (simp add: Cons.IH [of "snd (send m empty)"])
  finally show ?case .
qed

lemma recv_n_send_all:
  "list_all fits ms \<Longrightarrow> recv_n (length ms) (join (send_all ms empty) s) = Inr (ms, s)"
proof (induction ms arbitrary: s)
  case Nil
  then show ?case by (simp add: join_empty)
next
  case (Cons m ms)
  have "join (send_all (m # ms) empty) s
      = join (snd (send m empty)) (join (send_all ms empty) s)"
    by (simp add: send_all_join [of ms "snd (send m empty)"] join_assoc)
  with Cons show ?case
    by (simp add: recv_send)
qed

end

definition fits_frame :: "byte list \<Rightarrow> bool" where
  "fits_frame msg \<longleftrightarrow> length msg < 2 ^ 32"

interpretation tcp: message_channel channel_send channel_recv "[]" "(@)" fits_frame
proof
  fix msg :: "byte list" and s :: stream
  assume "fits_frame msg"
  then show "channel_recv (snd (channel_send msg []) @ s) = Inr (msg, s)"
    using channel_recv_frame [of "be_bytes 4 (of_nat (length msg) :: u32)" msg s]
    by (simp add: channel_send_eq of_be_bytes_inverse unat_of_nat_u32 fits_frame_def)
qed (simp_all add: channel_send_eq)

subsection \<open>Properties\<close>



text \<open>What a receive returns, for every stream: the announced number of bytes, or an end-of-stream
  error when the header or the body is cut short.\<close>

theorem channel_recv_result:
  "channel_recv s =
     (if length s < 4 then Inl End_Of_Stream
      else let n = unat (of_be_bytes (take 4 s) :: u32)
           in if length s - 4 < n then Inl End_Of_Stream
              else Inr (take n (drop 4 s), drop (4 + n) s))"
proof (cases "length s < 4")
  case True
  then show ?thesis
    by (simp add: channel_recv_def asio_read_def)
next
  case False
  define n where "n = unat (of_be_bytes (take 4 s) :: u32)"
  show ?thesis
  proof (cases "length s - 4 < n")
    case True
    then show ?thesis
      using False recv_loop_short [of 0 n "drop 4 s"]
      by (simp add: channel_recv_def asio_read_def ntohl_of_le_bytes n_def [symmetric] Let_def)
  next
    case False
    with \<open>\<not> length s < 4\<close> channel_recv_frame [of "take 4 s" "take n (drop 4 s)" "drop (4 + n) s"]
    show ?thesis
      by (simp add: n_def [symmetric] Let_def take_add [symmetric] flip: append_assoc)
  qed
qed

text \<open>The length header has 32 bits: of a longer buffer a receive returns only the first
  \<open>length mod 2 ^ 32\<close> bytes and leaves the rest of the message on the stream.\<close>

theorem channel_length_wraps:
  "channel_recv (snd (channel_send buf [])) =
     Inr (take (length buf mod 2 ^ 32) buf, drop (length buf mod 2 ^ 32) buf)"
proof -
  let ?n = "length buf mod 2 ^ 32"
  have hdr: "(of_nat (length buf) :: u32) = of_nat ?n"
    by (intro unsigned_word_eqI) (simp add: unsigned_of_nat take_bit_eq_mod)
  have "channel_recv (be_bytes 4 (of_nat ?n :: u32) @ take ?n buf @ drop ?n buf) =
      Inr (take ?n buf, drop ?n buf)"
    by (rule channel_recv_frame) (simp_all add: of_be_bytes_inverse unat_of_nat_u32)
  then show ?thesis
    by (simp add: channel_send_eq hdr)
qed

subsection \<open>The ZeroMQ channel\<close>

text \<open>\<^verbatim>\<open>lib/d_compression/zmq_channel.cpp\<close>. A socket is the messages in it; what a receive of the library
  yields is an argument: a message, or nothing when it would block.\<close>

record zmq_channel =
  is_sender :: bool
  zmq_socket :: "byte list list"

definition zmq_send :: "byte list \<Rightarrow> zmq_channel \<Rightarrow> nat \<times> zmq_channel" where
  "zmq_send buffer ch =
     (if \<not> is_sender ch then (0, ch)
      else (length buffer, ch\<lparr>zmq_socket := zmq_socket ch @ [buffer]\<rparr>))"

text \<open>The result is the buffer and whether \<^verbatim>\<open>ZMQ failed\<close> is reported: the optional size is compared with zero.\<close>

definition zmq_recv :: "byte list option \<Rightarrow> zmq_channel \<Rightarrow> byte list \<times> bool" where
  "zmq_recv msg ch =
     (if is_sender ch then ([], False)
      else let res = map_option length msg
           in (case msg of None \<Rightarrow> [] | Some m \<Rightarrow> m, res \<noteq> Some 0))"

text \<open>A receiving ZeroMQ channel reports a failure for every message but the empty one, although it
  returns the message.\<close>

theorem zmq_recv_reports_success:
  assumes "\<not> is_sender ch" "m \<noteq> []"
  shows "zmq_recv (Some m) ch = (m, True) \<and> zmq_recv (Some []) ch = ([], False)"
  using assms by (simp add: zmq_recv_def)

theorem zmq_recv_reports_success_witness:
  "zmq_recv (Some [1]) \<lparr>is_sender = False, zmq_socket = []\<rparr> = ([1], True)"
  using zmq_recv_reports_success [of "\<lparr>is_sender = False, zmq_socket = []\<rparr>" "[1]"] by simp

end
