(* ===== verification/Fp.thy ===== *)
theory Fp
  imports Complex_Main "HOL-Library.Log_Nat" Prelude
begin

text \<open>
  Floating point arithmetic as rounding on the rationals. A finite \<^verbatim>\<open>float\<close> or \<^verbatim>\<open>double\<close> is the
  rational number it denotes; an arithmetic operation is the exact operation followed by rounding
  to nearest, ties to even, with gradual underflow. Overflow to infinity is not modelled: the
  quantities computed here (probabilities, microsecond averages, gains) are far below the limit.
\<close>

definition rat_exp :: "rat \<Rightarrow> int" where
  "rat_exp x =
     (let (n, d) = quotient_of x; e = bitlen n - bitlen d
      in if 2 powi e \<le> x then e else e - 1)"

definition round_half_even :: "rat \<Rightarrow> int" where
  "round_half_even x =
     (let f = \<lfloor>x\<rfloor>; r = x - of_int f
      in if r < 1 / 2 then f else if 1 / 2 < r then f + 1 else if even f then f else f + 1)"

definition ulp :: "nat \<Rightarrow> int \<Rightarrow> rat \<Rightarrow> rat" where
  "ulp p q x = 2 powi (max (rat_exp \<bar>x\<bar> - (int p - 1)) q)"

definition fp_round :: "nat \<Rightarrow> int \<Rightarrow> rat \<Rightarrow> rat" where
  "fp_round p q x = (if x = 0 then 0 else of_int (round_half_even (x / ulp p q x)) * ulp p q x)"

definition float_of :: "rat \<Rightarrow> rat" where
  "float_of = fp_round 24 (- 149)"

definition double_of :: "rat \<Rightarrow> rat" where
  "double_of = fp_round 53 (- 1074)"

subsection \<open>The exponent of a positive rational\<close>

lemma powi_bitlen_bounds:
  assumes "0 < n"
  shows "2 powi (bitlen n - 1) \<le> (of_int n :: rat)" "(of_int n :: rat) < 2 powi bitlen n"
proof -
  have b: "2 ^ nat (bitlen n - 1) \<le> n" "n < 2 ^ nat (bitlen n)"
    using bitlen_bounds [OF assms] by auto
  have pos: "0 < bitlen n"
    using assms bitlen_nonneg [of n] by (simp add: bitlen_eq_zero_iff order.not_eq_order_implies_strict)
  have eq: "(2 :: rat) powi k = of_int (2 ^ nat k)" if "0 \<le> k" for k
    using that by (simp add: power_int_def)
  show "2 powi (bitlen n - 1) \<le> (of_int n :: rat)"
    using b(1) pos by (simp only: eq of_int_le_iff)
  show "(of_int n :: rat) < 2 powi bitlen n"
    using b(2) pos by (simp only: eq of_int_less_iff)
qed

lemma powi_less_imp_less: "(2 :: rat) powi k < 2 powi l \<Longrightarrow> k < l"
  using power_int_increasing [of l k "2 :: rat"] by (cases "k < l") auto

lemma rat_exp_bounds:
  assumes "0 < x"
  shows "2 powi rat_exp x \<le> x" "x < 2 powi (rat_exp x + 1)"
proof -
  obtain n d where q: "quotient_of x = (n, d)"
    by (cases "quotient_of x")
  then have d: "0 < d" and x: "x = of_int n / of_int d"
    by (simp_all add: quotient_of_denom_pos quotient_of_div)
  with assms have n: "0 < n"
    by (simp add: zero_less_divide_iff)
  define e where "e = bitlen n - bitlen d"
  have xd: "x * of_int d = of_int n"
    using d x by simp
  have "x * 2 powi (bitlen d - 1) \<le> x * of_int d"
    using powi_bitlen_bounds(1) [OF d] assms by simp
  also have "\<dots> < 2 powi bitlen n"
    using powi_bitlen_bounds(2) [OF n] xd by simp
  also have "\<dots> = 2 powi (e + 1) * 2 powi (bitlen d - 1)"
    by (simp add: e_def flip: power_int_add)
  finally have up: "x < 2 powi (e + 1)"
    by (simp add: zero_less_power_int)
  have "2 powi (e - 1) * 2 powi bitlen d = (2 :: rat) powi (bitlen n - 1)"
    by (simp add: e_def flip: power_int_add)
  also have "\<dots> \<le> x * of_int d"
    using powi_bitlen_bounds(1) [OF n] xd by simp
  also have "\<dots> \<le> x * 2 powi bitlen d"
    using powi_bitlen_bounds(2) [OF d] assms by simp
  finally have low: "2 powi (e - 1) \<le> x"
    by (simp add: zero_less_power_int)
  have "rat_exp x = (if 2 powi e \<le> x then e else e - 1)"
    by (simp add: rat_exp_def q e_def)
  with up low show "2 powi rat_exp x \<le> x" "x < 2 powi (rat_exp x + 1)"
    by auto
qed

lemma rat_exp_mono:
  assumes "0 < x" "x \<le> y"
  shows "rat_exp x \<le> rat_exp y"
proof -
  have "(2 :: rat) powi rat_exp x < 2 powi (rat_exp y + 1)"
    using rat_exp_bounds(1) [OF assms(1)] rat_exp_bounds(2) [of y] assms by linarith
  then have "rat_exp x < rat_exp y + 1"
    by (rule powi_less_imp_less)
  then show ?thesis by simp
qed

lemma rat_exp_less: "0 < x \<Longrightarrow> x < 2 powi k \<Longrightarrow> rat_exp x < k"
proof -
  assume "0 < x" "x < 2 powi k"
  then have "(2 :: rat) powi rat_exp x < 2 powi k"
    using rat_exp_bounds(1) [of x] by linarith
  then show ?thesis
    by (rule powi_less_imp_less)
qed

subsection \<open>Rounding to an integer\<close>

lemma round_half_even_of_int [simp]: "round_half_even (of_int n) = n"
  by (simp add: round_half_even_def)

lemma round_half_even_bounds:
  "x - 1 / 2 \<le> of_int (round_half_even x)" "of_int (round_half_even x) \<le> x + 1 / 2"
  by (auto simp: round_half_even_def Let_def) linarith+

lemma round_half_even_mono: "x \<le> y \<Longrightarrow> round_half_even x \<le> round_half_even y"
proof -
  assume le: "x \<le> y"
  then have fl: "\<lfloor>x\<rfloor> \<le> \<lfloor>y\<rfloor>"
    by (rule floor_mono)
  show ?thesis
  proof (cases "\<lfloor>x\<rfloor> = \<lfloor>y\<rfloor>")
    case True
    with le show ?thesis
      by (simp add: round_half_even_def Let_def)
  next
    case False
    with fl have "\<lfloor>x\<rfloor> + 1 \<le> \<lfloor>y\<rfloor>"
      by simp
    then show ?thesis
      by (simp add: round_half_even_def Let_def)
  qed
qed

lemma floor_minus_rat: "\<lfloor>- x\<rfloor> = (if x = of_int \<lfloor>x\<rfloor> then - \<lfloor>x\<rfloor> else - \<lfloor>x\<rfloor> - 1)" for x :: rat
proof (cases "x = of_int \<lfloor>x\<rfloor>")
  case True
  then show ?thesis
    by (metis floor_of_int of_int_minus)
next
  case False
  then have "of_int \<lfloor>x\<rfloor> < x" "x < of_int \<lfloor>x\<rfloor> + 1"
    using floor_correct [of x] by linarith+
  with False show ?thesis
    by (auto simp: floor_eq_iff)
qed

lemma round_half_even_minus: "round_half_even (- x) = - round_half_even x"
proof (cases "x = of_int \<lfloor>x\<rfloor>")
  case True
  then show ?thesis
    by (metis of_int_minus round_half_even_of_int)
next
  case False
  then show ?thesis
    by (auto simp: round_half_even_def Let_def floor_minus_rat)
qed

lemma round_half_even_le_int: "x \<le> of_int n \<Longrightarrow> round_half_even x \<le> n"
  using round_half_even_mono [of x "of_int n"] by simp

lemma round_half_even_ge_int: "of_int n \<le> x \<Longrightarrow> n \<le> round_half_even x"
  using round_half_even_mono [of "of_int n" x] by simp

subsection \<open>Rounding to a precision\<close>

lemma ulp_pos [simp]: "0 < ulp p q x"
  by (simp add: ulp_def zero_less_power_int)

lemma ulp_minus [simp]: "ulp p q (- x) = ulp p q x"
  by (simp add: ulp_def)

lemma fp_round_0 [simp]: "fp_round p q 0 = 0"
  by (simp add: fp_round_def)

lemma fp_round_minus: "fp_round p q (- x) = - fp_round p q x"
  by (simp add: fp_round_def round_half_even_minus)

lemma fp_round_nonneg: "0 \<le> x \<Longrightarrow> 0 \<le> fp_round p q x"
proof -
  assume "0 \<le> x"
  then have "0 \<le> round_half_even (x / ulp p q x)"
    by (intro round_half_even_ge_int) (simp add: less_imp_le)
  then show ?thesis
    by (simp add: fp_round_def less_imp_le)
qed

text \<open>The error is at most half a unit in the last place.\<close>

lemma fp_round_error: "\<bar>fp_round p q x - x\<bar> \<le> ulp p q x / 2"
proof (cases "x = 0")
  case False
  define u where "u = ulp p q x"
  have u: "0 < u"
    by (simp add: u_def)
  have "\<bar>of_int (round_half_even (x / u)) - x / u\<bar> \<le> 1 / 2"
    using round_half_even_bounds [of "x / u"] by linarith
  then have "\<bar>of_int (round_half_even (x / u)) - x / u\<bar> * u \<le> 1 / 2 * u"
    using u by (intro mult_right_mono) auto
  also have "\<bar>of_int (round_half_even (x / u)) - x / u\<bar> * u = \<bar>fp_round p q x - x\<bar>"
    using u False by (simp add: fp_round_def u_def [symmetric] abs_mult_pos [of u] left_diff_distrib)
  finally show ?thesis
    by (simp add: u_def)
qed (simp add: less_imp_le)

text \<open>Numbers with at most \<open>p\<close> significant bits above the least unit are kept.\<close>

definition representable :: "nat \<Rightarrow> int \<Rightarrow> rat \<Rightarrow> bool" where
  "representable p q x \<longleftrightarrow> (\<exists>m k. x = of_int m * 2 powi k \<and> \<bar>m\<bar> < 2 ^ p \<and> q \<le> k)"

lemma powi_diff_int: "k \<le> l \<Longrightarrow> (2 :: rat) powi l = of_int (2 ^ nat (l - k)) * 2 powi k"
proof -
  assume "k \<le> l"
  then have "(2 :: rat) powi l = 2 powi (l - k) * 2 powi k"
    by (simp flip: power_int_add)
  also have "(2 :: rat) powi (l - k) = of_int (2 ^ nat (l - k))"
    using \<open>k \<le> l\<close> by (simp add: power_int_def)
  finally show ?thesis .
qed

lemma fp_round_representable:
  assumes "representable p q x"
  shows "fp_round p q x = x"
proof (cases "x = 0")
  case False
  from assms obtain m k where x: "x = of_int m * 2 powi k" and m: "\<bar>m\<bar> < 2 ^ p" and k: "q \<le> k"
    by (auto simp: representable_def)
  have "\<bar>x\<bar> = of_int \<bar>m\<bar> * 2 powi k"
    by (simp add: x abs_mult power_int_abs)
  also have "\<dots> < of_int (2 ^ p) * 2 powi k"
    using m by (intro mult_strict_right_mono) (simp_all only: of_int_less_iff zero_less_power_int zero_less_numeral)
  also have "\<dots> = 2 powi (int p + k)"
    by (simp add: power_int_add)
  finally have "rat_exp \<bar>x\<bar> < int p + k"
    using False by (intro rat_exp_less) auto
  define l where "l = max (rat_exp \<bar>x\<bar> - (int p - 1)) q"
  have l: "l \<le> k"
    using \<open>rat_exp \<bar>x\<bar> < int p + k\<close> k by (simp add: l_def)
  have "ulp p q x = 2 powi l"
    by (simp add: ulp_def l_def)
  moreover have "x / 2 powi l = of_int (m * 2 ^ nat (k - l))"
    using powi_diff_int [OF l] by (simp add: x)
  ultimately have "fp_round p q x = of_int (m * 2 ^ nat (k - l)) * 2 powi l"
    using False by (simp only: fp_round_def round_half_even_of_int if_False)
  also have "\<dots> = x"
    using powi_diff_int [OF l] by (simp add: x)
  finally show ?thesis .
qed simp

lemma fp_round_mono_pos:
  assumes p: "0 < p" and xy: "0 < x" "x \<le> y"
  shows "fp_round p q x \<le> fp_round p q y"
proof -
  have y: "0 < y" using xy by simp
  define k where "k = max (rat_exp x - (int p - 1)) q"
  define l where "l = max (rat_exp y - (int p - 1)) q"
  have kl: "k \<le> l"
    using rat_exp_mono [OF xy] by (auto simp: k_def l_def)
  have ux: "ulp p q x = 2 powi k" and uy: "ulp p q y = 2 powi l"
    using xy y by (simp_all add: ulp_def k_def l_def)
  show ?thesis
  proof (cases "k = l")
    case True
    have "x / 2 powi l \<le> y / 2 powi l"
      using xy by (intro divide_right_mono) (simp_all add: less_imp_le zero_less_power_int)
    then have "round_half_even (x / 2 powi l) \<le> round_half_even (y / 2 powi l)"
      by (rule round_half_even_mono)
    then show ?thesis
      using xy y True by (simp add: fp_round_def ux uy less_imp_le zero_less_power_int)
  next
    case False
    define e where "e = rat_exp y"
    have l: "l = e - (int p - 1)" and lt: "rat_exp x < e"
      using False kl rat_exp_mono [OF xy] by (auto simp: k_def l_def e_def)
    have "(2 :: rat) powi (rat_exp x + 1) \<le> 2 powi e"
      using lt by (intro power_int_increasing) auto
    then have xe: "x \<le> 2 powi e"
      using rat_exp_bounds(2) [OF xy(1)] by linarith
    have ke: "k \<le> e" and le: "l \<le> e"
      using kl l p by auto
    have "round_half_even (x / 2 powi k) \<le> 2 ^ nat (e - k)"
      using xe powi_diff_int [OF ke]
      by (intro round_half_even_le_int) (simp add: pos_divide_le_eq zero_less_power_int)
    then have "(of_int (round_half_even (x / 2 powi k)) :: rat) \<le> of_int (2 ^ nat (e - k))"
      by (simp only: of_int_le_iff)
    then have "fp_round p q x \<le> of_int (2 ^ nat (e - k)) * 2 powi k"
      using xy by (simp add: fp_round_def ux mult_right_mono)
    also have "\<dots> = of_int (2 ^ nat (e - l)) * 2 powi l"
      using powi_diff_int [OF ke] powi_diff_int [OF le] by simp
    also have "\<dots> \<le> of_int (round_half_even (y / 2 powi l)) * 2 powi l"
    proof -
      have "2 ^ nat (e - l) \<le> round_half_even (y / 2 powi l)"
        using rat_exp_bounds(1) [OF y] powi_diff_int [OF le]
        by (intro round_half_even_ge_int) (simp add: pos_le_divide_eq zero_less_power_int e_def)
      then have "(of_int (2 ^ nat (e - l)) :: rat) \<le> of_int (round_half_even (y / 2 powi l))"
        by (simp only: of_int_le_iff)
      then show ?thesis
        by (intro mult_right_mono) (simp_all add: less_imp_le zero_less_power_int)
    qed
    also have "\<dots> = fp_round p q y"
      using y by (simp add: fp_round_def uy)
    finally show ?thesis .
  qed
qed

lemma fp_round_mono:
  assumes p: "0 < p" and xy: "x \<le> y"
  shows "fp_round p q x \<le> fp_round p q y"
proof (cases "0 < x")
  case True
  with p xy show ?thesis by (blast intro: fp_round_mono_pos)
next
  case nx: False
  show ?thesis
  proof (cases "y < 0")
    case True
    then have "fp_round p q (- y) \<le> fp_round p q (- x)"
      using p xy by (intro fp_round_mono_pos) auto
    then show ?thesis
      by (simp add: fp_round_minus)
  next
    case False
    then have "0 \<le> fp_round p q y"
      by (intro fp_round_nonneg) simp
    moreover have "0 \<le> fp_round p q (- x)"
      using nx by (intro fp_round_nonneg) simp
    ultimately show ?thesis
      by (simp add: fp_round_minus)
  qed
qed

text \<open>A rounded number is representable: rounding again changes nothing.\<close>

lemma round_half_even_abs_le: "\<bar>x\<bar> \<le> of_int n \<Longrightarrow> \<bar>round_half_even x\<bar> \<le> n"
  using round_half_even_le_int [of x n] round_half_even_ge_int [of "- n" x] by (simp add: abs_le_iff)

lemma representable_powi_le:
  assumes p: "0 < p" and m: "\<bar>m\<bar> \<le> 2 ^ p" and k: "q \<le> k"
  shows "representable p q (of_int m * 2 powi k)"
proof (cases "\<bar>m\<bar> = 2 ^ p")
  case False
  with m k show ?thesis
    unfolding representable_def by (intro exI [of _ m] exI [of _ k]) simp
next
  case True
  define s where "s = sgn m"
  have pw: "(2 :: int) ^ p = 2 * 2 ^ (p - 1)"
    using p by (cases p) simp_all
  have m: "m = s * (2 * 2 ^ (p - 1))"
    using sgn_mult_abs [of m] True unfolding s_def pw by simp
  have "\<bar>s\<bar> \<le> 1"
    by (simp add: s_def sgn_if)
  then have "\<bar>s * 2 ^ (p - 1)\<bar> < 2 ^ p"
    unfolding pw by (auto simp: abs_mult abs_le_iff)
  moreover have "(of_int m :: rat) * 2 powi k = of_int (s * 2 ^ (p - 1)) * 2 powi (k + 1)"
    by (simp add: m power_int_add)
  ultimately show ?thesis
    using k unfolding representable_def by (metis add.commute le_add1 order.trans zle_add1_eq_le less_le)
qed

lemma representable_fp_round:
  assumes "0 < p"
  shows "representable p q (fp_round p q x)"
proof (cases "x = 0")
  case True
  then show ?thesis
    by (auto simp: representable_def intro!: exI [of _ 0] exI [of _ q])
next
  case False
  define l where "l = max (rat_exp \<bar>x\<bar> - (int p - 1)) q"
  have u: "ulp p q x = 2 powi l"
    by (simp add: ulp_def l_def)
  have "\<bar>x\<bar> \<le> 2 powi (rat_exp \<bar>x\<bar> + 1)"
    using rat_exp_bounds(2) [of "\<bar>x\<bar>"] False by simp
  also have "\<dots> \<le> 2 powi (int p + l)"
    by (intro power_int_increasing) (auto simp: l_def)
  finally have "\<bar>x / 2 powi l\<bar> \<le> of_int (2 ^ p)"
    by (simp add: abs_divide power_int_abs pos_divide_le_eq zero_less_power_int power_int_add)
  then have "\<bar>round_half_even (x / 2 powi l)\<bar> \<le> 2 ^ p"
    by (rule round_half_even_abs_le)
  then show ?thesis
    using False assms by (simp add: fp_round_def u l_def representable_powi_le)
qed

lemma fp_round_idem: "0 < p \<Longrightarrow> fp_round p q (fp_round p q x) = fp_round p q x"
  by (simp add: fp_round_representable representable_fp_round)

lemma float_of_idem [simp]: "float_of (float_of x) = float_of x"
  and double_of_idem [simp]: "double_of (double_of x) = double_of x"
  by (simp_all add: float_of_def double_of_def fp_round_idem)

lemma float_of_0 [simp]: "float_of 0 = 0"
  by (simp add: float_of_def)

lemma float_of_minus: "float_of (- x) = - float_of x"
  by (simp add: float_of_def fp_round_minus)

lemmas float_of_mono = fp_round_mono [of 24 _ _ "- 149", folded float_of_def, simplified]
lemmas double_of_mono = fp_round_mono [of 53 _ _ "- 1074", folded double_of_def, simplified]

lemma representable_of_int: "\<bar>n\<bar> < 2 ^ p \<Longrightarrow> q \<le> 0 \<Longrightarrow> representable p q (of_int n)"
  unfolding representable_def by (rule exI [of _ n], rule exI [of _ 0]) simp

lemma double_of_int: "\<bar>n\<bar> < 2 ^ 53 \<Longrightarrow> double_of (of_int n) = of_int n"
  unfolding double_of_def
  by (intro fp_round_representable representable_of_int) simp_all

lemma float_of_int: "\<bar>n\<bar> < 2 ^ 24 \<Longrightarrow> float_of (of_int n) = of_int n"
  unfolding float_of_def
  by (intro fp_round_representable representable_of_int) simp_all

subsection \<open>Rounding error below one\<close>

lemma float_of_error_below_1:
  assumes "\<bar>x\<bar> < 1"
  shows "\<bar>float_of x - x\<bar> \<le> 1 / 2 ^ 25"
proof (cases "x = 0")
  case False
  then have "rat_exp \<bar>x\<bar> < 0"
    using assms by (intro rat_exp_less) auto
  then have "ulp 24 (- 149) x \<le> 2 powi (- 24)"
    unfolding ulp_def by (intro power_int_increasing) auto
  then show ?thesis
    using fp_round_error [of 24 "- 149" x] by (simp add: float_of_def power_int_minus)
qed simp

end
