(* ===== verification/Replay.thy ===== *)
theory Replay
  imports Fp "HOL-Library.Multiset" "HOL-Library.Product_Lexorder"
begin

text \<open>
  The two replay memories of \<^verbatim>\<open>lib/dqn\<close>: \<^verbatim>\<open>ExperienceReplay.cpp\<close>, a bounded first-in first-out
  buffer, and \<^verbatim>\<open>PrioritizedExperienceReplay.cpp\<close>, a bounded priority queue. Transitions are
  tuples of tensors; their type is a parameter.
\<close>

subsection \<open>The first-in first-out buffer\<close>

record 'e replay =
  er_capacity :: int
  er_buffer :: "'e list"

definition replay_new :: "int \<Rightarrow> 'e replay" where
  "replay_new sz = \<lparr>er_capacity = sz, er_buffer = []\<rparr>"

text \<open>The comparison with \<^verbatim>\<open>buffer.size()\<close> converts the signed capacity to \<^verbatim>\<open>size_t\<close>.\<close>

definition unsigned_capacity :: "int \<Rightarrow> nat" where
  "unsigned_capacity c = nat (c mod 2 ^ 64)"

text \<open>\<^verbatim>\<open>while (buffer.size() >= capacity) buffer.pop_front()\<close>; on an empty deque the pop is undefined.\<close>

fun pop_front_while :: "nat \<Rightarrow> 'e list \<Rightarrow> 'e list result" where
  "pop_front_while cap [] = (if cap = 0 then Inl Out_Of_Bounds else Inr [])"
| "pop_front_while cap (x # xs) =
     (if cap \<le> length (x # xs) then pop_front_while cap xs else Inr (x # xs))"

definition replay_push :: "'e \<Rightarrow> 'e replay \<Rightarrow> 'e replay result" where
  "replay_push sample er =
     (let cap = unsigned_capacity (er_capacity er)
      in if length (er_buffer er) < cap
         then Inr (er\<lparr>er_buffer := er_buffer er @ [sample]\<rparr>)
         else rbind (pop_front_while cap (er_buffer er))
                (\<lambda>buf. Inr (er\<lparr>er_buffer := buf @ [sample]\<rparr>)))"

definition replay_size :: "'e replay \<Rightarrow> nat" where
  "replay_size er = length (er_buffer er)"

text \<open>
  \<^verbatim>\<open>std::sample\<close> overwrites a prefix of a vector of \<open>batch_size\<close> default values with the elements
  at the drawn positions, in order; \<open>picked\<close> is the set of positions the generator draws.
\<close>

definition replay_sample :: "nat set \<Rightarrow> 'e \<Rightarrow> nat \<Rightarrow> 'e replay \<Rightarrow> 'e list" where
  "replay_sample picked dflt batch_size er =
     (let chosen = nths (er_buffer er) picked
      in chosen @ replicate (batch_size - length chosen) dflt)"

definition draws :: "nat set \<Rightarrow> nat \<Rightarrow> nat \<Rightarrow> bool" where
  "draws picked batch_size n \<longleftrightarrow> picked \<subseteq> {..<n} \<and> card picked = min batch_size n"

lemma pop_front_while_eq:
  "0 < cap \<Longrightarrow> pop_front_while cap xs = Inr (drop (length xs - (cap - 1)) xs)"
proof (induction cap xs rule: pop_front_while.induct)
  case (2 cap x xs)
  show ?case
  proof (cases "cap \<le> length (x # xs)")
    case True
    then have "length (x # xs) - (cap - 1) = Suc (length xs - (cap - 1))"
      using "2.prems" by auto
    with True 2 show ?thesis by simp
  next
    case False
    then show ?thesis by simp
  qed
qed simp

text \<open>With a positive capacity, a push keeps the latest \<open>cap\<close> elements.\<close>

lemma replay_push_eq:
  assumes "0 < unsigned_capacity (er_capacity er)"
    and "length (er_buffer er) \<le> unsigned_capacity (er_capacity er)"
  shows "replay_push s er = Inr (er\<lparr>er_buffer :=
     drop (length (er_buffer er) + 1 - unsigned_capacity (er_capacity er)) (er_buffer er @ [s])\<rparr>)"
  using assms by (auto simp: replay_push_def pop_front_while_eq Let_def)

primrec replay_run :: "'e list \<Rightarrow> 'e replay \<Rightarrow> 'e replay result" where
  "replay_run [] er = Inr er"
| "replay_run (s # ss) er = rbind (replay_push s er) (replay_run ss)"

lemma replay_run_eq:
  assumes "0 < unsigned_capacity c" "length xs \<le> unsigned_capacity c"
  shows "replay_run ss \<lparr>er_capacity = c, er_buffer = xs\<rparr>
     = Inr \<lparr>er_capacity = c,
            er_buffer = drop (length (xs @ ss) - unsigned_capacity c) (xs @ ss)\<rparr>"
  using assms(2)
proof (induction ss arbitrary: xs)
  case Nil
  then show ?case by simp
next
  case (Cons s ss)
  define n where "n = unsigned_capacity c"
  define ys where "ys = drop (length xs + 1 - n) (xs @ [s])"
  have n: "0 < n" "length xs \<le> n"
    using assms(1) Cons.prems by (simp_all add: n_def)
  have push: "replay_push s \<lparr>er_capacity = c, er_buffer = xs\<rparr>
      = Inr \<lparr>er_capacity = c, er_buffer = ys\<rparr>"
    using replay_push_eq [of "\<lparr>er_capacity = c, er_buffer = xs\<rparr>" s] n
    by (simp add: ys_def n_def)
  have ys: "length ys \<le> n"
    using n by (simp add: ys_def)
  have "drop (length (ys @ ss) - n) (ys @ ss) = drop (length (xs @ s # ss) - n) (xs @ s # ss)"
  proof (cases "length xs < n")
    case True
    then show ?thesis by (simp add: ys_def)
  next
    case False
    with n have "length xs = n" by simp
    then show ?thesis
      using n by (cases xs) (auto simp: ys_def Suc_diff_le)
  qed
  with Cons.IH [of ys] ys show ?case
    by (simp add: push n_def)
qed

lemma length_nths_draws:
  assumes "draws picked k (length xs)"
  shows "length (nths xs picked) = min k (length xs)"
proof -
  have "{i. i < length xs \<and> i \<in> picked} = picked"
    using assms by (auto simp: draws_def)
  then show ?thesis
    using assms by (simp add: length_nths draws_def)
qed

subsection \<open>The priority queue\<close>

record 'e element =
  td_error :: rat
  index :: int
  transition :: 'e

text \<open>\<^verbatim>\<open>operator<\<close>: by error, then by index.\<close>

definition element_less :: "'e element \<Rightarrow> 'e element \<Rightarrow> bool" where
  "element_less a b =
     (if td_error a \<noteq> td_error b then td_error a < td_error b else index a < index b)"

text \<open>
  \<^verbatim>\<open>std::priority_queue\<close>, as a list whose head is the greatest element. Elements that neither is
  less than the other stay in the order they came in.
\<close>

fun pq_push :: "'e element \<Rightarrow> 'e element list \<Rightarrow> 'e element list" where
  "pq_push x [] = [x]"
| "pq_push x (y # ys) = (if element_less y x then x # y # ys else y # pq_push x ys)"

record 'e prioritized =
  per_capacity :: int
  per_buffer :: "'e element list"

fun pq_pop_while :: "nat \<Rightarrow> 'e element list \<Rightarrow> 'e element list result" where
  "pq_pop_while cap [] = (if cap = 0 then Inl Out_Of_Bounds else Inr [])"
| "pq_pop_while cap (x # xs) =
     (if cap \<le> length (x # xs) then pq_pop_while cap xs else Inr (x # xs))"

definition per_push :: "'e \<Rightarrow> rat \<Rightarrow> int \<Rightarrow> 'e prioritized \<Rightarrow> 'e prioritized result" where
  "per_push sample td ind per =
     (let sample_struct = \<lparr>td_error = td, index = ind, transition = sample\<rparr>;
          cap = unsigned_capacity (per_capacity per)
      in if length (per_buffer per) < cap
         then Inr (per\<lparr>per_buffer := pq_push sample_struct (per_buffer per)\<rparr>)
         else rbind (pq_pop_while cap (per_buffer per))
                (\<lambda>buf. Inr (per\<lparr>per_buffer := pq_push sample_struct buf\<rparr>)))"

text \<open>
  \<^verbatim>\<open>sample_queue\<close>: the vector starts with \<open>batch_size\<close> default values and the samples are pushed
  behind them; the loop never changes \<open>batch_size\<close>, so it stops only when the queue is empty.
\<close>

fun drain_loop :: "int \<Rightarrow> 'e element list \<Rightarrow> 'e list \<Rightarrow> 'e list \<times> 'e element list" where
  "drain_loop batch_size [] b = (b, [])"
| "drain_loop batch_size (s # q) b =
     (if 0 < batch_size then drain_loop batch_size q (b @ [transition s]) else (b, s # q))"

definition per_sample_queue :: "'e \<Rightarrow> int \<Rightarrow> 'e prioritized \<Rightarrow> ('e list \<times> 'e prioritized) result" where
  "per_sample_queue dflt batch_size per =
     (if batch_size < 0 then Inl Length_Error
      else let (b, q) = drain_loop batch_size (per_buffer per) (replicate (nat batch_size) dflt)
           in Inr (b, per\<lparr>per_buffer := q\<rparr>))"

definition pq_key :: "'e element \<Rightarrow> rat \<times> int" where
  "pq_key x = (td_error x, index x)"

lemma element_less_iff: "element_less a b \<longleftrightarrow> pq_key a < pq_key b"
  by (auto simp: element_less_def pq_key_def less_prod_def')

definition pq_inv :: "'e element list \<Rightarrow> bool" where
  "pq_inv q \<longleftrightarrow> sorted_wrt (\<ge>) (map pq_key q)"

lemma mset_pq_push: "mset (pq_push x q) = add_mset x (mset q)"
  by (induction q) auto

lemma set_pq_push: "set (pq_push x q) = insert x (set q)"
  by (induction q) auto

lemma pq_inv_push: "pq_inv q \<Longrightarrow> pq_inv (pq_push x q)"
  by (induction q) (auto simp: pq_inv_def element_less_iff set_pq_push not_less)

lemma drain_loop_eq: "0 < n \<Longrightarrow> drain_loop n q b = (b @ map transition q, [])"
  by (induction n q b rule: drain_loop.induct) auto

lemma pq_pop_while_eq:
  "0 < cap \<Longrightarrow> pq_pop_while cap xs = Inr (drop (length xs - (cap - 1)) xs)"
proof (induction cap xs rule: pq_pop_while.induct)
  case (2 cap x xs)
  show ?case
  proof (cases "cap \<le> length (x # xs)")
    case True
    then have "length (x # xs) - (cap - 1) = Suc (length xs - (cap - 1))"
      using "2.prems" by auto
    with True 2 show ?thesis by simp
  next
    case False
    then show ?thesis by simp
  qed
qed simp

subsection \<open>Properties\<close>

text \<open>A replay buffer of positive capacity never fails and holds exactly the latest \<open>capacity\<close>
  transitions pushed, oldest first.\<close>

theorem replay_keeps_latest:
  assumes "0 < c" "c < 2 ^ 64"
  shows "replay_run ss (replay_new c) =
     Inr \<lparr>er_capacity = c, er_buffer = drop (length ss - nat c) ss\<rparr>"
  using replay_run_eq [of c "[]" ss] assms by (simp add: replay_new_def unsigned_capacity_def)

theorem replay_keeps_latest_witness:
  "replay_run [1, 2, 3 :: int] (replay_new 2) = Inr \<lparr>er_capacity = 2, er_buffer = [2, 3]\<rparr>"
  using replay_keeps_latest [of 2 "[1, 2, 3 :: int]"] by simp

text \<open>A sample of the replay buffer has \<open>batch_size\<close> entries: distinct positions of the buffer in
  order, then, when the buffer is smaller, default values.\<close>

theorem replay_sample_shape:
  assumes "draws picked n (replay_size er)"
  shows "length (replay_sample picked dflt n er) = n \<and>
         set (take (min n (replay_size er)) (replay_sample picked dflt n er)) \<subseteq> set (er_buffer er) \<and>
         drop (min n (replay_size er)) (replay_sample picked dflt n er) = replicate (n - replay_size er) dflt"
proof -
  have "length (nths (er_buffer er) picked) = min n (replay_size er)"
    using assms by (simp add: replay_size_def length_nths_draws)
  then show ?thesis
    using set_nths_subset [of "er_buffer er" picked] by (auto simp: replay_sample_def)
qed

theorem replay_sample_shape_witness:
  "length (replay_sample {0} 9 (3 :: nat) \<lparr>er_capacity = 5, er_buffer = [4 :: int]\<rparr>) = 3"
  using replay_sample_shape [of "{0}" 3 "\<lparr>er_capacity = 5, er_buffer = [4 :: int]\<rparr>" 9]
  by (simp add: draws_def replay_size_def)

text \<open>\<open>sample_queue\<close> of the prioritised memory ignores its batch size: it returns \<open>batch_size\<close> default
  values followed by the whole queue, and leaves the queue empty.\<close>

theorem prioritized_sample_drains:
  assumes "0 < n"
  shows "per_sample_queue dflt n per =
     Inr (replicate (nat n) dflt @ map transition (per_buffer per), per\<lparr>per_buffer := []\<rparr>)"
  using assms by (simp add: per_sample_queue_def drain_loop_eq)

theorem prioritized_sample_drains_witness:
  "per_sample_queue (0 :: int) 1
     \<lparr>per_capacity = 4, per_buffer = [\<lparr>td_error = 2, index = 0, transition = 8\<rparr>, \<lparr>td_error = 1, index = 1, transition = 7\<rparr>]\<rparr>
   = Inr ([0, 8, 7], \<lparr>per_capacity = 4, per_buffer = []\<rparr>)"
  using prioritized_sample_drains [of 1 "0 :: int"
      "\<lparr>per_capacity = 4, per_buffer = [\<lparr>td_error = 2, index = 0, transition = 8\<rparr>, \<lparr>td_error = 1, index = 1, transition = 7\<rparr>]\<rparr>"]
  by simp

text \<open>A push to a full prioritised memory discards the transition with the largest error, not the
  smallest; the queue stays ordered and within its capacity.\<close>

theorem prioritized_push_discards_best:
  assumes "pq_inv (best # q)" "per_capacity per = int (Suc (length q))" "Suc (length q) < 2 ^ 64"
    and "per_buffer per = best # q"
  shows "\<exists>per'. per_push smp td ind per = Inr per' \<and> pq_inv (per_buffer per') \<and>
           length (per_buffer per') = Suc (length q) \<and>
           mset (per_buffer per') = add_mset \<lparr>td_error = td, index = ind, transition = smp\<rparr> (mset q) \<and>
           (\<forall>x \<in> set q. pq_key x \<le> pq_key best)"
proof -
  let ?new = "\<lparr>td_error = td, index = ind, transition = smp\<rparr>"
  have cap: "unsigned_capacity (per_capacity per) = Suc (length q)"
    using assms(2,3) by (simp add: unsigned_capacity_def nat_mod_as_int)
  have "per_push smp td ind per = Inr (per\<lparr>per_buffer := pq_push ?new q\<rparr>)"
    using assms(4) cap by (simp add: per_push_def Let_def pq_pop_while_eq)
  moreover have "pq_inv q" "\<forall>x \<in> set q. pq_key x \<le> pq_key best"
    using assms(1) by (auto simp: pq_inv_def)
  moreover have "length (pq_push ?new q) = Suc (length q)"
    using arg_cong [OF mset_pq_push, of size ?new q] by simp
  ultimately show ?thesis
    by (simp add: pq_inv_push mset_pq_push)
qed

theorem prioritized_push_discards_best_witness:
  "\<exists>per'. per_push (5 :: int) 1 2
       \<lparr>per_capacity = 1, per_buffer = [\<lparr>td_error = 9, index = 0, transition = 8\<rparr>]\<rparr> = Inr per' \<and>
     mset (per_buffer per') = {# \<lparr>td_error = 1, index = 2, transition = 5\<rparr> #}"
  using prioritized_push_discards_best [of "\<lparr>td_error = 9, index = 0, transition = 8\<rparr>" "[]"
      "\<lparr>per_capacity = 1, per_buffer = [\<lparr>td_error = 9, index = 0, transition = 8\<rparr>]\<rparr>" "5 :: int" 1 2]
  by (auto simp: pq_inv_def)

end
