(* ===== verification/State_Machine.thy ===== *)
theory State_Machine
  imports Fp Iq_Conv
begin

text \<open>
  The epsilon-greedy selector of \<^verbatim>\<open>lib/d_compression/iq_state_machine.cpp\<close> (class
  \<^verbatim>\<open>iq_state_machine\<close> of \<^verbatim>\<open>include/d_compression/iq_state_machine.h\<close>). What the code takes from its
  environment is an argument: the two draws of \<^verbatim>\<open>rand()\<close>, and the order in which the hash map of
  totals is walked.
\<close>

type_synonym duration = int

record csv_row =
  row_episode :: int
  row_reward :: rat
  row_action :: compression_options
  row_epsilon :: rat

record iq_state_machine =
  valid_actions :: "compression_options list"
  current_state :: compression_options
  interval :: int
  old_duration :: duration
  epsilon :: rat
  epsilon_decay :: rat
  max_recall :: int
  memory :: "(compression_options \<times> duration) list"
  csv_file :: "csv_row list"
  episode :: int

definition iq_state_machine_init :: "int \<Rightarrow> iq_state_machine" where
  "iq_state_machine_init itv =
     \<lparr>valid_actions = [NONE, BFP, RLE, LZ77], current_state = NONE, interval = itv,
      old_duration = 0, epsilon = float_of (double_of (99 / 100)),
      epsilon_decay = float_of (double_of (1 / 1000)), max_recall = 200, memory = [],
      csv_file = [], episode = 0\<rparr>"

definition RAND_MAX :: int where
  "RAND_MAX = 2147483647"

definition DBL_MAX :: rat where
  "DBL_MAX = (2 - 1 / 2 ^ 52) * 2 ^ 1023"

subsection \<open>select_state\<close>

text \<open>\<^verbatim>\<open>m[k] += d\<close> on a hash map of numbers: a missing key starts at zero.\<close>

definition bump :: "('k \<rightharpoonup> int) \<Rightarrow> 'k \<Rightarrow> int \<Rightarrow> ('k \<rightharpoonup> int)" where
  "bump m k d = m(k \<mapsto> (case m k of None \<Rightarrow> d | Some v \<Rightarrow> v + d))"

text \<open>The first loop walks the memory from its end; its argument is the memory reversed.\<close>

fun recall_loop ::
  "int \<Rightarrow> int \<Rightarrow> (compression_options \<times> duration) list \<Rightarrow>
   (compression_options \<rightharpoonup> int) \<Rightarrow> (compression_options \<rightharpoonup> int) \<Rightarrow>
   (compression_options \<rightharpoonup> int) \<times> (compression_options \<rightharpoonup> int)" where
  "recall_loop max_rec memory_count [] totals counts = (totals, counts)"
| "recall_loop max_rec memory_count ((opt, dur) # rest) totals counts =
     (if memory_count < max_rec
      then recall_loop max_rec (memory_count + 1) rest (bump totals opt dur) (bump counts opt 1)
      else (totals, counts))"

definition average_duration ::
  "(compression_options \<rightharpoonup> int) \<Rightarrow> (compression_options \<rightharpoonup> int) \<Rightarrow> compression_options \<Rightarrow> rat" where
  "average_duration totals counts opt =
     double_of (double_of (of_int (the (totals opt)))
       / of_int (case counts opt of None \<Rightarrow> 0 | Some c \<Rightarrow> c))"

fun best_loop ::
  "(compression_options \<Rightarrow> rat) \<Rightarrow> compression_options list \<Rightarrow> compression_options \<Rightarrow> rat \<Rightarrow>
   compression_options" where
  "best_loop avg [] best_option min_average = best_option"
| "best_loop avg (opt # opts) best_option min_average =
     (if avg opt < min_average then best_loop avg opts opt (avg opt)
      else best_loop avg opts best_option min_average)"

definition select_state ::
  "duration \<Rightarrow> duration \<Rightarrow> compression_options list \<Rightarrow> nat \<Rightarrow> nat \<Rightarrow>
   iq_state_machine \<Rightarrow> compression_options \<times> iq_state_machine" where
  "select_state compression transmission order rand1 rand2 sm =
     (let (totals, counts) = recall_loop (max_recall sm) 0 (rev (memory sm)) Map.empty Map.empty;
          best_option = best_loop (average_duration totals counts) order NONE DBL_MAX;
          r = double_of (of_nat rand1 / of_int RAND_MAX);
          explore = (r \<le> epsilon sm);
          best_option' = (if explore
                          then valid_actions sm ! (rand2 mod length (valid_actions sm))
                          else best_option);
          sm1 = (if explore then sm\<lparr>epsilon := float_of (epsilon sm - epsilon_decay sm)\<rparr> else sm);
          sm2 = (if episode sm1 mod 100 = 0
                 then sm1\<lparr>csv_file := csv_file sm1 @
                        [\<lparr>row_episode = episode sm1,
                          row_reward = of_int (compression + transmission - old_duration sm1),
                          row_action = current_state sm1,
                          row_epsilon = float_of (epsilon sm1 * 1000)\<rparr>]\<rparr>
                 else sm1)
      in (best_option', sm2\<lparr>old_duration := compression + transmission, episode := episode sm2 + 1\<rparr>))"

definition sm_update ::
  "int \<Rightarrow> duration \<Rightarrow> duration \<Rightarrow> compression_options list \<Rightarrow> nat \<Rightarrow> nat \<Rightarrow>
   iq_state_machine \<Rightarrow> iq_state_machine result" where
  "sm_update frame_index current_compression current_transmission order rand1 rand2 sm =
     (if interval sm = 0 then Inl Division_By_Zero
      else if frame_index mod interval sm \<noteq> 0 then Inr sm
      else let sm1 = sm\<lparr>memory := memory sm
                          @ [(current_state sm, current_compression + current_transmission)]\<rparr>;
               (best, sm2) = select_state current_compression current_transmission order rand1 rand2 sm1
           in Inr (sm2\<lparr>current_state := best\<rparr>))"

definition get_current_state :: "iq_state_machine \<Rightarrow> compression_options" where
  "get_current_state sm = current_state sm"

subsection \<open>What the recall loop computes\<close>

text \<open>The window: the latest \<open>max_recall\<close> measurements, latest first.\<close>

definition window :: "iq_state_machine \<Rightarrow> (compression_options \<times> duration) list" where
  "window sm = take (nat (max_recall sm)) (rev (memory sm))"

definition durations_of :: "compression_options \<Rightarrow> (compression_options \<times> duration) list \<Rightarrow> duration list" where
  "durations_of opt ms = map snd (filter (\<lambda>m. fst m = opt) ms)"

lemma recall_loop_take:
  "recall_loop mr mc ms t c = recall_loop mr mc (take (nat (mr - mc)) ms) t c"
proof (induction mr mc ms t c rule: recall_loop.induct)
  case (2 mr mc opt dur rest t c)
  show ?case
  proof (cases "mc < mr")
    case True
    then have "nat (mr - mc) = Suc (nat (mr - (mc + 1)))"
      by simp
    with 2 True show ?thesis by simp
  qed simp
qed simp

lemma recall_loop_totals:
  "int (length ms) + mc \<le> mr \<Longrightarrow>
     fst (recall_loop mr mc ms t c) opt =
       (if durations_of opt ms = [] then t opt
        else Some ((case t opt of None \<Rightarrow> 0 | Some v \<Rightarrow> v) + sum_list (durations_of opt ms)))"
proof (induction ms arbitrary: mc t c)
  case Nil
  then show ?case by (simp add: durations_of_def)
next
  case (Cons m ms)
  then show ?case
    by (cases m) (auto simp: durations_of_def bump_def split: option.splits)
qed

lemma recall_loop_counts:
  "int (length ms) + mc \<le> mr \<Longrightarrow>
     snd (recall_loop mr mc ms t c) opt =
       (if durations_of opt ms = [] then c opt
        else Some ((case c opt of None \<Rightarrow> 0 | Some v \<Rightarrow> v) + int (length (durations_of opt ms))))"
proof (induction ms arbitrary: mc t c)
  case Nil
  then show ?case by (simp add: durations_of_def)
next
  case (Cons m ms)
  then show ?case
    by (cases m) (auto simp: durations_of_def bump_def split: option.splits)
qed

text \<open>The average the selector is meant to compare: mean duration over the window.\<close>

definition mean_duration :: "iq_state_machine \<Rightarrow> compression_options \<Rightarrow> rat" where
  "mean_duration sm opt =
     (let ds = durations_of opt (window sm)
      in double_of (double_of (of_int (sum_list ds)) / of_nat (length ds)))"

definition tried :: "iq_state_machine \<Rightarrow> compression_options set" where
  "tried sm = {opt. durations_of opt (window sm) \<noteq> []}"

lemma recall_window:
  assumes "0 \<le> max_recall sm"
  shows "recall_loop (max_recall sm) 0 (rev (memory sm)) Map.empty Map.empty =
    (\<lambda>opt. let ds = durations_of opt (window sm) in if ds = [] then None else Some (sum_list ds),
     \<lambda>opt. let ds = durations_of opt (window sm) in if ds = [] then None else Some (int (length ds)))"
proof -
  have eq: "recall_loop (max_recall sm) 0 (rev (memory sm)) Map.empty Map.empty
      = recall_loop (max_recall sm) 0 (window sm) Map.empty Map.empty"
    by (subst recall_loop_take) (simp add: window_def)
  have "int (length (window sm)) + 0 \<le> max_recall sm"
    using assms by (simp add: window_def)
  then show ?thesis
    unfolding eq
    by (intro prod_eqI ext) (simp_all add: recall_loop_totals recall_loop_counts Let_def)
qed

lemma average_duration_window:
  assumes "0 \<le> max_recall sm" "opt \<in> tried sm"
    and "recall_loop (max_recall sm) 0 (rev (memory sm)) Map.empty Map.empty = (totals, counts)"
  shows "average_duration totals counts opt = mean_duration sm opt"
  using assms by (auto simp: recall_window average_duration_def mean_duration_def tried_def Let_def)

subsection \<open>The second loop takes a minimum\<close>

lemma best_loop_least:
  "opt \<in> set opts \<Longrightarrow> avg opt < m \<Longrightarrow>
     best_loop avg opts b m \<in> set opts \<and> avg (best_loop avg opts b m) \<le> avg opt"
proof (induction opts arbitrary: b m)
  case Nil
  then show ?case by simp
next
  case (Cons x xs)
  have upper: "avg (best_loop avg ys y (avg y)) \<le> avg y" for ys y
    by (induction ys arbitrary: y) (auto, metis order.trans less_imp_le)
  have member: "best_loop avg ys y (avg y) = y \<or> best_loop avg ys y (avg y) \<in> set ys" for ys y
    by (induction ys arbitrary: y) auto
  show ?case
  proof (cases "avg x < m")
    case True
    show ?thesis
    proof (cases "opt = x \<or> avg x \<le> avg opt")
      case True
      with \<open>avg x < m\<close> upper [of xs x] member [of xs x] show ?thesis
        by auto
    next
      case False
      with Cons.prems Cons.IH [of "avg x" x] \<open>avg x < m\<close> show ?thesis
        by auto
    qed
  next
    case False
    with Cons.prems have "opt \<in> set xs"
      by auto
    with Cons False show ?thesis
      by auto
  qed
qed

subsection \<open>Greedy choice\<close>

definition explores :: "nat \<Rightarrow> iq_state_machine \<Rightarrow> bool" where
  "explores rand1 sm \<longleftrightarrow> double_of (of_nat rand1 / of_int RAND_MAX) \<le> epsilon sm"

text \<open>An order a hash map with the tried options as keys can be walked in.\<close>

definition walks :: "compression_options list \<Rightarrow> iq_state_machine \<Rightarrow> bool" where
  "walks order sm \<longleftrightarrow> distinct order \<and> set order = tried sm"

lemma fst_select_state:
  "fst (select_state c t order r1 r2 sm) =
     (if explores r1 sm then valid_actions sm ! (r2 mod length (valid_actions sm))
      else let (totals, counts) = recall_loop (max_recall sm) 0 (rev (memory sm)) Map.empty Map.empty
           in best_loop (average_duration totals counts) order NONE DBL_MAX)"
  by (simp add: select_state_def explores_def Let_def split: prod.splits)

lemma best_loop_cong:
  "(\<And>x. x \<in> set opts \<Longrightarrow> avg x = avg' x) \<Longrightarrow> best_loop avg opts b m = best_loop avg' opts b m"
  by (induction opts arbitrary: b m) auto

lemma select_state_greedy_eq:
  assumes "0 \<le> max_recall sm" "walks order sm" "\<not> explores r1 sm"
  shows "fst (select_state c t order r1 r2 sm) = best_loop (mean_duration sm) order NONE DBL_MAX"
proof -
  obtain totals counts where
    rc: "recall_loop (max_recall sm) 0 (rev (memory sm)) Map.empty Map.empty = (totals, counts)"
    by (cases "recall_loop (max_recall sm) 0 (rev (memory sm)) Map.empty Map.empty")
  have "best_loop (average_duration totals counts) order NONE DBL_MAX
      = best_loop (mean_duration sm) order NONE DBL_MAX"
    using assms(1,2) rc by (intro best_loop_cong) (simp add: average_duration_window walks_def)
  with assms(3) rc show ?thesis
    by (simp add: fst_select_state)
qed

lemma select_state_greedy:
  assumes "0 \<le> max_recall sm" "walks order sm" "\<not> explores r1 sm"
    and "opt \<in> tried sm" "mean_duration sm opt < DBL_MAX"
  shows "fst (select_state c t order r1 r2 sm) \<in> tried sm
       \<and> mean_duration sm (fst (select_state c t order r1 r2 sm)) \<le> mean_duration sm opt"
  using best_loop_least [of opt order "mean_duration sm" DBL_MAX NONE] assms
  by (simp add: select_state_greedy_eq walks_def)

subsection \<open>The state the selector keeps\<close>

lemma select_state_frame:
  "valid_actions (snd (select_state c t order r1 r2 sm)) = valid_actions sm"
  "current_state (snd (select_state c t order r1 r2 sm)) = current_state sm"
  "interval (snd (select_state c t order r1 r2 sm)) = interval sm"
  "epsilon_decay (snd (select_state c t order r1 r2 sm)) = epsilon_decay sm"
  "max_recall (snd (select_state c t order r1 r2 sm)) = max_recall sm"
  "memory (snd (select_state c t order r1 r2 sm)) = memory sm"
  "episode (snd (select_state c t order r1 r2 sm)) = episode sm + 1"
  "old_duration (snd (select_state c t order r1 r2 sm)) = c + t"
  "epsilon (snd (select_state c t order r1 r2 sm)) =
     (if explores r1 sm then float_of (epsilon sm - epsilon_decay sm) else epsilon sm)"
  by (simp_all add: select_state_def explores_def Let_def split: prod.splits)

text \<open>
  The invariant: epsilon stays a single-precision number between the decay's negative and its
  start value, one measurement is remembered per episode, and the options are the four of the
  source.
\<close>

definition EPSILON_START :: rat where
  "EPSILON_START = float_of (double_of (99 / 100))"

definition EPSILON_DECAY :: rat where
  "EPSILON_DECAY = float_of (double_of (1 / 1000))"

definition sm_inv :: "iq_state_machine \<Rightarrow> bool" where
  "sm_inv sm \<longleftrightarrow>
     valid_actions sm = [NONE, BFP, RLE, LZ77] \<and> max_recall sm = 200
     \<and> epsilon_decay sm = EPSILON_DECAY
     \<and> - EPSILON_DECAY \<le> epsilon sm \<and> epsilon sm \<le> EPSILON_START
     \<and> float_of (epsilon sm) = epsilon sm
     \<and> episode sm = int (length (memory sm))"

lemma EPSILON_START_float [simp]: "float_of EPSILON_START = EPSILON_START"
  and EPSILON_DECAY_float [simp]: "float_of EPSILON_DECAY = EPSILON_DECAY"
  by (simp_all add: EPSILON_START_def EPSILON_DECAY_def)

lemma EPSILON_nonneg: "0 \<le> EPSILON_START" "0 \<le> EPSILON_DECAY"
  unfolding EPSILON_START_def EPSILON_DECAY_def float_of_def double_of_def
  by (intro fp_round_nonneg; simp)+

lemma sm_inv_init: "sm_inv (iq_state_machine_init itv)"
  using EPSILON_nonneg
  by (simp add: sm_inv_def iq_state_machine_init_def flip: EPSILON_START_def EPSILON_DECAY_def)

text \<open>A draw is not negative, so exploring needs a non-negative epsilon.\<close>

lemma explores_nonneg: "explores r1 sm \<Longrightarrow> 0 \<le> epsilon sm"
proof -
  assume ex: "explores r1 sm"
  have "0 \<le> double_of (of_nat r1 / of_int RAND_MAX)"
    unfolding double_of_def by (intro fp_round_nonneg) (simp add: RAND_MAX_def)
  with ex show ?thesis
    by (simp add: explores_def)
qed

lemma epsilon_step_bounds:
  assumes "0 \<le> e" "e \<le> EPSILON_START" "float_of e = e"
  shows "- EPSILON_DECAY \<le> float_of (e - EPSILON_DECAY)"
    and "float_of (e - EPSILON_DECAY) \<le> e"
proof -
  have "float_of (- EPSILON_DECAY) \<le> float_of (e - EPSILON_DECAY)"
    using assms by (intro float_of_mono) simp
  then show "- EPSILON_DECAY \<le> float_of (e - EPSILON_DECAY)"
    by (simp add: float_of_minus)
  have "float_of (e - EPSILON_DECAY) \<le> float_of e"
    using EPSILON_nonneg by (intro float_of_mono) simp
  then show "float_of (e - EPSILON_DECAY) \<le> e"
    using assms by simp
qed

lemma sm_update_cases:
  assumes "sm_update i c t order r1 r2 sm = Inr sm'"
  obtains "sm' = sm" "i mod interval sm \<noteq> 0"
  | sm1 where "i mod interval sm = 0"
      "sm1 = sm\<lparr>memory := memory sm @ [(current_state sm, c + t)]\<rparr>"
      "sm' = (snd (select_state c t order r1 r2 sm1))
         \<lparr>current_state := fst (select_state c t order r1 r2 sm1)\<rparr>"
  using assms by (auto simp: sm_update_def Let_def split: if_splits prod.splits)

lemma sm_inv_update:
  assumes inv: "sm_inv sm" and upd: "sm_update i c t order r1 r2 sm = Inr sm'"
  shows "sm_inv sm'" and "epsilon sm' \<le> epsilon sm"
proof -
  have "sm_inv sm' \<and> epsilon sm' \<le> epsilon sm"
    using upd
  proof (cases rule: sm_update_cases)
    case (2 sm1)
    have ex: "explores r1 sm1 = explores r1 sm"
      by (simp add: 2 explores_def)
    show ?thesis
    proof (cases "explores r1 sm")
      case True
      with inv have "0 \<le> epsilon sm" "epsilon sm \<le> EPSILON_START" "float_of (epsilon sm) = epsilon sm"
        by (simp_all add: explores_nonneg sm_inv_def)
      from epsilon_step_bounds [OF this] inv True ex show ?thesis
        by (auto simp: 2 sm_inv_def select_state_frame)
    next
      case False
      with inv ex show ?thesis
        by (auto simp: 2 sm_inv_def select_state_frame)
    qed
  qed (use inv in simp)
  then show "sm_inv sm'" and "epsilon sm' \<le> epsilon sm"
    by auto
qed

text \<open>The chosen option is always one of the four.\<close>

lemma sm_update_remembers:
  assumes "sm_update i c t order r1 r2 sm = Inr sm'" "i mod interval sm = 0"
  shows "memory sm' = memory sm @ [(current_state sm, c + t)]"
  using assms by (cases rule: sm_update_cases) (auto simp: select_state_frame)

text \<open>Once epsilon is negative, the selector never explores again.\<close>

lemma no_exploration_after:
  assumes "sm_inv sm" "epsilon sm < 0" "sm_update i c t order r1 r2 sm = Inr sm'"
  shows "epsilon sm' < 0" "\<not> explores r sm'"
  using sm_inv_update(2) [OF assms(1,3)] assms(2) explores_nonneg [of r sm'] by auto

subsection \<open>How much an exploration costs\<close>

lemma EPSILON_values: "EPSILON_START = 8304722 / 8388608" "EPSILON_DECAY = 8589935 / 8589934592"
  unfolding EPSILON_START_def EPSILON_DECAY_def by code_simp+

lemma epsilon_step_decreases:
  assumes "0 \<le> e" "e \<le> EPSILON_START"
  shows "float_of (e - EPSILON_DECAY) \<le> e - (EPSILON_DECAY - 1 / 2 ^ 25)"
proof -
  have "\<bar>e - EPSILON_DECAY\<bar> < 1"
    using assms by (simp add: EPSILON_values abs_less_iff)
  from abs_le_D1 [OF float_of_error_below_1 [OF this]] show ?thesis
    by linarith
qed

lemma sm_update_epsilon:
  assumes "sm_update i c t order r1 r2 sm = Inr sm'"
  shows "epsilon sm' = (if i mod interval sm = 0 \<and> explores r1 sm
           then float_of (epsilon sm - epsilon_decay sm) else epsilon sm)"
  using assms by (rule sm_update_cases) (auto simp: select_state_frame explores_def)

subsection \<open>Properties\<close>

text \<open>C29. Outside exploration the selector returns a tried option, and none of the options tried in the
  last \<open>max_recall\<close> measurements has a smaller mean duration there.\<close>

theorem greedy_choice_is_best:
  assumes "0 \<le> max_recall sm" "walks order sm" "\<not> explores rand1 sm"
    and "opt \<in> tried sm" "mean_duration sm opt < DBL_MAX"
  shows "fst (select_state c t order rand1 rand2 sm) \<in> tried sm
       \<and> mean_duration sm (fst (select_state c t order rand1 rand2 sm)) \<le> mean_duration sm opt"
  using assms by (rule select_state_greedy)

definition example_machine :: iq_state_machine where
  "example_machine = (iq_state_machine_init 1)\<lparr>memory := [(NONE, 90), (BFP, 20), (BFP, 40)]\<rparr>"

lemma example_machine_tried: "tried example_machine = {NONE, BFP}"
proof -
  have "opt \<in> tried example_machine \<longleftrightarrow> opt = NONE \<or> opt = BFP" for opt
    by (cases opt) (simp_all add: tried_def durations_of_def window_def example_machine_def
        iq_state_machine_init_def)
  then show ?thesis
    by auto
qed

lemma example_machine_draw: "\<not> explores 2147483647 example_machine"
proof -
  have "double_of 1 = 1"
    using double_of_int [of 1] by simp
  then show ?thesis
    by (simp add: explores_def RAND_MAX_def example_machine_def iq_state_machine_init_def
        EPSILON_values(1) [unfolded EPSILON_START_def])
qed

lemma example_machine_mean: "mean_duration example_machine NONE = 90"
  unfolding example_machine_def by code_simp

theorem greedy_choice_is_best_witness:
  "mean_duration example_machine (fst (select_state 1 1 [BFP, NONE] 2147483647 0 example_machine)) \<le> 90"
  using greedy_choice_is_best [of example_machine "[BFP, NONE]" 2147483647 NONE 1 1 0]
    example_machine_tried example_machine_draw
  by (simp add: example_machine_mean walks_def DBL_MAX_def insert_commute)
     (simp add: example_machine_def iq_state_machine_init_def)

end
