(* ===== verification/Trainer.thy ===== *)
theory Trainer
  imports Replay State_Machine
begin

text \<open>
  The deep Q-learning selector: \<^verbatim>\<open>include/dqn/dqn.h\<close> (\<^verbatim>\<open>struct DQN\<close>) and \<^verbatim>\<open>lib/dqn/Trainer.cpp\<close>
  (class \<^verbatim>\<open>Trainer\<close> of \<^verbatim>\<open>include/dqn/Trainer.h\<close>). libtorch is not part of the sources: what a linear
  layer computes, what an optimiser step makes of a layer and the C library's \<^verbatim>\<open>exp\<close> are fields of
  a record. A libtorch module keeps a registry of its parameters; \<^verbatim>\<open>parameters()\<close>,
  \<^verbatim>\<open>named_parameters()\<close> and hence the optimiser see the registered ones only.
\<close>

record 'l torch =
  apply_linear :: "'l \<Rightarrow> rat list \<Rightarrow> rat list"
  adam_step :: "rat list \<Rightarrow> rat list \<Rightarrow> string \<Rightarrow> 'l \<Rightarrow> 'l"
  c_exp :: "rat \<Rightarrow> rat"

subsection \<open>The network\<close>

record 'l dqn =
  layers :: "string \<rightharpoonup> 'l"
  named_parameters :: "string list"
  named_buffers :: "string list"

text \<open>The constructor creates the four layers; it does not call \<^verbatim>\<open>register_module\<close>.\<close>

definition dqn_new :: "'l \<Rightarrow> 'l \<Rightarrow> 'l \<Rightarrow> 'l \<Rightarrow> 'l dqn" where
  "dqn_new l1 l2 l3 out =
     \<lparr>layers = [''linear1'' \<mapsto> l1, ''linear2'' \<mapsto> l2, ''linear3'' \<mapsto> l3, ''output'' \<mapsto> out],
      named_parameters = [], named_buffers = []\<rparr>"

definition relu :: "rat list \<Rightarrow> rat list" where
  "relu = map (max 0)"

definition layer :: "'l torch \<Rightarrow> 'l dqn \<Rightarrow> string \<Rightarrow> rat list \<Rightarrow> rat list" where
  "layer t d n x = apply_linear t (the (layers d n)) x"

definition dqn_forward :: "'l torch \<Rightarrow> 'l dqn \<Rightarrow> rat list \<Rightarrow> rat list" where
  "dqn_forward t d x =
     layer t d ''output'' (relu (layer t d ''linear3''
       (relu (layer t d ''linear2'' (relu (layer t d ''linear1'' x))))))"

text \<open>\<^verbatim>\<open>max(1)\<close>: the position of the first greatest entry.\<close>

fun argmax_from :: "nat \<Rightarrow> nat \<Rightarrow> rat \<Rightarrow> rat list \<Rightarrow> nat" where
  "argmax_from i best m [] = best"
| "argmax_from i best m (x # xs) =
     (if m < x then argmax_from (Suc i) i x xs else argmax_from (Suc i) best m xs)"

definition argmax :: "rat list \<Rightarrow> nat" where
  "argmax xs = (case xs of [] \<Rightarrow> 0 | x # ys \<Rightarrow> argmax_from 1 0 x ys)"

definition dqn_act :: "'l torch \<Rightarrow> 'l dqn \<Rightarrow> rat list \<Rightarrow> nat" where
  "dqn_act t d st = argmax (dqn_forward t d st)"

subsection \<open>The trainer\<close>

record transition =
  tr_state :: "rat list"
  tr_new_state :: "rat list"
  tr_action :: nat
  tr_reward :: rat
  tr_done :: bool

record 'l trainer =
  buffer :: "transition replay"
  network :: "'l dqn"
  target_network :: "'l dqn"
  episode_reward :: rat
  last_duration :: rat
  train_episode :: int
  action :: compression_options
  state_tensor :: "rat list"
  train_csv :: "csv_row list"

definition epsilon_start :: rat where "epsilon_start = 1"
definition epsilon_final :: rat where "epsilon_final = double_of (1 / 100)"
definition train_epsilon_decay :: int where "train_epsilon_decay = 30000"
definition batch_size :: nat where "batch_size = 32"
definition gamma :: rat where "gamma = float_of (double_of (99 / 100))"

definition legal_actions :: "compression_options list" where
  "legal_actions = [NONE, BFP, LZ77, RLE]"

text \<open>The value of an enumerator of \<^verbatim>\<open>compression_options\<close>, as \<^verbatim>\<open>torch::tensor(a)\<close> stores it.\<close>

definition enum_value :: "compression_options \<Rightarrow> nat" where
  "enum_value opt = (case opt of NONE \<Rightarrow> 0 | BFP \<Rightarrow> 1 | RLE \<Rightarrow> 2 | LZ77 \<Rightarrow> 3)"

definition trainer_new :: "'l dqn \<Rightarrow> 'l dqn \<Rightarrow> 'l trainer" where
  "trainer_new net target =
     \<lparr>buffer = replay_new 3000, network = net, target_network = target, episode_reward = 0,
      last_duration = 0, train_episode = 0, action = NONE, state_tensor = [0, 0, 0], train_csv = []\<rparr>"

text \<open>
  The learning step: the batch's Q-values at the stored actions, the target network's values at
  the actions the online network prefers, and one optimiser step over the registered parameters.
  A batch with default (undefined) tensors makes libtorch throw.
\<close>

definition q_value :: "'l torch \<Rightarrow> 'l dqn \<Rightarrow> transition \<Rightarrow> rat" where
  "q_value t net s = dqn_forward t net (tr_state s) ! tr_action s"

definition expected_q_value :: "'l torch \<Rightarrow> 'l dqn \<Rightarrow> 'l dqn \<Rightarrow> transition \<Rightarrow> rat" where
  "expected_q_value t net target s =
     (let maximum = argmax (dqn_forward t net (tr_new_state s));
          next_q_value = dqn_forward t target (tr_new_state s) ! maximum
      in float_of (tr_reward s
           + float_of (float_of (gamma * next_q_value) * (1 - (if tr_done s then 1 else 0)))))"

definition optimiser_step :: "'l torch \<Rightarrow> rat list \<Rightarrow> rat list \<Rightarrow> 'l dqn \<Rightarrow> 'l dqn" where
  "optimiser_step t qs es d =
     d\<lparr>layers := (\<lambda>n. if n \<in> set (named_parameters d) then map_option (adam_step t qs es n) (layers d n)
                      else layers d n)\<rparr>"

definition compute_td_loss :: "'l torch \<Rightarrow> nat set \<Rightarrow> 'l trainer \<Rightarrow> 'l trainer result" where
  "compute_td_loss t picked tr =
     (let batch = nths (er_buffer (buffer tr)) picked
      in if length batch < batch_size then Inl Invalid_Argument
         else Inr (tr\<lparr>network := optimiser_step t
                  (map (q_value t (network tr)) batch)
                  (map (expected_q_value t (network tr) (target_network tr)) batch)
                  (network tr)\<rparr>))"

definition epsilon_by_frame :: "'l torch \<Rightarrow> int \<Rightarrow> rat" where
  "epsilon_by_frame t frame_id =
     double_of (epsilon_final
       + double_of (double_of (epsilon_start - epsilon_final)
           * c_exp t (double_of (double_of (of_int (- frame_id)) / of_int train_epsilon_decay))))"

text \<open>
  \<^verbatim>\<open>loadstatedict(model, target_model)\<close>: every parameter of \<open>target_model\<close> is copied into the
  parameter, or else the buffer, of the same name of \<open>model\<close>.
\<close>

fun load_loop :: "'l dqn \<Rightarrow> string list \<Rightarrow> 'l dqn \<Rightarrow> 'l dqn" where
  "load_loop target [] model = model"
| "load_loop target (name # names) model =
     load_loop target names
       (if name \<in> set (named_parameters model) \<or> name \<in> set (named_buffers model)
        then model\<lparr>layers := (layers model)(name := layers target name)\<rparr> else model)"

definition loadstatedict :: "'l dqn \<Rightarrow> 'l dqn \<Rightarrow> 'l dqn" where
  "loadstatedict model target_model = load_loop target_model (named_parameters target_model) model"

definition choose_action :: "'l torch \<Rightarrow> 'l dqn \<Rightarrow> rat list \<Rightarrow> rat \<Rightarrow> nat \<Rightarrow> nat \<Rightarrow> compression_options result" where
  "choose_action t net st eps rand1 rand2 =
     (let r = double_of (of_nat rand1 / of_int RAND_MAX)
      in if r \<le> eps then Inr (legal_actions ! (rand2 mod length legal_actions))
         else let index = dqn_act t net st
              in if index < length legal_actions then Inr (legal_actions ! index) else Inl Out_Of_Bounds)"

definition train_log :: "'l torch \<Rightarrow> rat \<Rightarrow> 'l trainer \<Rightarrow> 'l trainer" where
  "train_log t reward tr =
     (if train_episode tr mod 100 = 0
      then tr\<lparr>train_csv := train_csv tr @
             [\<lparr>row_episode = train_episode tr, row_reward = reward, row_action = action tr,
               row_epsilon = double_of (epsilon_by_frame t (train_episode tr) * 1000)\<rparr>]\<rparr>
      else tr)"

definition train_learn :: "'l torch \<Rightarrow> nat set \<Rightarrow> 'l trainer \<Rightarrow> 'l trainer result" where
  "train_learn t picked tr =
     (if train_episode tr mod 1000 = 0
      then rbind (compute_td_loss t picked tr)
             (\<lambda>tr'. Inr (tr'\<lparr>network := loadstatedict (network tr') (target_network tr'),
                            episode_reward := 0\<rparr>))
      else Inr tr)"

definition train ::
  "'l torch \<Rightarrow> rat \<Rightarrow> rat \<Rightarrow> rat \<Rightarrow> bool \<Rightarrow> nat \<Rightarrow> nat \<Rightarrow> nat set \<Rightarrow> 'l trainer \<Rightarrow> 'l trainer result" where
  "train t entropy packet_size dur is_done rand1 rand2 picked tr =
     (let reward = float_of (last_duration tr - dur);
          new_state = [entropy, packet_size, dur];
          tr1 = tr\<lparr>last_duration := dur, episode_reward := float_of (episode_reward tr + reward),
                   train_episode := train_episode tr + 1\<rparr>;
          eps = epsilon_by_frame t (train_episode tr1)
      in rbind (choose_action t (network tr1) new_state eps rand1 rand2) (\<lambda>a.
         rbind (replay_push \<lparr>tr_state = state_tensor tr1, tr_new_state = new_state,
                  tr_action = enum_value a, tr_reward = reward, tr_done = is_done\<rparr> (buffer tr1)) (\<lambda>buf.
         train_learn t picked
           (train_log t reward (tr1\<lparr>action := a, buffer := buf, state_tensor := new_state\<rparr>)))))"

definition trainer_get_current_state :: "'l trainer \<Rightarrow> compression_options" where
  "trainer_get_current_state tr = action tr"

subsection \<open>Greedy actions\<close>

lemma argmax_from_bound: "best < i \<Longrightarrow> argmax_from i best m xs < i + length xs"
  by (induction i best m xs rule: argmax_from.induct) auto

lemma argmax_bound: "xs \<noteq> [] \<Longrightarrow> argmax xs < length xs"
  using argmax_from_bound [of 0 1] by (auto simp: argmax_def neq_Nil_conv)

lemma argmax_from_max:
  "best < i \<Longrightarrow> ys ! best = m \<Longrightarrow> length ys = i \<Longrightarrow> (\<forall>y \<in> set ys. y \<le> m) \<Longrightarrow>
     \<forall>y \<in> set (ys @ xs). y \<le> (ys @ xs) ! argmax_from i best m xs"
proof (induction i best m xs arbitrary: ys rule: argmax_from.induct)
  case (1 i best m)
  then show ?case by auto
next
  case (2 i best m x xs)
  show ?case
  proof (cases "m < x")
    case True
    have "\<forall>y \<in> set ((ys @ [x]) @ xs). y \<le> ((ys @ [x]) @ xs) ! argmax_from (Suc i) i x xs"
      using 2 True by (intro "2.IH") (auto simp: nth_append)
    with True show ?thesis by simp
  next
    case False
    have "\<forall>y \<in> set ((ys @ [x]) @ xs). y \<le> ((ys @ [x]) @ xs) ! argmax_from (Suc i) best m xs"
      using 2 False by (intro "2.IH") (auto simp: nth_append)
    with False show ?thesis by simp
  qed
qed

lemma argmax_max: "xs \<noteq> [] \<Longrightarrow> y \<in> set xs \<Longrightarrow> y \<le> xs ! argmax xs"
  using argmax_from_max [of 0 1 "[hd xs]" "hd xs" "tl xs"]
  by (cases xs) (auto simp: argmax_def)

subsection \<open>Copying parameters\<close>

lemma load_loop_registry [simp]:
  "named_parameters (load_loop target names model) = named_parameters model"
  "named_buffers (load_loop target names model) = named_buffers model"
  by (induction target names model rule: load_loop.induct) auto

lemma load_loop_layers:
  "layers (load_loop target names model) n =
     (if n \<in> set names \<and> (n \<in> set (named_parameters model) \<or> n \<in> set (named_buffers model))
      then layers target n else layers model n)"
  by (induction target names model rule: load_loop.induct) auto

lemma loadstatedict_layers:
  "layers (loadstatedict model target) n =
     (if n \<in> set (named_parameters target)
         \<and> (n \<in> set (named_parameters model) \<or> n \<in> set (named_buffers model))
      then layers target n else layers model n)"
  by (simp add: loadstatedict_def load_loop_layers)

lemma loadstatedict_registry [simp]:
  "named_parameters (loadstatedict model target) = named_parameters model"
  "named_buffers (loadstatedict model target) = named_buffers model"
  by (simp_all add: loadstatedict_def)

lemma optimiser_step_registry [simp]:
  "named_parameters (optimiser_step t qs es d) = named_parameters d"
  "named_buffers (optimiser_step t qs es d) = named_buffers d"
  by (simp_all add: optimiser_step_def)

subsection \<open>Invariant\<close>

definition train_inv :: "'l torch \<Rightarrow> 'l trainer \<Rightarrow> bool" where
  "train_inv t tr \<longleftrightarrow>
     er_capacity (buffer tr) = 3000 \<and> 0 \<le> train_episode tr
     \<and> int (length (er_buffer (buffer tr))) = min (train_episode tr) 3000
     \<and> (\<forall>x. length (dqn_forward t (network tr) x) = length legal_actions)
     \<and> named_parameters (network tr) = [] \<and> named_buffers (network tr) = []"

lemma unsigned_capacity_3000 [simp]: "unsigned_capacity 3000 = 3000"
  by (simp add: unsigned_capacity_def)

lemma train_log_frame [simp]:
  "buffer (train_log t r tr) = buffer tr" "network (train_log t r tr) = network tr"
  "target_network (train_log t r tr) = target_network tr"
  "train_episode (train_log t r tr) = train_episode tr" "action (train_log t r tr) = action tr"
  by (simp_all add: train_log_def)

lemma unregistered_layers:
  assumes "named_parameters d = []" "named_buffers d = []"
  shows "layers (loadstatedict (optimiser_step t qs es d) target) = layers d"
  using assms by (intro ext) (simp add: loadstatedict_layers, simp add: optimiser_step_def)

lemma dqn_forward_cong: "layers d = layers d' \<Longrightarrow> dqn_forward t d = dqn_forward t d'"
  by (intro ext) (simp add: dqn_forward_def layer_def)

lemma train_learn_ok:
  assumes inv: "train_inv t tr" and draw: "draws picked batch_size (length (er_buffer (buffer tr)))"
    and pos: "0 < train_episode tr"
  shows "\<exists>tr'. train_learn t picked tr = Inr tr' \<and> train_inv t tr'
           \<and> layers (network tr') = layers (network tr)
           \<and> action tr' = action tr \<and> train_episode tr' = train_episode tr
           \<and> target_network tr' = target_network tr"
proof (cases "train_episode tr mod 1000 = 0")
  case True
  then have "1000 \<le> train_episode tr"
    using pos by (intro zdvd_imp_le) (auto simp: dvd_eq_mod_eq_0)
  moreover have "int (length (er_buffer (buffer tr))) = min (train_episode tr) 3000"
    using inv by (simp add: train_inv_def)
  ultimately have "batch_size \<le> length (er_buffer (buffer tr))"
    unfolding batch_size_def by linarith
  then have "\<not> length (nths (er_buffer (buffer tr)) picked) < batch_size"
    using length_nths_draws [OF draw] by simp
  moreover have "dqn_forward t (loadstatedict (optimiser_step t qs es (network tr)) (target_network tr))
      = dqn_forward t (network tr)" for qs es
    using inv by (intro dqn_forward_cong unregistered_layers) (simp_all add: train_inv_def)
  ultimately show ?thesis
    using True inv unregistered_layers [of "network tr"]
    by (simp add: train_learn_def compute_td_loss_def train_inv_def Let_def)
qed (use inv in \<open>simp add: train_learn_def\<close>)

lemma choose_action_ok:
  assumes "length (dqn_forward t net st) = length legal_actions"
  shows "\<exists>a. choose_action t net st eps r1 r2 = Inr a \<and> a \<in> set legal_actions"
proof -
  have "dqn_forward t net st \<noteq> []"
    using assms by (auto simp: legal_actions_def)
  then have "dqn_act t net st < length legal_actions"
    using argmax_bound assms unfolding dqn_act_def by metis
  moreover have "r2 mod length legal_actions < length legal_actions"
    by (simp add: legal_actions_def)
  ultimately show ?thesis
    by (auto simp: choose_action_def Let_def)
qed

lemma train_ok:
  assumes inv: "train_inv t tr"
    and draw: "draws picked batch_size (nat (min (train_episode tr + 1) 3000))"
  shows "\<exists>tr'. train t en ps dur dn r1 r2 picked tr = Inr tr' \<and> train_inv t tr'
           \<and> layers (network tr') = layers (network tr)
           \<and> train_episode tr' = train_episode tr + 1"
proof -
  define tr1 where "tr1 = tr\<lparr>last_duration := dur,
    episode_reward := float_of (episode_reward tr + float_of (last_duration tr - dur)),
    train_episode := train_episode tr + 1\<rparr>"
  obtain a where a: "choose_action t (network tr1) [en, ps, dur]
      (epsilon_by_frame t (train_episode tr1)) r1 r2 = Inr a"
    using choose_action_ok [of t "network tr1" "[en, ps, dur]"
        "epsilon_by_frame t (train_episode tr1)" r1 r2] inv
    by (auto simp: train_inv_def tr1_def)
  define s where "s = \<lparr>tr_state = state_tensor tr1, tr_new_state = [en, ps, dur],
    tr_action = enum_value a, tr_reward = float_of (last_duration tr - dur), tr_done = dn\<rparr>"
  define buf where "buf = (buffer tr1)\<lparr>er_buffer :=
    drop (length (er_buffer (buffer tr)) + 1 - 3000) (er_buffer (buffer tr) @ [s])\<rparr>"
  have len0: "int (length (er_buffer (buffer tr))) = min (train_episode tr) 3000"
    using inv by (simp add: train_inv_def)
  then have "length (er_buffer (buffer tr)) \<le> 3000"
    by linarith
  then have push: "replay_push s (buffer tr1) = Inr buf"
    using inv by (subst replay_push_eq) (simp_all add: train_inv_def tr1_def buf_def)
  define tr2 where "tr2 = train_log t (float_of (last_duration tr - dur))
    (tr1\<lparr>action := a, buffer := buf, state_tensor := [en, ps, dur]\<rparr>)"
  have "length (er_buffer (buffer tr2))
      = length (er_buffer (buffer tr)) + 1 - (length (er_buffer (buffer tr)) + 1 - 3000)"
    by (simp add: tr1_def tr2_def buf_def)
  moreover have "train_episode tr2 = train_episode tr + 1"
    by (simp add: tr1_def tr2_def)
  ultimately have len: "int (length (er_buffer (buffer tr2))) = min (train_episode tr2) 3000"
    using len0 by linarith
  then have "train_inv t tr2"
    using inv by (simp add: train_inv_def tr1_def tr2_def buf_def)
  moreover have "draws picked batch_size (length (er_buffer (buffer tr2)))"
  proof -
    have "length (er_buffer (buffer tr2)) = nat (min (train_episode tr + 1) 3000)"
      using len by (simp add: tr1_def tr2_def)
    with draw show ?thesis by simp
  qed
  moreover have "0 < train_episode tr2"
    using inv by (simp add: train_inv_def tr1_def tr2_def)
  ultimately obtain tr' where "train_learn t picked tr2 = Inr tr'" "train_inv t tr'"
    "layers (network tr') = layers (network tr2)" "train_episode tr' = train_episode tr2"
    using train_learn_ok by blast
  moreover have "train t en ps dur dn r1 r2 picked tr = train_learn t picked tr2"
    using a push by (simp add: train_def tr1_def tr2_def s_def Let_def)
  ultimately show ?thesis
    by (simp add: tr1_def tr2_def)
qed

subsection \<open>A concrete library\<close>

text \<open>An instance of libtorch for examples: a layer is the constant output it produces, an optimiser step
  increments it, and \<^verbatim>\<open>exp\<close> is zero, so that the trainer never explores on a large draw.\<close>

definition constant_torch :: "rat list torch" where
  "constant_torch = \<lparr>apply_linear = (\<lambda>l x. l), adam_step = (\<lambda>qs es n l. map (\<lambda>v. v + 1) l), c_exp = (\<lambda>x. 0)\<rparr>"

definition constant_dqn :: "rat list dqn" where
  "constant_dqn = dqn_new [1] [1] [1] [1, 2, 4, 3]"

lemma dqn_forward_constant: "dqn_forward constant_torch constant_dqn x = [1, 2, 4, 3]"
  by (simp add: dqn_forward_def layer_def constant_torch_def constant_dqn_def dqn_new_def)

lemma train_inv_constant: "train_inv constant_torch (trainer_new constant_dqn constant_dqn)"
  by (simp add: train_inv_def trainer_new_def dqn_forward_constant legal_actions_def replay_new_def)
     (simp add: constant_dqn_def dqn_new_def)

subsection \<open>Properties\<close>



text \<open>\<open>loadstatedict network target_network\<close>, as the training step calls it, overwrites the parameters
  of the online network with those of the target network, never the other way round: a parameter both
  networks register has the target's value afterwards, and the target network is not an output.\<close>

theorem loadstatedict_overwrites_online:
  "layers (loadstatedict net target) n =
     (if n \<in> set (named_parameters target)
         \<and> (n \<in> set (named_parameters net) \<or> n \<in> set (named_buffers net))
      then layers target n else layers net n)"
  by (rule loadstatedict_layers)

text \<open>Acting and learning disagree on what an output of the network stands for: the greedy action is
  the entry of \<open>legal_actions\<close> at the position of the largest output, but the transition stores the
  enumerator's value, and the two agree only for the first two outputs.\<close>

theorem greedy_action_index_mismatch:
  assumes "choose_action t net st eps rand1 rand2 = Inr a"
    and "\<not> double_of (of_nat rand1 / of_int RAND_MAX) \<le> eps"
  shows "enum_value a = dqn_act t net st \<longleftrightarrow> dqn_act t net st < 2"
proof -
  have i: "dqn_act t net st < 4" and a: "a = legal_actions ! dqn_act t net st"
    using assms by (auto simp: choose_action_def legal_actions_def Let_def split: if_splits)
  then have "dqn_act t net st \<in> {0, 1, 2, 3}"
    by auto
  with a show ?thesis
    by (auto simp: legal_actions_def enum_value_def numeral_2_eq_2 numeral_3_eq_3)
qed

lemma double_of_one: "double_of 1 = 1"
  using double_of_int [of 1] by simp

theorem greedy_action_index_mismatch_witness:
  "choose_action constant_torch constant_dqn [0, 0, 0] 0 2147483647 0 = Inr LZ77 \<and>
   dqn_act constant_torch constant_dqn [0, 0, 0] = 2 \<and> enum_value LZ77 \<noteq> 2"
proof -
  have act: "dqn_act constant_torch constant_dqn [0, 0, 0] = 2"
    by (simp add: dqn_act_def dqn_forward_constant argmax_def)
  moreover have c: "choose_action constant_torch constant_dqn [0, 0, 0] 0 2147483647 0 = Inr LZ77"
    using act by (simp add: choose_action_def RAND_MAX_def double_of_one legal_actions_def)
  ultimately show ?thesis
    using greedy_action_index_mismatch [OF c] by (simp add: RAND_MAX_def double_of_one)
qed

end
