(* ===== verification/Controller.thy ===== *)
theory Controller
  imports Trainer
begin

text \<open>
  The controller of \<^verbatim>\<open>include/d_compression/controller.h\<close>: it owns an epsilon-greedy selector and a
  deep Q-learning trainer and passes the measurements of each frame to the one its algorithm
  type names. Both selectors satisfy one contract, stated as a locale.
\<close>

subsection \<open>The contract of a selector\<close>

text \<open>
  A selector makes a step per measurement. Under its invariant and for inputs the environment may
  supply, a step does not fail and keeps the invariant.
\<close>

locale selector =
  fixes inv :: "'s \<Rightarrow> bool"
    and ok :: "'i \<Rightarrow> 's \<Rightarrow> bool"
    and step :: "'i \<Rightarrow> 's \<Rightarrow> 's result"
  assumes step_ok: "inv s \<Longrightarrow> ok i s \<Longrightarrow> \<exists>s'. step i s = Inr s' \<and> inv s'"
begin

primrec run :: "'i list \<Rightarrow> 's \<Rightarrow> 's result" where
  "run [] s = Inr s"
| "run (i # is) s = rbind (step i s) (run is)"

primrec ok_run :: "'i list \<Rightarrow> 's \<Rightarrow> bool" where
  "ok_run [] s = True"
| "ok_run (i # is) s = (ok i s \<and> (\<forall>s'. step i s = Inr s' \<longrightarrow> ok_run is s'))"

lemma run_ok: "inv s \<Longrightarrow> ok_run is s \<Longrightarrow> \<exists>s'. run is s = Inr s' \<and> inv s'"
proof (induction "is" arbitrary: s)
  case Nil
  then show ?case by simp
next
  case (Cons i "is")
  then obtain s' where "step i s = Inr s'" "inv s'"
    using step_ok [of s i] by auto
  with Cons show ?case by auto
qed

end

subsection \<open>The controller\<close>

record frame_input =
  in_frame_index :: int
  in_compression :: int
  in_transmission :: int
  in_entropy :: rat
  in_packet_size :: rat
  in_done :: bool
  in_order :: "compression_options list"
  in_rand1 :: nat
  in_rand2 :: nat
  in_picked :: "nat set"

record 'l controller =
  algorithm_type :: string
  state_machine :: iq_state_machine
  trainer :: "'l trainer"

definition controller_new :: "string \<Rightarrow> int \<Rightarrow> 'l dqn \<Rightarrow> 'l dqn \<Rightarrow> 'l controller" where
  "controller_new algo itv net target =
     \<lparr>algorithm_type = algo, state_machine = iq_state_machine_init itv,
      trainer = trainer_new net target\<rparr>"

definition sm_step :: "frame_input \<Rightarrow> iq_state_machine \<Rightarrow> iq_state_machine result" where
  "sm_step i sm =
     sm_update (in_frame_index i) (in_compression i) (in_transmission i) (in_order i)
       (in_rand1 i) (in_rand2 i) sm"

definition train_step :: "'l torch \<Rightarrow> frame_input \<Rightarrow> 'l trainer \<Rightarrow> 'l trainer result" where
  "train_step t i tr =
     train t (in_entropy i) (in_packet_size i)
       (float_of (of_int (in_compression i + in_transmission i))) (in_done i)
       (in_rand1 i) (in_rand2 i) (in_picked i) tr"

definition controller_update :: "'l torch \<Rightarrow> frame_input \<Rightarrow> 'l controller \<Rightarrow> 'l controller result" where
  "controller_update t i c =
     (if algorithm_type c = ''state_machine''
      then rbind (sm_step i (state_machine c)) (\<lambda>sm. Inr (c\<lparr>state_machine := sm\<rparr>))
      else if algorithm_type c = ''dqn''
      then rbind (train_step t i (trainer c)) (\<lambda>tr. Inr (c\<lparr>trainer := tr\<rparr>))
      else Inr c)"

definition controller_get_current_state :: "'l controller \<Rightarrow> compression_options" where
  "controller_get_current_state c =
     (if algorithm_type c = ''state_machine'' then get_current_state (state_machine c)
      else if algorithm_type c = ''dqn'' then trainer_get_current_state (trainer c)
      else NONE)"

subsection \<open>Both selectors keep the contract\<close>

definition sm_selector_inv :: "iq_state_machine \<Rightarrow> bool" where
  "sm_selector_inv sm \<longleftrightarrow> sm_inv sm \<and> interval sm \<noteq> 0"

lemma sm_update_interval: "sm_update i c t order r1 r2 sm = Inr sm' \<Longrightarrow> interval sm' = interval sm"
  by (erule sm_update_cases) (simp_all add: select_state_frame)

lemma sm_update_total: "interval sm \<noteq> 0 \<Longrightarrow> \<exists>sm'. sm_update i c t order r1 r2 sm = Inr sm'"
  by (auto simp: sm_update_def Let_def split: prod.splits)

interpretation greedy: selector sm_selector_inv "\<lambda>i sm. True" sm_step
proof
  fix sm i
  assume inv: "sm_selector_inv sm"
  then obtain sm' where upd: "sm_step i sm = Inr sm'"
    using sm_update_total [of sm] unfolding sm_step_def sm_selector_inv_def by blast
  with inv sm_inv_update(1) [of sm] sm_update_interval show "\<exists>s'. sm_step i sm = Inr s' \<and> sm_selector_inv s'"
    unfolding sm_step_def sm_selector_inv_def by metis
qed

text \<open>For the trainer the sampler must draw from the positions of the replay buffer after the push.\<close>

definition train_input_ok :: "frame_input \<Rightarrow> 'l trainer \<Rightarrow> bool" where
  "train_input_ok i tr \<longleftrightarrow> draws (in_picked i) batch_size (nat (min (train_episode tr + 1) 3000))"

interpretation dqn: selector "train_inv t" train_input_ok "train_step t" for t :: "'l torch"
proof
  fix tr i
  assume "train_inv t tr" "train_input_ok i tr"
  then show "\<exists>tr'. train_step t i tr = Inr tr' \<and> train_inv t tr'"
    using train_ok [of t tr "in_picked i"] unfolding train_step_def train_input_ok_def by blast
qed

definition controller_inv :: "'l torch \<Rightarrow> 'l controller \<Rightarrow> bool" where
  "controller_inv t c \<longleftrightarrow> sm_selector_inv (state_machine c) \<and> train_inv t (trainer c)"

definition controller_input_ok :: "frame_input \<Rightarrow> 'l controller \<Rightarrow> bool" where
  "controller_input_ok i c \<longleftrightarrow> (algorithm_type c = ''dqn'' \<longrightarrow> train_input_ok i (trainer c))"

interpretation ctrl: selector "controller_inv t" controller_input_ok "controller_update t"
  for t :: "'l torch"
proof
  fix c i
  assume inv: "controller_inv t c" and ok: "controller_input_ok i c"
  show "\<exists>c'. controller_update t i c = Inr c' \<and> controller_inv t c'"
  proof (cases "algorithm_type c = ''state_machine''")
    case True
    obtain sm' where "sm_step i (state_machine c) = Inr sm'" "sm_selector_inv sm'"
      using greedy.step_ok inv unfolding controller_inv_def by blast
    with True inv show ?thesis
      by (simp add: controller_update_def controller_inv_def)
  next
    case sm: False
    show ?thesis
    proof (cases "algorithm_type c = ''dqn''")
      case True
      obtain tr' where "train_step t i (trainer c) = Inr tr'" "train_inv t tr'"
        using dqn.step_ok [of t "trainer c" i] True inv ok
        unfolding controller_inv_def controller_input_ok_def by blast
      with True inv show ?thesis
        by (simp add: controller_update_def controller_inv_def)
    next
      case False
      with sm inv show ?thesis
        by (simp add: controller_update_def)
    qed
  qed
qed

lemma trainer_new_inv:
  assumes "\<And>x. length (dqn_forward t (dqn_new a b c d) x) = length legal_actions"
  shows "train_inv t (trainer_new (dqn_new a b c d) target)"
  using assms by (simp add: train_inv_def trainer_new_def replay_new_def dqn_new_def)

lemma controller_new_inv:
  assumes "\<And>x. length (dqn_forward t (dqn_new a b c d) x) = length legal_actions" "itv \<noteq> 0"
  shows "controller_inv t (controller_new algo itv (dqn_new a b c d) target)"
  using assms sm_inv_init [of itv]
  by (simp add: controller_inv_def controller_new_def sm_selector_inv_def trainer_new_inv
      iq_state_machine_init_def)

subsection \<open>Exploration ends\<close>

text \<open>How many of the updates of a run explore.\<close>

primrec explorations :: "frame_input list \<Rightarrow> iq_state_machine \<Rightarrow> nat" where
  "explorations [] sm = 0"
| "explorations (i # is) sm =
     (case sm_step i sm of
        Inl e \<Rightarrow> 0
      | Inr sm' \<Rightarrow>
          (if in_frame_index i mod interval sm = 0 \<and> explores (in_rand1 i) sm then 1 else 0)
            + explorations is sm')"

lemma explorations_budget:
  "sm_inv sm \<Longrightarrow>
     explorations is sm = 0 \<or>
     of_nat (explorations is sm) * (EPSILON_DECAY - 1 / 2 ^ 25) \<le> epsilon sm + (EPSILON_DECAY - 1 / 2 ^ 25)"
proof (induction "is" arbitrary: sm)
  case (Cons i "is")
  define d where "d = EPSILON_DECAY - 1 / 2 ^ 25"
  have "explorations (i # is) sm = 0 \<or> of_nat (explorations (i # is) sm) * d \<le> epsilon sm + d"
  proof (cases "sm_step i sm")
    case (Inr sm')
    then have upd: "sm_update (in_frame_index i) (in_compression i) (in_transmission i) (in_order i)
        (in_rand1 i) (in_rand2 i) sm = Inr sm'"
      by (simp add: sm_step_def)
    note IH = Cons.IH [OF sm_inv_update(1) [OF Cons.prems upd], folded d_def]
    show ?thesis
    proof (cases "in_frame_index i mod interval sm = 0 \<and> explores (in_rand1 i) sm")
      case True
      then have e: "0 \<le> epsilon sm" "epsilon sm \<le> EPSILON_START" "epsilon_decay sm = EPSILON_DECAY"
        using explores_nonneg Cons.prems by (auto simp: sm_inv_def)
      have "epsilon sm' \<le> epsilon sm - d"
        using sm_update_epsilon [OF upd] True epsilon_step_decreases [OF e(1,2)] e(3) by (simp add: d_def)
      with IH e(1) True Inr show ?thesis
        by (auto simp: algebra_simps)
    next
      case False
      with sm_update_epsilon [OF upd] IH Inr show ?thesis
        by auto
    qed
  qed simp
  then show ?case
    by (simp only: d_def)
qed simp

subsection \<open>Properties\<close>

text \<open>C30. From its start a state machine explores at most 991 times, however often it is updated and
  whatever the random draws: the rounding of the single-precision epsilon included, the decay uses
  up the exploration probability.\<close>

theorem exploration_is_bounded: "explorations is (iq_state_machine_init itv) \<le> 991"
proof (rule ccontr)
  assume "\<not> explorations is (iq_state_machine_init itv) \<le> 991"
  then have n: "992 \<le> (of_nat (explorations is (iq_state_machine_init itv)) :: rat)"
    by simp
  have "epsilon (iq_state_machine_init itv) = EPSILON_START"
    by (simp add: iq_state_machine_init_def EPSILON_START_def)
  then have "of_nat (explorations is (iq_state_machine_init itv)) * (EPSILON_DECAY - 1 / 2 ^ 25)
      \<le> EPSILON_START + (EPSILON_DECAY - 1 / 2 ^ 25)"
    using explorations_budget [OF sm_inv_init, of "is" itv] n by auto
  moreover have "992 * (EPSILON_DECAY - 1 / 2 ^ 25)
      \<le> of_nat (explorations is (iq_state_machine_init itv)) * (EPSILON_DECAY - 1 / 2 ^ 25)"
    using n by (intro mult_right_mono) (simp_all add: EPSILON_values)
  ultimately show False
    by (simp add: EPSILON_values)
qed

text \<open>A controller never fails: from any state in its invariant, every run of updates whose sampler
  draws are possible ends in a state in the invariant, with either algorithm.\<close>

theorem controller_runs:
  assumes "controller_inv t c" "ctrl.ok_run t is c"
  shows "\<exists>c'. ctrl.run t is c = Inr c' \<and> controller_inv t c'"
  using assms by (rule ctrl.run_ok)

definition example_input :: frame_input where
  "example_input = \<lparr>in_frame_index = 1, in_compression = 5, in_transmission = 7, in_entropy = 0,
     in_packet_size = 8, in_done = False, in_order = [NONE], in_rand1 = 0, in_rand2 = 2, in_picked = {0}\<rparr>"

lemma example_controller_inv:
  "controller_inv constant_torch (controller_new algo 1 constant_dqn constant_dqn)"
  unfolding constant_dqn_def
  by (rule controller_new_inv) (simp_all add: legal_actions_def dqn_forward_constant flip: constant_dqn_def)

theorem controller_runs_witness:
  "\<exists>c'. ctrl.run constant_torch [example_input]
          (controller_new ''dqn'' 1 constant_dqn constant_dqn) = Inr c' \<and>
        controller_inv constant_torch c'"
  by (rule controller_runs [OF example_controller_inv])
     (simp add: controller_input_ok_def train_input_ok_def draws_def batch_size_def example_input_def
        controller_new_def trainer_new_def)

end
