(* ===== verification/Sender.thy ===== *)
theory Sender
  imports Channel Controller "HOL-Library.Signed_Division"
begin

text \<open>
  The sending program \<^verbatim>\<open>sender/main.cpp\<close>: a reader that delivers a file a number of times in
  buffers of bounded size, and the main loop that converts each buffer to samples, compresses it
  with the algorithm the controller asks for, frames it and sends it. Measured times, random
  draws and hash map orders come from an environment indexed by the frame number.
\<close>

subsection \<open>The buffer reader\<close>

text \<open>
  \<open>rd_eof\<close> stands for the end-of-file and fail bits of the \<^verbatim>\<open>ifstream\<close>: a short read sets them and
  reads fail until \<^verbatim>\<open>clear()\<close>.
\<close>

record buffer_reader =
  rd_count :: int
  max_buffer_size :: nat
  rd_file :: "byte list"
  rd_pos :: nat
  rd_eof :: bool

definition reader_new :: "byte list \<Rightarrow> int \<Rightarrow> buffer_reader" where
  "reader_new content cnt =
     \<lparr>rd_count = cnt, max_buffer_size = 20240, rd_file = content, rd_pos = 0, rd_eof = False\<rparr>"

definition stream_read :: "buffer_reader \<Rightarrow> byte list \<times> buffer_reader" where
  "stream_read r =
     (let n = (if rd_eof r then 0 else min (max_buffer_size r) (length (rd_file r) - rd_pos r))
      in (take n (drop (rd_pos r) (rd_file r)),
          r\<lparr>rd_pos := rd_pos r + n, rd_eof := rd_eof r \<or> n < max_buffer_size r\<rparr>))"

function read_buffer :: "buffer_reader \<Rightarrow> byte list \<times> buffer_reader" where
  "read_buffer r =
     (if rd_count r \<le> 0 then ([], r)
      else let (buffer, r1) = stream_read r
           in if 0 < length buffer then (buffer, r1)
              else let r2 = r1\<lparr>rd_count := rd_count r1 - 1\<rparr>
                   in read_buffer (if rd_eof r2 then r2\<lparr>rd_eof := False, rd_pos := 0\<rparr> else r2))"
  by pat_completeness auto
termination
  by (relation "measure (\<lambda>r. nat (rd_count r))") (auto simp: stream_read_def Let_def)

declare read_buffer.simps [simp del]

definition reader_inv :: "buffer_reader \<Rightarrow> bool" where
  "reader_inv r \<longleftrightarrow> 0 < max_buffer_size r \<and> rd_pos r \<le> length (rd_file r)
     \<and> (rd_eof r \<longrightarrow> rd_pos r = length (rd_file r))"

text \<open>What is still to be delivered: the rest of the file, then the file for each further round.\<close>

definition remaining :: "buffer_reader \<Rightarrow> byte list" where
  "remaining r =
     (if rd_count r \<le> 0 then []
      else drop (rd_pos r) (rd_file r) @ concat (replicate (nat (rd_count r - 1)) (rd_file r)))"

lemma reader_new_inv: "reader_inv (reader_new content cnt)"
  by (simp add: reader_inv_def reader_new_def)

lemma replicate_nat_minus: "1 < c \<Longrightarrow> replicate (nat (c - 1)) x = x # replicate (nat (c - 2)) x"
proof -
  assume "1 < c"
  then have "nat (c - 1) = Suc (nat (c - 2))" by simp
  then show ?thesis by simp
qed

lemma remaining_reader_new: "remaining (reader_new content cnt) = concat (replicate (nat cnt) content)"
proof (cases "0 < cnt")
  case True
  then have "nat cnt = Suc (nat (cnt - 1))" by simp
  with True show ?thesis
    by (simp add: remaining_def reader_new_def)
qed (simp add: remaining_def reader_new_def)

lemma stream_read_nonempty:
  assumes "reader_inv r" "stream_read r = (buf, r1)" "buf \<noteq> []" "0 < rd_count r"
  shows "remaining r = buf @ remaining r1" "reader_inv r1" "length buf \<le> max_buffer_size r"
    "length (rd_file r1) - rd_pos r1 < length (rd_file r) - rd_pos r" "rd_count r1 = rd_count r"
    "rd_file r1 = rd_file r" "max_buffer_size r1 = max_buffer_size r"
  using assms
  by (auto simp: stream_read_def Let_def remaining_def reader_inv_def min_def
      split: if_splits simp flip: append_assoc)
     (auto simp: add.commute simp flip: drop_drop)

lemma stream_read_empty:
  assumes inv: "reader_inv r" and rd: "stream_read r = ([], r1)" and cnt: "0 < rd_count r"
  defines "r3 \<equiv> r1\<lparr>rd_count := rd_count r1 - 1, rd_eof := False, rd_pos := 0\<rparr>"
  shows "rd_eof r1" "remaining r = remaining r3" "reader_inv r3"
proof -
  have pos: "rd_pos r = length (rd_file r)" and r1: "rd_eof r1" "rd_count r1 = rd_count r"
    "rd_file r1 = rd_file r" "max_buffer_size r1 = max_buffer_size r"
    using inv rd by (auto simp: stream_read_def Let_def reader_inv_def split: if_splits)
  show "rd_eof r1" by (rule r1)
  show "remaining r = remaining r3"
    using pos r1 cnt replicate_nat_minus [of "rd_count r" "rd_file r"]
    by (auto simp: remaining_def r3_def)
  show "reader_inv r3"
    using inv r1 by (simp add: reader_inv_def r3_def)
qed

text \<open>
  One call: it delivers a non-empty prefix of what remains, of bounded length, or nothing when
  nothing remains; and it makes progress.
\<close>

definition reads :: "buffer_reader \<Rightarrow> byte list \<Rightarrow> buffer_reader \<Rightarrow> bool" where
  "reads r buf r' \<longleftrightarrow> remaining r = buf @ remaining r' \<and> reader_inv r'
     \<and> length buf \<le> max_buffer_size r \<and> max_buffer_size r' = max_buffer_size r
     \<and> (buf = [] \<longleftrightarrow> remaining r = [])"

lemma read_buffer_reads:
  "reader_inv r \<Longrightarrow> read_buffer r = (buf, r') \<Longrightarrow> reads r buf r'"
proof (induction "nat (rd_count r)" arbitrary: r rule: less_induct)
  case less
  obtain b r1 where rd: "stream_read r = (b, r1)"
    by (cases "stream_read r")
  show ?case
  proof (cases "rd_count r \<le> 0")
    case True
    then have "buf = []" "r' = r"
      using less.prems(2) by (simp_all add: read_buffer.simps [of r])
    with less.prems(1) True show ?thesis
      by (simp add: reads_def remaining_def)
  next
    case cnt: False
    show ?thesis
    proof (cases "b = []")
      case False
      then have "buf = b" "r' = r1"
        using less.prems(2) cnt rd by (simp_all add: read_buffer.simps [of r])
      with stream_read_nonempty [OF less.prems(1) rd False] cnt False show ?thesis
        by (auto simp: reads_def)
    next
      case True
      define r3 where "r3 = r1\<lparr>rd_count := rd_count r1 - 1, rd_eof := False, rd_pos := 0\<rparr>"
      from stream_read_empty [OF less.prems(1)] rd True cnt
      have e: "rd_eof r1" "remaining r = remaining r3" "reader_inv r3"
        by (auto simp: r3_def)
      have m: "max_buffer_size r3 = max_buffer_size r" "rd_count r3 = rd_count r - 1"
        using rd by (auto simp: r3_def stream_read_def Let_def)
      have "read_buffer r = read_buffer r3"
        using cnt rd True e(1) by (simp add: r3_def read_buffer.simps [of r])
      then have rb: "read_buffer r3 = (buf, r')"
        using less.prems(2) by simp
      have lt: "nat (rd_count r3) < nat (rd_count r)"
        using m(2) cnt by simp
      have "reads r3 buf r'"
        by (rule less.hyps [OF lt e(3) rb])
      then show ?thesis
        unfolding reads_def e(2) m(1) .
    qed
  qed
qed

text \<open>Progress, whatever the state of the reader: fewer rounds left, or less of the file.\<close>

lemma read_buffer_progress:
  "read_buffer r = (buf, r') \<Longrightarrow> buf \<noteq> [] \<Longrightarrow>
     0 < rd_count r \<and> (rd_count r' < rd_count r
       \<or> rd_count r' = rd_count r \<and> length (rd_file r') - rd_pos r' < length (rd_file r) - rd_pos r)"
proof (induction "nat (rd_count r)" arbitrary: r rule: less_induct)
  case less
  obtain b r1 where rd: "stream_read r = (b, r1)"
    by (cases "stream_read r")
  have cnt: "0 < rd_count r"
    using less.prems by (cases "rd_count r \<le> 0") (simp_all add: read_buffer.simps [of r])
  show ?case
  proof (cases "b = []")
    case False
    then have "r' = r1"
      using less.prems(1) cnt rd by (simp add: read_buffer.simps [of r])
    with rd False cnt show ?thesis
      by (auto simp: stream_read_def Let_def min_def split: if_splits)
  next
    case True
    define r3 where "r3 = (if rd_eof r1 then r1\<lparr>rd_count := rd_count r1 - 1, rd_eof := False, rd_pos := 0\<rparr>
      else r1\<lparr>rd_count := rd_count r1 - 1\<rparr>)"
    have m: "rd_count r3 = rd_count r - 1"
      using rd by (auto simp: r3_def stream_read_def Let_def)
    have "read_buffer r = read_buffer r3"
      using cnt rd True by (simp add: r3_def read_buffer.simps [of r])
    then have "read_buffer r3 = (buf, r')"
      using less.prems(1) by simp
    moreover have "nat (rd_count r3) < nat (rd_count r)"
      using m cnt by simp
    ultimately have "rd_count r' \<le> rd_count r3"
      using less.hyps [of r3] less.prems(2) by fastforce
    with m cnt show ?thesis by simp
  qed
qed

subsection \<open>The main loop\<close>

text \<open>What a frame takes from the environment: measured times in microseconds, draws, orders.\<close>

record frame_env =
  e_compression_time :: int
  e_transmit_time :: int
  e_order :: "compression_options list"
  e_rand1 :: nat
  e_rand2 :: nat
  e_picked :: "nat set"

record send_row =
  r_index :: int
  r_type :: nat
  r_byte_length :: rat
  r_compression_ratio :: rat
  r_compression_duration :: int
  r_transmission_duration :: int
  r_average_compression :: int
  r_average_transmission :: int
  r_average_both :: int

record 'l sender =
  s_reader :: buffer_reader
  s_controller :: "'l controller"
  s_stream :: stream
  s_csv :: "send_row list"
  total_compress :: int
  total_transmit :: int
  total_both :: int
  frame_index :: int

definition sender_new :: "byte list \<Rightarrow> int \<Rightarrow> 'l controller \<Rightarrow> 'l sender" where
  "sender_new content tx_count ctrl =
     \<lparr>s_reader = reader_new content tx_count, s_controller = ctrl, s_stream = [], s_csv = [],
      total_compress = 0, total_transmit = 0, total_both = 0, frame_index = 0\<rparr>"

text \<open>The frame: compression type, number of blank bytes, payload.\<close>

definition frame_of :: "zlib \<Rightarrow> compression_options \<Rightarrow> byte list \<Rightarrow> byte list" where
  "frame_of z opt bytes =
     (let (iqSamples, blank_bytes) = to_iq bytes
      in of_nat (enum_value opt) # of_nat blank_bytes # encode_samples z opt iqSamples)"

text \<open>One round of \<^verbatim>\<open>while (true)\<close>; the flag says whether the loop goes on.\<close>

definition sender_step ::
  "zlib \<Rightarrow> 'l torch \<Rightarrow> (int \<Rightarrow> frame_env) \<Rightarrow> 'l sender \<Rightarrow> (bool \<times> 'l sender) result" where
  "sender_step z t env s =
     (let (bytes, rd') = read_buffer (s_reader s)
      in if bytes = [] then Inr (False, s\<lparr>s_reader := rd', s_stream := snd (channel_send [0] (s_stream s))\<rparr>)
         else
           let (iqSamples, blank_bytes) = to_iq bytes;
               fi = frame_index s + 1;
               e = env fi;
               uncompressed_buffer_len = float_of (of_nat (length (serialize iqSamples)));
               opt = controller_get_current_state (s_controller s);
               compressed_buffer_len = float_of (of_nat (length (encode_samples z opt iqSamples)));
               stream' = snd (channel_send (frame_of z opt bytes) (s_stream s));
               tc = total_compress s + e_compression_time e;
               tt = total_transmit s + e_transmit_time e;
               tb = total_both s + (e_compression_time e + e_transmit_time e);
               row = \<lparr>r_index = fi, r_type = enum_value opt, r_byte_length = compressed_buffer_len,
                      r_compression_ratio = float_of (compressed_buffer_len / uncompressed_buffer_len),
                      r_compression_duration = e_compression_time e,
                      r_transmission_duration = e_transmit_time e,
                      r_average_compression = tc sdiv fi, r_average_transmission = tt sdiv fi,
                      r_average_both = tb sdiv fi\<rparr>;
               input = \<lparr>in_frame_index = fi, in_compression = e_compression_time e,
                        in_transmission = e_transmit_time e, in_entropy = 0,
                        in_packet_size = compressed_buffer_len,
                        in_done = (uncompressed_buffer_len < 20240), in_order = e_order e,
                        in_rand1 = e_rand1 e, in_rand2 = e_rand2 e, in_picked = e_picked e\<rparr>
           in rbind (controller_update t input (s_controller s)) (\<lambda>ctrl'.
                Inr (True, s\<lparr>s_reader := rd', s_controller := ctrl', s_stream := stream',
                            s_csv := s_csv s @ [row], total_compress := tc, total_transmit := tt,
                            total_both := tb, frame_index := fi\<rparr>)))"

lemma sender_step_True:
  "sender_step z t env s = Inr (True, s') \<Longrightarrow>
     \<exists>buf. read_buffer (s_reader s) = (buf, s_reader s') \<and> buf \<noteq> []"
  by (auto simp: sender_step_def Let_def rbind_eq_Inr split: prod.splits if_splits)

function sender_loop :: "zlib \<Rightarrow> 'l torch \<Rightarrow> (int \<Rightarrow> frame_env) \<Rightarrow> 'l sender \<Rightarrow> 'l sender result" where
  "sender_loop z t env s =
     rbind (sender_step z t env s) (\<lambda>(more, s'). if more then sender_loop z t env s' else Inr s')"
  by pat_completeness auto
termination
proof (relation "measures [\<lambda>(z, t, env, s). nat (rd_count (s_reader s)),
                           \<lambda>(z, t, env, s). length (rd_file (s_reader s)) - rd_pos (s_reader s)]")
qed (auto dest!: sender_step_True dest: read_buffer_progress)

declare sender_loop.simps [simp del]

subsection \<open>Command line\<close>

record options =
  output_path :: string
  input_path :: string
  algo_type :: string
  tx_count :: string

definition default_options :: options where
  "default_options =
     \<lparr>output_path = ''./output.csv'', input_path = ''../rick.mp4'', algo_type = ''state_machine'', tx_count = ''10''\<rparr>"

text \<open>The argument loop takes two words a round; \<open>Inl\<close> is the early return. A flag that is the last word
  makes it read the null pointer behind the arguments.\<close>

fun parse_args :: "options \<Rightarrow> string list \<Rightarrow> (int + options) result" where
  "parse_args opts [] = Inr (Inr opts)"
| "parse_args opts (arg # rest) =
     (if arg \<in> set [''--output'', ''-o'', ''--algorithm'', ''-a'', ''--input'', ''-i'', ''--tx_count'', ''-c'']
      then case rest of
             [] \<Rightarrow> Inl Out_Of_Bounds
           | v # rest' \<Rightarrow>
               parse_args
                 (if arg = ''--output'' \<or> arg = ''-o'' then opts\<lparr>output_path := v\<rparr>
                  else if arg = ''--algorithm'' \<or> arg = ''-a'' then opts\<lparr>algo_type := v\<rparr>
                  else if arg = ''--input'' \<or> arg = ''-i'' then opts\<lparr>input_path := v\<rparr>
                  else opts\<lparr>tx_count := v\<rparr>) rest'
      else Inr (Inl (- 1)))"

text \<open>\<^verbatim>\<open>std::stoi\<close>: white space, an optional sign, then the longest run of digits.\<close>

definition is_space :: "char \<Rightarrow> bool" where
  "is_space c \<longleftrightarrow> of_char c \<in> {9, 10, 11, 12, 13, 32 :: nat}"

definition is_digit :: "char \<Rightarrow> bool" where
  "is_digit c \<longleftrightarrow> 48 \<le> (of_char c :: nat) \<and> (of_char c :: nat) \<le> 57"

definition digits_value :: "string \<Rightarrow> int" where
  "digits_value ds = foldl (\<lambda>v c. 10 * v + (of_char c - 48)) 0 ds"

definition stoi :: "string \<Rightarrow> int result" where
  "stoi str =
     (let s = dropWhile is_space str;
          neg = (case s of c # _ \<Rightarrow> c = CHR ''-'' | [] \<Rightarrow> False);
          body = (case s of c # cs \<Rightarrow> (if c = CHR ''-'' \<or> c = CHR ''+'' then cs else s) | [] \<Rightarrow> []);
          ds = takeWhile is_digit body;
          v = (if neg then - digits_value ds else digits_value ds)
      in if ds = [] then Inl Invalid_Argument
         else if v < - (2 ^ 31) \<or> 2 ^ 31 \<le> v then Inl Out_Of_Range
         else Inr v)"

text \<open>The start of \<^verbatim>\<open>main\<close>: parse, open the input (\<open>files\<close> is what the paths can be opened to), run.\<close>

definition sender_main ::
  "zlib \<Rightarrow> 'l torch \<Rightarrow> (int \<Rightarrow> frame_env) \<Rightarrow> 'l dqn \<Rightarrow> 'l dqn \<Rightarrow> (string \<rightharpoonup> byte list) \<Rightarrow> string list \<Rightarrow>
   (int + 'l sender) result" where
  "sender_main z t env net target files args =
     rbind (parse_args default_options args) (\<lambda>parsed.
       case parsed of
         Inl code \<Rightarrow> Inr (Inl code)
       | Inr opts \<Rightarrow>
           rbind (stoi (tx_count opts)) (\<lambda>count.
             case files (input_path opts) of
               None \<Rightarrow> Inl Runtime_Error
             | Some content \<Rightarrow>
                 rbind (sender_loop z t env
                   (sender_new content count (controller_new (algo_type opts) 1 net target)))
                   (\<lambda>s. Inr (Inr s))))"

subsection \<open>Properties\<close>

text \<open>\<open>read_buffer\<close> delivers the file \<open>count\<close> times: every call returns the next bytes of that sequence,
  at most \<open>max_buffer_size\<close> of them, and an empty buffer only at its end.\<close>

theorem reader_delivers_file:
  assumes "reader_inv r" "read_buffer r = (buf, r')"
  shows "remaining r = buf @ remaining r' \<and> reader_inv r' \<and> length buf \<le> max_buffer_size r \<and>
         (buf = [] \<longleftrightarrow> remaining r = []) \<and>
         remaining (reader_new content n) = concat (replicate (nat n) content)"
  using read_buffer_reads [OF assms] remaining_reader_new [of content n] unfolding reads_def by blast

theorem reader_delivers_file_witness:
  "remaining (reader_new [1, 2] 2) = [1, 2] @ remaining (snd (read_buffer (reader_new [1, 2] 2)))"
proof -
  have rd: "read_buffer (reader_new [1, 2] 2) = ([1, 2], snd (read_buffer (reader_new [1, 2] 2)))"
    by (simp add: read_buffer.simps reader_new_def stream_read_def)
  from reader_delivers_file [OF reader_new_inv rd] show ?thesis
    by blast
qed

end
