(* ===== verification/Receiver.thy ===== *)
theory Receiver
  imports Sender
begin

text \<open>
  The receiving program \<^verbatim>\<open>receiver/main.cpp\<close>, and what sender and receiver achieve together: the
  file the receiver writes is the file the sender was given, as many times as it was told to send
  it, whatever algorithm the controller picks for each frame.
\<close>

subsection \<open>The receiving loop\<close>

text \<open>The cast of the first byte to \<^verbatim>\<open>compression_options\<close>; anything else takes the \<^verbatim>\<open>default\<close> branch.\<close>

definition comp_type_of :: "byte \<Rightarrow> compression_options option" where
  "comp_type_of b =
     (if b = 0 then Some NONE else if b = 1 then Some BFP else if b = 2 then Some RLE
      else if b = 3 then Some LZ77 else None)"

text \<open>
  \<^verbatim>\<open>front()\<close> and \<^verbatim>\<open>erase(begin())\<close> twice, without a check that there are two bytes; then the switch.
\<close>

definition receiver_decode :: "zlib \<Rightarrow> byte list \<Rightarrow> byte list result" where
  "receiver_decode z msg =
     (case msg of
        c # b # buf \<Rightarrow>
          (case comp_type_of c of
             Some opt \<Rightarrow> rbind (decode_samples z opt buf) (\<lambda>iqSamples. from_iq iqSamples (unat b))
           | None \<Rightarrow> Inr buf)
      | _ \<Rightarrow> Inl Out_Of_Bounds)"

lemma recv_loop_length:
  assumes "recv_loop sz n buf s = Inr (m, s')" "n \<le> sz" "length buf = sz"
  shows "length s' \<le> length s" "length m = sz"
  using assms recv_loop_eq [of n sz buf s] recv_loop_short [of n sz s buf]
  by (cases "sz - n \<le> length s"; auto)+

lemma channel_recv_length: "channel_recv s = Inr (m, s') \<Longrightarrow> length s' < length s"
  by (auto simp: channel_recv_def asio_read_def rbind_eq_Inr Let_def split: if_splits
      dest!: recv_loop_length(1))

function receiver_loop :: "zlib \<Rightarrow> stream \<Rightarrow> byte list \<Rightarrow> byte list result" where
  "receiver_loop z s vid_file =
     rbind (channel_recv s) (\<lambda>(msg, s').
       if msg = [0] then Inr vid_file
       else rbind (receiver_decode z msg) (\<lambda>bytes. receiver_loop z s' (vid_file @ bytes)))"
  by pat_completeness auto
termination
  by (relation "measure (\<lambda>(z, s, vid_file). length s)") (auto dest: channel_recv_length)

declare receiver_loop.simps [simp del]

subsection \<open>A frame is decoded to the bytes it was made from\<close>

lemma comp_type_of_enum_value [simp]: "comp_type_of (of_nat (enum_value opt)) = Some opt"
  by (cases opt) (simp_all add: comp_type_of_def enum_value_def)

lemma unat_blank_bytes: "unat (of_nat (snd (to_iq bs)) :: byte) = snd (to_iq bs)"
proof -
  have "snd (to_iq bs) = 0 \<or> snd (to_iq bs) = 1"
    using blank_bytes_le_1 [of bs] by linarith
  then show ?thesis by auto
qed

lemma receiver_decode_frame_of:
  assumes "zlib_inverse z" "zlib_bound z" "bs \<noteq> []" "length bs \<le> 2 ^ 32"
  shows "receiver_decode z (frame_of z opt bs) = Inr bs"
proof (cases "to_iq bs")
  case (Pair smp k)
  then show ?thesis
    using decode_encode_buffer [OF assms, of opt] unat_blank_bytes [of bs] by (simp add: receiver_decode_def frame_of_def)
qed

lemma frame_of_not_end: "frame_of z opt bs \<noteq> [0]"
  by (simp add: frame_of_def split: prod.splits)

text \<open>zlib's bound on the serialised buffers of this program, which keeps the frames below the length field.\<close>

definition zlib_frames_fit :: "zlib \<Rightarrow> bool" where
  "zlib_frames_fit z \<longleftrightarrow> (\<forall>n \<le> 80960. z_compressBound z n < 2 ^ 31)"

lemma frame_of_fits:
  assumes "zlib_bound z" "zlib_frames_fit z" "length bs \<le> 20240"
  shows "fits_frame (frame_of z opt bs)"
proof -
  obtain smp k where iq: "to_iq bs = (smp, k)"
    by (cases "to_iq bs")
  have smp: "length smp \<le> 10120"
    using assms(3) length_to_iq [of bs] by (simp add: iq)
  then have "z_compressBound z (8 * length smp) < 2 ^ 31"
    using assms(2) by (simp add: zlib_frames_fit_def)
  with smp length_encode_samples [OF assms(1), of opt smp]
  have "length (encode_samples z opt smp) < 2 ^ 31 + 8"
    by simp
  then show ?thesis
    by (simp add: fits_frame_def frame_of_def iq)
qed

subsection \<open>The sender never fails\<close>

definition env_ok :: "string \<Rightarrow> (int \<Rightarrow> frame_env) \<Rightarrow> bool" where
  "env_ok algo env \<longleftrightarrow>
     (algo = ''dqn'' \<longrightarrow> (\<forall>n > 0. draws (e_picked (env n)) batch_size (nat (min n 3000))))"

definition sender_inv :: "'l torch \<Rightarrow> string \<Rightarrow> 'l sender \<Rightarrow> bool" where
  "sender_inv t algo s \<longleftrightarrow>
     reader_inv (s_reader s) \<and> max_buffer_size (s_reader s) = 20240
     \<and> controller_inv t (s_controller s) \<and> algorithm_type (s_controller s) = algo
     \<and> 0 \<le> frame_index s
     \<and> (algo = ''dqn'' \<longrightarrow> train_episode (trainer (s_controller s)) = frame_index s)"

lemma controller_update_progress:
  assumes "controller_update t i c = Inr c'" "controller_inv t c" "controller_input_ok i c"
  shows "algorithm_type c' = algorithm_type c"
    and "algorithm_type c = ''dqn'' \<Longrightarrow> train_episode (trainer c') = train_episode (trainer c) + 1"
proof -
  show "algorithm_type c' = algorithm_type c"
    using assms(1) by (auto simp: controller_update_def rbind_eq_Inr split: if_splits)
  assume dqn: "algorithm_type c = ''dqn''"
  then have "train_inv t (trainer c)" "train_input_ok i (trainer c)"
    using assms(2,3) by (simp_all add: controller_inv_def controller_input_ok_def)
  then obtain tr' where "train_step t i (trainer c) = Inr tr'"
    and "train_episode tr' = train_episode (trainer c) + 1"
    using train_ok unfolding train_step_def train_input_ok_def by blast
  with assms(1) dqn show "train_episode (trainer c') = train_episode (trainer c) + 1"
    by (auto simp: controller_update_def)
qed

lemma sender_step_frame:
  assumes inv: "sender_inv t algo s" and env: "env_ok algo env"
    and rd: "read_buffer (s_reader s) = (bytes, rd')" "bytes \<noteq> []"
  defines "opt \<equiv> controller_get_current_state (s_controller s)"
  shows "\<exists>s'. sender_step z t env s = Inr (True, s') \<and> sender_inv t algo s' \<and> s_reader s' = rd'
           \<and> s_stream s' = snd (channel_send (frame_of z opt bytes) (s_stream s))"
proof -
  obtain smp k where iq: "to_iq bytes = (smp, k)"
    by (cases "to_iq bytes")
  define fi where "fi = frame_index s + 1"
  define len where "len = float_of (of_nat (length (encode_samples z opt smp)))"
  define i where "i = \<lparr>in_frame_index = fi, in_compression = e_compression_time (env fi),
    in_transmission = e_transmit_time (env fi), in_entropy = 0, in_packet_size = len,
    in_done = (float_of (of_nat (length (serialize smp))) < 20240),
    in_order = e_order (env fi), in_rand1 = e_rand1 (env fi), in_rand2 = e_rand2 (env fi),
    in_picked = e_picked (env fi)\<rparr>"
  have cinv: "controller_inv t (s_controller s)" and algo: "algorithm_type (s_controller s) = algo"
    using inv by (simp_all add: sender_inv_def)
  have ok: "controller_input_ok i (s_controller s)"
    using inv env by (auto simp: controller_input_ok_def train_input_ok_def i_def fi_def env_ok_def sender_inv_def)
  obtain c' where c': "controller_update t i (s_controller s) = Inr c'" "controller_inv t c'"
    using ctrl.step_ok [OF cinv ok] by blast
  have reads: "reads (s_reader s) bytes rd'"
    using inv rd(1) by (intro read_buffer_reads) (simp add: sender_inv_def)
  have prog: "algorithm_type c' = algo"
    "algo = ''dqn'' \<Longrightarrow> train_episode (trainer c') = frame_index s + 1"
    using controller_update_progress [OF c'(1) cinv ok] algo inv by (auto simp: sender_inv_def)
  show ?thesis
    using c' rd reads prog inv
    by (simp add: sender_step_def sender_inv_def reads_def opt_def [symmetric] iq Let_def
        i_def fi_def len_def)
qed

subsection \<open>End to end\<close>

lemma receiver_loop_frame:
  assumes "fits_frame msg" "msg \<noteq> [0]" "receiver_decode z msg = Inr bytes"
  shows "receiver_loop z (snd (channel_send msg []) @ rest) acc = receiver_loop z rest (acc @ bytes)"
  using assms by (subst receiver_loop.simps) (simp add: tcp.recv_send)

lemma receiver_loop_end: "receiver_loop z (snd (channel_send [0] []) @ rest) acc = Inr acc"
  by (subst receiver_loop.simps) (simp add: tcp.recv_send fits_frame_def)

lemma sender_receiver:
  assumes zlib: "zlib_inverse z" "zlib_bound z" "zlib_frames_fit z" and env: "env_ok algo env"
  shows "sender_inv t algo s \<Longrightarrow>
     \<exists>s' out. sender_loop z t env s = Inr s' \<and> s_stream s' = s_stream s @ out
       \<and> (\<forall>acc. receiver_loop z out acc = Inr (acc @ remaining (s_reader s)))"
proof (induction "length (remaining (s_reader s))" arbitrary: s rule: less_induct)
  case less
  obtain bytes rd' where rd: "read_buffer (s_reader s) = (bytes, rd')"
    by (cases "read_buffer (s_reader s)")
  have rds: "reads (s_reader s) bytes rd'"
    using less.prems rd by (intro read_buffer_reads) (simp_all add: sender_inv_def)
  show ?case
  proof (cases "bytes = []")
    case True
    then have "remaining (s_reader s) = []"
      using rds unfolding reads_def by blast
    moreover have "sender_loop z t env s
        = Inr (s\<lparr>s_reader := rd', s_stream := snd (channel_send [0] (s_stream s))\<rparr>)"
      using True rd by (subst sender_loop.simps) (simp add: sender_step_def)
    moreover have "snd (channel_send [0] (s_stream s)) = s_stream s @ snd (channel_send [0] [])"
      by (rule tcp.send_join)
    moreover have "receiver_loop z (snd (channel_send [0] [])) acc = Inr acc" for acc
      using receiver_loop_end [of z "[]" acc] by simp
    ultimately show ?thesis by simp
  next
    case False
    define msg where "msg = frame_of z (controller_get_current_state (s_controller s)) bytes"
    obtain s1 where step: "sender_step z t env s = Inr (True, s1)" and inv1: "sender_inv t algo s1"
      and s1: "s_reader s1 = rd'" "s_stream s1 = snd (channel_send msg (s_stream s))"
      using sender_step_frame [OF less.prems env rd False, of z] by (auto simp: msg_def)
    have rem: "remaining (s_reader s) = bytes @ remaining rd'"
      using rds by (simp add: reads_def)
    then have lt: "length (remaining (s_reader s1)) < length (remaining (s_reader s))"
      using False s1 by simp
    from less.hyps [OF this inv1] obtain s' out where
      loop: "sender_loop z t env s1 = Inr s'" "s_stream s' = s_stream s1 @ out"
      and out: "\<And>acc. receiver_loop z out acc = Inr (acc @ remaining rd')"
      using s1 by auto
    have len: "length bytes \<le> 20240"
      using rds less.prems by (simp add: reads_def sender_inv_def)
    then have "receiver_decode z msg = Inr bytes" "fits_frame msg" "msg \<noteq> [0]"
      using receiver_decode_frame_of [OF zlib(1,2) False] frame_of_fits [OF zlib(2,3)] frame_of_not_end
      by (simp_all add: msg_def)
    then have "receiver_loop z (snd (channel_send msg []) @ out) acc
        = Inr (acc @ remaining (s_reader s))" for acc
      using out by (simp add: receiver_loop_frame rem)
    moreover have "s_stream s' = s_stream s @ (snd (channel_send msg []) @ out)"
      using loop(2) s1(2) tcp.send_join [of msg "s_stream s"] by simp
    moreover have "sender_loop z t env s = Inr s'"
      using step loop(1) by (subst sender_loop.simps) simp
    ultimately show ?thesis by blast
  qed
qed

subsection \<open>Properties\<close>


definition example_env :: "int \<Rightarrow> frame_env" where
  "example_env i = \<lparr>e_compression_time = 10 * i, e_transmit_time = 3, e_order = [NONE], e_rand1 = 1,
     e_rand2 = nat i, e_picked = {}\<rparr>"

lemma stored_zlib_frames_fit: "zlib_frames_fit stored_zlib"
  unfolding zlib_frames_fit_def
proof (intro allI impI)
  fix n :: nat
  assume "n \<le> 80960"
  moreover have "n div 4096 \<le> n" "n div 16384 \<le> n" "n div 33554432 \<le> n"
    by simp_all
  ultimately show "z_compressBound stored_zlib n < 2 ^ 31"
    unfolding stored_zlib_def by simp
qed


text \<open>A message without the two header bytes makes the receiver read past the end of its buffer, and
  the payload of an unknown compression type is written out undecoded.\<close>

theorem receiver_malformed:
  "receiver_decode z [] = Inl Out_Of_Bounds \<and> receiver_decode z [h] = Inl Out_Of_Bounds \<and>
   (3 < unat h \<longrightarrow> receiver_decode z (h # blank # payload) = Inr payload)"
  by (auto simp: receiver_decode_def comp_type_of_def)

theorem receiver_malformed_witness: "receiver_decode stored_zlib [4, 0, 1, 2] = Inr [1, 2]"
  using receiver_malformed [of stored_zlib 4 0 "[1, 2]"] by simp

end
