(* ===== verification/Bit_Buffer.thy ===== *)
theory Bit_Buffer
  imports Prelude
begin

text \<open>
  The bit buffers of \<^verbatim>\<open>include/srsran/adt/bit_buffer.h\<close> and the masks of
  \<^verbatim>\<open>include/srsran/adt/bounded_bitset.h\<close> they use: bits packed into bytes, most significant bit
  first. The code works on whole bytes with shifts and masks; its specification is about single
  bits. A failed \<^verbatim>\<open>srsran_assert\<close> is a failure.
\<close>

subsection \<open>Masks\<close>

definition mask_msb_zeros :: "nat \<Rightarrow> 'a::len word" where
  "mask_msb_zeros n = (if n = 0 then - 1 else if n = LENGTH('a) then 0 else drop_bit n (- 1))"

definition mask_lsb_ones :: "nat \<Rightarrow> 'a::len word" where
  "mask_lsb_ones n = mask_msb_zeros (LENGTH('a) - n)"

definition mask_msb_ones :: "nat \<Rightarrow> 'a::len word" where
  "mask_msb_ones n = NOT (mask_msb_zeros n)"

definition mask_lsb_zeros :: "nat \<Rightarrow> 'a::len word" where
  "mask_lsb_zeros n = NOT (mask_lsb_ones n)"

lemma bit_mask_msb_zeros:
  "n \<le> LENGTH('a) \<Longrightarrow> bit (mask_msb_zeros n :: 'a::len word) i \<longleftrightarrow> i < LENGTH('a) - n"
  by (auto simp: mask_msb_zeros_def bit_simps)

lemma bit_mask_lsb_ones:
  "n \<le> LENGTH('a) \<Longrightarrow> bit (mask_lsb_ones n :: 'a::len word) i \<longleftrightarrow> i < n"
  by (simp add: mask_lsb_ones_def bit_mask_msb_zeros)

lemma bit_mask_msb_ones:
  "n \<le> LENGTH('a) \<Longrightarrow> bit (mask_msb_ones n :: 'a::len word) i \<longleftrightarrow> LENGTH('a) - n \<le> i \<and> i < LENGTH('a)"
  by (auto simp: mask_msb_ones_def bit_simps bit_mask_msb_zeros)

lemma mask_lsb_ones_eq: "n \<le> LENGTH('a) \<Longrightarrow> (mask_lsb_ones n :: 'a::len word) = mask n"
  by (rule bit_word_eqI) (auto simp: bit_mask_lsb_ones bit_simps)

lemmas bit_masks = bit_mask_msb_zeros bit_mask_lsb_ones bit_mask_msb_ones

subsection \<open>The buffer\<close>

text \<open>\<open>bb_size\<close> is \<^verbatim>\<open>current_size\<close>, in bits.\<close>

record bit_buffer =
  bb_words :: "byte list"
  bb_size :: nat

definition bits_per_word :: nat where
  "bits_per_word = 8"

definition calculate_nof_words :: "nat \<Rightarrow> nat" where
  "calculate_nof_words nof_bits = (nof_bits + (bits_per_word - 1)) div bits_per_word"

definition nof_full_words :: "bit_buffer \<Rightarrow> nat" where
  "nof_full_words b = bb_size b div bits_per_word"

definition from_bytes :: "byte list \<Rightarrow> bit_buffer" where
  "from_bytes bs = \<lparr>bb_words = bs, bb_size = length bs * bits_per_word\<rparr>"

definition span_get :: "'a list \<Rightarrow> nat \<Rightarrow> 'a result" where
  "span_get xs i = (if i < length xs then Inr (xs ! i) else Inl Assertion_Failed)"

definition bb_extract :: "bit_buffer \<Rightarrow> nat \<Rightarrow> nat \<Rightarrow> byte result" where
  "bb_extract b startpos count =
     (if \<not> (count \<le> bits_per_word \<and> startpos + count \<le> bb_size b) then Inl Assertion_Failed
      else
        let start_word = startpos div bits_per_word;
            start_mod = startpos mod bits_per_word;
            buf = bb_words b
        in rbind (span_get buf start_word) (\<lambda>w0.
           if start_mod = 0 then Inr (drop_bit (bits_per_word - count) w0)
           else if start_mod + count \<le> bits_per_word
           then Inr (drop_bit (bits_per_word - start_mod - count) w0 AND mask_lsb_ones count)
           else rbind (span_get buf (start_word + 1)) (\<lambda>w1.
             let w = push_bit bits_per_word (ucast w0) OR ucast w1 :: u32;
                 w' = drop_bit (2 * bits_per_word - start_mod - count) w AND mask_lsb_ones count
             in Inr (ucast w'))))"

definition bb_get_byte :: "bit_buffer \<Rightarrow> nat \<Rightarrow> byte result" where
  "bb_get_byte b i = (if i < nof_full_words b then Inr (bb_words b ! i) else Inl Assertion_Failed)"

definition bb_set_byte :: "bit_buffer \<Rightarrow> byte \<Rightarrow> nat \<Rightarrow> bit_buffer result" where
  "bb_set_byte b v i =
     (if i < nof_full_words b then Inr (b\<lparr>bb_words := (bb_words b)[i := v]\<rparr>) else Inl Assertion_Failed)"

definition bb_zero :: "bit_buffer \<Rightarrow> bit_buffer" where
  "bb_zero b =
     (let n = calculate_nof_words (bb_size b)
      in b\<lparr>bb_words := replicate n 0 @ drop n (bb_words b)\<rparr>)"

definition bb_one :: "bit_buffer \<Rightarrow> bit_buffer" where
  "bb_one b =
     (let nof_full = nof_full_words b;
          val = of_nat (2 ^ bits_per_word - 1);
          buf = replicate nof_full val @ drop nof_full (bb_words b);
          tail_bits = bb_size b - nof_full * bits_per_word
      in if tail_bits = 0 then b\<lparr>bb_words := buf\<rparr>
         else b\<lparr>bb_words := buf[nof_full := push_bit (bits_per_word - tail_bits) (of_nat (2 ^ tail_bits - 1))]\<rparr>)"

definition bb_insert :: "bit_buffer \<Rightarrow> byte \<Rightarrow> nat \<Rightarrow> nat \<Rightarrow> bit_buffer result" where
  "bb_insert b value startpos count =
     (if \<not> (count \<le> bits_per_word \<and> unat value < 2 ^ count \<and> startpos + count \<le> bb_size b
            \<and> value \<le> mask_lsb_ones count)
      then Inl Assertion_Failed
      else
        let start_word = startpos div bits_per_word;
            start_mod = startpos mod bits_per_word;
            buf = bb_words b
        in rbind (span_get buf start_word) (\<lambda>w0.
           if start_mod = 0
           then Inr (b\<lparr>bb_words := buf[start_word :=
                  (w0 AND mask_msb_zeros count) OR push_bit (bits_per_word - count) value]\<rparr>)
           else if start_mod + count \<le> bits_per_word
           then Inr (b\<lparr>bb_words := buf[start_word :=
                  (w0 AND (mask_msb_ones start_mod OR mask_lsb_ones (bits_per_word - start_mod - count)))
                  OR push_bit (bits_per_word - start_mod - count) value]\<rparr>)
           else rbind (span_get buf (start_word + 1)) (\<lambda>w1.
                Inr (b\<lparr>bb_words := buf[start_word :=
                  (w0 AND mask_msb_ones start_mod) OR drop_bit (start_mod + count - bits_per_word) value,
                 start_word + 1 :=
                  (w1 AND mask_msb_zeros (start_mod + count - bits_per_word))
                    OR push_bit (2 * bits_per_word - start_mod - count) value]\<rparr>))))"

definition bb_first :: "bit_buffer \<Rightarrow> nat \<Rightarrow> bit_buffer result" where
  "bb_first b count = (if count \<le> bb_size b then Inr (b\<lparr>bb_size := count\<rparr>) else Inl Assertion_Failed)"

text \<open>\<^verbatim>\<open>size() - count\<close> is a \<^verbatim>\<open>size_t\<close>; the offset is then stored in an \<^verbatim>\<open>unsigned\<close>, and
  \<^verbatim>\<open>subspan\<close> asserts that its range is inside the span.\<close>

definition bb_last :: "bit_buffer \<Rightarrow> nat \<Rightarrow> bit_buffer result" where
  "bb_last b count =
     (let rest = (2 ^ 64 + bb_size b - count) mod 2 ^ 64;
          buffer_start = (rest div bits_per_word) mod 2 ^ 32;
          buffer_len = calculate_nof_words count
      in if rest mod bits_per_word \<noteq> 0 \<or> buffer_start + buffer_len > length (bb_words b)
         then Inl Assertion_Failed
         else Inr \<lparr>bb_words = take buffer_len (drop buffer_start (bb_words b)), bb_size = count\<rparr>)"

definition bb_equal :: "bit_buffer \<Rightarrow> bit_buffer \<Rightarrow> bool result" where
  "bb_equal b c =
     (if bb_size b \<noteq> bb_size c then Inr False
      else
        let n = bb_size b div bits_per_word;
            remainder = bb_size b - n * bits_per_word
        in if take n (bb_words b) \<noteq> take n (bb_words c) then Inr False
           else if remainder = 0 then Inr True
           else rbind (bb_extract b (bits_per_word * n) remainder) (\<lambda>x.
                rbind (bb_extract c (bits_per_word * n) remainder) (\<lambda>y. Inr (x = y))))"

subsection \<open>Specification: single bits\<close>

definition bbit :: "byte list \<Rightarrow> nat \<Rightarrow> bool" where
  "bbit buf i = bit (buf ! (i div 8)) (7 - i mod 8)"

definition bb_inv :: "bit_buffer \<Rightarrow> bool" where
  "bb_inv b \<longleftrightarrow> bb_size b \<le> 8 * length (bb_words b)"

lemma from_bytes_simps [simp]:
  "bb_words (from_bytes bs) = bs" "bb_size (from_bytes bs) = 8 * length bs" "bb_inv (from_bytes bs)"
  by (simp_all add: from_bytes_def bits_per_word_def bb_inv_def)

lemma bbit_update:
  "k < length buf \<Longrightarrow>
     bbit (buf[k := w]) i = (if i div 8 = k then bit w (7 - i mod 8) else bbit buf i)"
  by (simp add: bbit_def)

lemma bit_of_small: "unat (v :: byte) < 2 ^ n \<Longrightarrow> bit v i \<Longrightarrow> i < n"
proof (rule ccontr)
  assume small: "unat v < 2 ^ n" and bit: "bit v i" and "\<not> i < n"
  then have "unat v < 2 ^ i"
    using less_le_trans [OF small, of "2 ^ i"] by simp
  moreover have "bit (unat v) i"
    using bit by (simp add: bit_unsigned_iff)
  ultimately show False
    by (simp add: bit_iff_odd)
qed

lemma unat_mask: "n \<le> LENGTH('a) \<Longrightarrow> unat (mask n :: 'a::len word) = 2 ^ n - 1"
proof -
  assume "n \<le> LENGTH('a)"
  then have "unat (mask n :: 'a word) = mask n"
    by (intro bit_eqI) (auto simp: bit_unsigned_iff bit_simps)
  then show ?thesis
    by (simp add: mask_eq_exp_minus_1)
qed

lemma insert_guard:
  "count \<le> 8 \<Longrightarrow> unat (v :: byte) < 2 ^ count \<Longrightarrow> v \<le> mask_lsb_ones count"
  by (simp add: mask_lsb_ones_eq word_le_nat_alt unat_mask)

lemma bbit_at:
  assumes "p < 16"
  shows "bbit buf (8 * w + p) = (if p < 8 then bit (buf ! w) (7 - p) else bit (buf ! Suc w) (15 - p))"
proof (cases "p < 8")
  case False
  then have "(8 * w + p) div 8 = Suc w" "(8 * w + p) mod 8 = p - 8"
    using assms by (auto simp: le_mod_geq)
  then show ?thesis
    using False assms by (simp add: bbit_def)
qed (simp add: bbit_def)

text \<open>\<open>extract\<close> returns exactly the requested bits, in the low positions.\<close>

lemma bb_extract_bits:
  assumes "bb_inv b" "0 < count" "count \<le> 8" "start + count \<le> bb_size b"
  shows "\<exists>w. bb_extract b start count = Inr w \<and>
             (\<forall>j. bit w j \<longleftrightarrow> j < count \<and> bbit (bb_words b) (start + (count - 1 - j)))"
proof -
  define sw sm where "sw = start div 8" and "sm = start mod 8"
  have start: "start = 8 * sw + sm" "sm < 8"
    by (simp_all add: sw_def sm_def)
  have sw: "sw < length (bb_words b)" and sw1: "8 < sm + count \<Longrightarrow> Suc sw < length (bb_words b)"
    using assms start unfolding bb_inv_def by linarith+
  have pos: "bbit (bb_words b) (start + (count - 1 - j)) =
      (if sm + (count - 1 - j) < 8 then bit (bb_words b ! sw) (7 - (sm + (count - 1 - j)))
       else bit (bb_words b ! Suc sw) (15 - (sm + (count - 1 - j))))" for j
    unfolding start(1) add.assoc using start assms by (intro bbit_at) linarith
  show ?thesis
    unfolding bb_extract_def bits_per_word_def pos
    using assms sw sw1 start(2)
    by (auto simp: Let_def span_get_def bit_simps bit_masks simp flip: sw_def sm_def)
      (frule bit_imp_le_length, (subgoal_tac "j < count")?, simp, simp)+
qed

lemma bbit_update_range:
  assumes len: "length buf' = length buf"
    and other: "\<And>j. j \<noteq> k \<Longrightarrow> j \<noteq> Suc k \<Longrightarrow> buf' ! j = buf ! j"
    and here: "\<And>p. p < 16 \<Longrightarrow> bbit buf' (8 * k + p) =
      (if sm \<le> p \<and> p < sm + count then bit v (count - 1 - (p - sm)) else bbit buf (8 * k + p))"
    and range: "sm + count \<le> 16"
  shows "bbit buf' i = (if 8 * k + sm \<le> i \<and> i < 8 * k + sm + count
            then bit v (count - 1 - (i - (8 * k + sm))) else bbit buf i)"
proof (cases "8 * k \<le> i \<and> i < 8 * k + 16")
  case True
  then obtain p where "i = 8 * k + p" "p < 16"
    by (metis add_less_cancel_left le_iff_add)
  then show ?thesis
    using here [of p] by simp
next
  case False
  then have "i div 8 \<noteq> k" "i div 8 \<noteq> Suc k"
    by auto
  then have "bbit buf' i = bbit buf i"
    by (simp add: bbit_def other)
  then show ?thesis
    using False range by auto
qed

text \<open>\<open>insert\<close> writes exactly the requested bits and leaves every other bit of the buffer.\<close>

lemma bb_insert_bits:
  assumes "bb_inv b" "0 < count" "count \<le> 8" "unat v < 2 ^ count" "start + count \<le> bb_size b"
  shows "\<exists>b'. bb_insert b v start count = Inr b' \<and> bb_size b' = bb_size b \<and>
              length (bb_words b') = length (bb_words b) \<and>
              (\<forall>i. bbit (bb_words b') i =
                 (if start \<le> i \<and> i < start + count then bit v (count - 1 - (i - start))
                  else bbit (bb_words b) i))"
proof -
  define sw sm buf where "sw = start div 8" and "sm = start mod 8" and "buf = bb_words b"
  have start: "start = 8 * sw + sm" and sm: "sm < 8"
    by (simp_all add: sw_def sm_def)
  have sw: "sw < length buf" and sw1: "8 < sm + count \<Longrightarrow> Suc sw < length buf"
    using assms start unfolding bb_inv_def buf_def by linarith+
  have v: "bit v n \<Longrightarrow> n < count" for n
    using assms by (rule_tac bit_of_small)
  have guard: "v \<le> mask_lsb_ones count"
    using assms by (simp add: insert_guard)
  consider (aligned) "sm = 0" | (one) "0 < sm" "sm + count \<le> 8" | (two) "0 < sm" "8 < sm + count"
    by linarith
  then show ?thesis
  proof cases
    case aligned
    let ?w = "(buf ! sw AND mask_msb_zeros count) OR push_bit (8 - count) v"
    have "bbit (buf[sw := ?w]) (8 * sw + p) =
        (if sm \<le> p \<and> p < sm + count then bit v (count - 1 - (p - sm)) else bbit buf (8 * sw + p))"
      if "p < 16" for p
      using that aligned assms(2,3) sw
      by (auto simp: bbit_at bit_simps bit_masks)
    then have "bbit (buf[sw := ?w]) i =
        (if start \<le> i \<and> i < start + count then bit v (count - 1 - (i - start)) else bbit buf i)" for i
      unfolding start using sm assms by (intro bbit_update_range) auto
    then show ?thesis
      using assms guard sw aligned
      by (simp add: bb_insert_def bits_per_word_def Let_def span_get_def flip: sw_def sm_def buf_def)
  next
    case one
    let ?w = "(buf ! sw AND (mask_msb_ones sm OR mask_lsb_ones (8 - sm - count))) OR push_bit (8 - sm - count) v"
    have "bbit (buf[sw := ?w]) (8 * sw + p) =
        (if sm \<le> p \<and> p < sm + count then bit v (count - 1 - (p - sm)) else bbit buf (8 * sw + p))"
      if "p < 16" for p
      using that one assms(2,3) sw
      by (auto simp: bbit_at bit_simps bit_masks add.commute [of count sm] dest: v)
    then have "bbit (buf[sw := ?w]) i =
        (if start \<le> i \<and> i < start + count then bit v (count - 1 - (i - start)) else bbit buf i)" for i
      unfolding start using sm assms by (intro bbit_update_range) auto
    then show ?thesis
      using assms guard sw one
      by (simp add: bb_insert_def bits_per_word_def Let_def span_get_def flip: sw_def sm_def buf_def)
  next
    case two
    let ?w = "(buf ! sw AND mask_msb_ones sm) OR drop_bit (sm + count - 8) v"
    let ?w1 = "(buf ! Suc sw AND mask_msb_zeros (sm + count - 8)) OR push_bit (16 - sm - count) v"
    have "bbit (buf[sw := ?w, Suc sw := ?w1]) (8 * sw + p) =
        (if sm \<le> p \<and> p < sm + count then bit v (count - 1 - (p - sm)) else bbit buf (8 * sw + p))"
      if "p < 16" for p
      using that two assms(2,3) sw sw1 sm
      by (auto simp: bbit_at bit_simps bit_masks add.commute [of count sm] dest: v)
    then have "bbit (buf[sw := ?w, Suc sw := ?w1]) i =
        (if start \<le> i \<and> i < start + count then bit v (count - 1 - (i - start)) else bbit buf i)" for i
      unfolding start using sm assms by (intro bbit_update_range) auto
    then show ?thesis
      using assms guard sw sw1 two
      by (simp add: bb_insert_def bits_per_word_def Let_def span_get_def flip: sw_def sm_def buf_def)
  qed
qed

subsection \<open>Properties\<close>

text \<open>C27. \<open>insert\<close> succeeds on a range inside the buffer when the value fits, writes the value's bits into
  exactly that range, most significant first, and leaves every other bit as it was.\<close>

theorem insert_writes_exactly_range:
  assumes "bb_inv b" "0 < count" "count \<le> 8" "unat v < 2 ^ count" "start + count \<le> bb_size b"
  shows "\<exists>b'. bb_insert b v start count = Inr b' \<and> bb_size b' = bb_size b \<and>
              length (bb_words b') = length (bb_words b) \<and>
              (\<forall>i. bbit (bb_words b') i =
                 (if start \<le> i \<and> i < start + count then bit v (count - 1 - (i - start))
                  else bbit (bb_words b) i))"
  using assms by (rule bb_insert_bits)

theorem insert_writes_exactly_range_witness:
  "\<exists>b'. bb_insert (from_bytes [0xFF, 0xFF]) 0 6 4 = Inr b' \<and> bbit (bb_words b') 5 \<and> \<not> bbit (bb_words b') 6"
proof -
  have "bbit [0xFF, 0xFF] 5"
    by (simp add: bbit_def)
  then show ?thesis
    using insert_writes_exactly_range [of "from_bytes [0xFF, 0xFF]" 4 0 6] by auto
qed

text \<open>\<open>extract\<close> succeeds on a range inside the buffer and returns its bits, the last one lowest, with
  zeros above.\<close>

theorem extract_reads_range:
  assumes "bb_inv b" "0 < count" "count \<le> 8" "start + count \<le> bb_size b"
  shows "\<exists>w. bb_extract b start count = Inr w \<and>
             (\<forall>j. bit w j \<longleftrightarrow> j < count \<and> bbit (bb_words b) (start + (count - 1 - j)))"
  using assms by (rule bb_extract_bits)

theorem extract_reads_range_witness:
  "\<exists>w. bb_extract (from_bytes [0x03, 0x80]) 6 3 = Inr w \<and> bit w 0 = bbit [0x03, 0x80] 8"
  using extract_reads_range [of "from_bytes [0x03, 0x80]" 3 6] by auto

end
