(* ===== verification/Ofh_Compression.thy ===== *)
theory Ofh_Compression
  imports Bit_Buffer Bfp Fp
begin

text \<open>
  The Open Fronthaul IQ compression of \<^verbatim>\<open>lib/ofh/compression\<close>: the bit packing
  (\<^verbatim>\<open>packing_utils_generic.cpp\<close>), the compression parameters, the block floating point codec
  (\<^verbatim>\<open>iq_compression_bfp_impl\<close>) and the quantiser's sign extension, on the quantised 16-bit
  samples. An \<^verbatim>\<open>int16_t\<close> is a 16-bit word read with \<^term>\<open>sint\<close>; a right shift of one is
  arithmetic.
\<close>

type_synonym i16 = "16 word"

subsection \<open>Parameters\<close>

datatype compression_type =
  compr_none | compr_BFP | compr_block_scaling | compr_mu_law | compr_modulation
  | compr_bfp_selective | compr_mod_selective | compr_reserved

record ru_compression_params =
  rcp_type :: compression_type
  rcp_data_width :: nat

definition MAX_IQ_WIDTH :: nat where
  "MAX_IQ_WIDTH = 16"

definition NOF_SUBCARRIERS_PER_RB :: nat where
  "NOF_SUBCARRIERS_PER_RB = 12"

definition MAX_NOF_PRBS :: nat where
  "MAX_NOF_PRBS = 275"

definition NOF_SAMPLES_PER_PRB :: nat where
  "NOF_SAMPLES_PER_PRB = 2 * NOF_SUBCARRIERS_PER_RB"

fun compression_to_value :: "compression_type \<Rightarrow> nat" where
  "compression_to_value compr_none = 0"
| "compression_to_value compr_BFP = 1"
| "compression_to_value compr_block_scaling = 2"
| "compression_to_value compr_mu_law = 3"
| "compression_to_value compr_modulation = 4"
| "compression_to_value compr_bfp_selective = 5"
| "compression_to_value compr_mod_selective = 6"
| "compression_to_value compr_reserved = 7"

text \<open>The cast of the source is the inverse of the numbering on the values below \<open>reserved\<close>.\<close>

definition to_compression_type :: "nat \<Rightarrow> compression_type" where
  "to_compression_type v =
     (if v < compression_to_value compr_reserved
      then [compr_none, compr_BFP, compr_block_scaling, compr_mu_law, compr_modulation,
            compr_bfp_selective, compr_mod_selective] ! v
      else compr_reserved)"

definition is_compression_param_present :: "compression_type \<Rightarrow> bool" where
  "is_compression_param_present t \<longleftrightarrow>
     t = compr_BFP \<or> t = compr_mu_law \<or> t = compr_bfp_selective \<or> t = compr_mod_selective"

definition get_compressed_prb_size :: "ru_compression_params \<Rightarrow> nat" where
  "get_compressed_prb_size params =
     (let prb_size = NOF_SUBCARRIERS_PER_RB * 2 * rcp_data_width params;
          prb_size = (if is_compression_param_present (rcp_type params) then prb_size + 8 else prb_size)
      in (prb_size + 7) div 8)"

lemma to_compression_type_inverse: "to_compression_type (compression_to_value t) = t"
  by (cases t) (simp_all add: to_compression_type_def)

subsection \<open>Packing\<close>

function pack_sample :: "bit_buffer \<Rightarrow> i16 \<Rightarrow> nat \<Rightarrow> nat \<Rightarrow> (bit_buffer \<times> nat) result" where
  "pack_sample buffer sample start_pos left_to_pack =
     (if left_to_pack = 0 then Inr (buffer, start_pos)
      else
        let nbits = min 8 left_to_pack;
            masked = (if left_to_pack > 8 then ucast (signed_drop_bit (left_to_pack - 8) sample)
                      else ucast (sample AND 0x00FF));
            sample' = (if left_to_pack > 8 then sample AND mask_lsb_ones (left_to_pack - 8) else sample)
        in rbind (bb_insert buffer masked start_pos nbits) (\<lambda>buffer'.
             pack_sample buffer' sample' (start_pos + nbits) (left_to_pack - nbits)))"
  by pat_completeness auto
termination
  by (relation "measure (\<lambda>(buffer, sample, start_pos, left). left)") auto

declare pack_sample.simps [simp del]

fun pack_samples :: "bit_buffer \<Rightarrow> i16 list \<Rightarrow> nat \<Rightarrow> nat \<Rightarrow> (bit_buffer \<times> nat) result" where
  "pack_samples buffer [] start_pos iq_width = Inr (buffer, start_pos)"
| "pack_samples buffer (sample # samples) start_pos iq_width =
     rbind (pack_sample buffer sample start_pos iq_width) (\<lambda>(buffer', start_pos').
       pack_samples buffer' samples start_pos' iq_width)"

definition pack_bytes :: "bit_buffer \<Rightarrow> i16 list \<Rightarrow> nat \<Rightarrow> bit_buffer result" where
  "pack_bytes buffer compressed_iq iq_width =
     rbind (pack_samples buffer compressed_iq 0 iq_width) (\<lambda>(buffer', start_pos).
       if start_pos mod 8 \<noteq> 0 then bb_insert buffer' 0 start_pos (8 - start_pos mod 8)
       else Inr buffer')"

function unpack_loop :: "bit_buffer \<Rightarrow> nat \<Rightarrow> nat \<Rightarrow> i16 \<Rightarrow> i16 result" where
  "unpack_loop buffer offset bits_left value =
     (if bits_left = 0 then Inr value
      else if bits_left > 8 then
        rbind (bb_extract buffer offset 8) (\<lambda>w.
          unpack_loop buffer (offset + 8) (bits_left - 8) (push_bit (bits_left - 8) (ucast w)))
      else
        rbind (bb_extract buffer offset bits_left) (\<lambda>w.
          unpack_loop buffer offset 0 (value OR ucast w)))"
  by pat_completeness auto
termination
  by (relation "measure (\<lambda>(buffer, offset, left, value). left)") auto

declare unpack_loop.simps [simp del]

definition unpack_bits :: "bit_buffer \<Rightarrow> nat \<Rightarrow> nat \<Rightarrow> i16 result" where
  "unpack_bits buffer offset len = unpack_loop buffer offset len 0"

subsection \<open>What packing writes\<close>

text \<open>\<open>wrote b start n f b'\<close>: \<open>b'\<close> is \<open>b\<close> with the \<open>n\<close> bits from \<open>start\<close> on replaced by \<open>f\<close>.\<close>

definition wrote :: "bit_buffer \<Rightarrow> nat \<Rightarrow> nat \<Rightarrow> (nat \<Rightarrow> bool) \<Rightarrow> bit_buffer \<Rightarrow> bool" where
  "wrote b start n f b' \<longleftrightarrow>
     bb_inv b' \<and> bb_size b' = bb_size b \<and> length (bb_words b') = length (bb_words b) \<and>
     (\<forall>i. bbit (bb_words b') i =
        (if start \<le> i \<and> i < start + n then f (i - start) else bbit (bb_words b) i))"

lemma wroteD:
  assumes "wrote b start n f b'"
  shows "bb_inv b'" "bb_size b' = bb_size b" "length (bb_words b') = length (bb_words b)"
    "bbit (bb_words b') i = (if start \<le> i \<and> i < start + n then f (i - start) else bbit (bb_words b) i)"
  using assms by (auto simp: wrote_def)

lemma wrote_none: "bb_inv b \<Longrightarrow> wrote b start 0 f b"
  by (auto simp: wrote_def)

lemma wrote_append:
  assumes "wrote b start n f b1" "wrote b1 (start + n) m g b2"
  shows "wrote b start (n + m) (\<lambda>k. if k < n then f k else g (k - n)) b2"
  using assms by (auto simp: wrote_def)

lemma wrote_cong: "wrote b start n f b' \<Longrightarrow> (\<And>k. k < n \<Longrightarrow> f k = g k) \<Longrightarrow> wrote b start n g b'"
  by (auto simp: wrote_def)

lemma bb_insert_wrote:
  assumes "bb_inv b" "0 < count" "count \<le> 8" "unat v < 2 ^ count" "start + count \<le> bb_size b"
  obtains b' where "bb_insert b v start count = Inr b'" "wrote b start count (\<lambda>k. bit v (count - 1 - k)) b'"
  using bb_insert_bits [OF assms] assms(1) unfolding wrote_def bb_inv_def by auto

lemma unat_less_of_bits:
  "n \<le> LENGTH('a) \<Longrightarrow> (\<And>i. bit (v :: 'a::len word) i \<Longrightarrow> i < n) \<Longrightarrow> unat v < 2 ^ n"
proof -
  assume n: "n \<le> LENGTH('a)" and bits: "\<And>i. bit v i \<Longrightarrow> i < n"
  have "v = take_bit n v"
    by (rule bit_word_eqI) (use bits in \<open>auto simp: bit_simps\<close>)
  then have "unat v = take_bit n (unat v)"
    by (metis unsigned_take_bit_eq)
  then show ?thesis
    by (metis take_bit_nat_less_exp)
qed

lemma and_low_byte: "ucast ((s :: i16) AND 0x00FF) = (ucast s :: byte)"
proof -
  have low: "(0x00FF :: i16) = mask 8"
    by (simp add: mask_eq_exp_minus_1)
  show ?thesis
    unfolding low by (auto intro!: bit_word_eqI simp: bit_simps)
qed

lemma pack_sample_wrote:
  assumes "bb_inv b" "8 \<le> w" "w \<le> 16" "start + w \<le> bb_size b"
  obtains b' where "pack_sample b s start w = Inr (b', start + w)"
    "wrote b start w (\<lambda>k. bit s (w - 1 - k)) b'"
proof (cases "w = 8")
  case True
  have v: "unat (ucast s :: byte) < 2 ^ 8"
    by (rule unat_less_of_bits) (auto simp: bit_simps)
  obtain b' where ins: "bb_insert b (ucast s) start 8 = Inr b'"
    and w: "wrote b start 8 (\<lambda>k. bit (ucast s :: byte) (8 - 1 - k)) b'"
    by (rule bb_insert_wrote [OF assms(1) _ _ v]) (use assms True in auto)
  have "pack_sample b s start w = Inr (b', start + w)"
    using True by (simp add: pack_sample.simps [of _ _ _ 8] pack_sample.simps [of _ _ _ 0] and_low_byte ins)
  moreover have "wrote b start w (\<lambda>k. bit s (w - 1 - k)) b'"
    unfolding True by (rule wrote_cong [OF w]) (auto simp: bit_simps)
  ultimately show ?thesis
    by (rule that)
next
  case False
  define hi lo where "hi = (ucast (signed_drop_bit (w - 8) s) :: byte)"
    and "lo = (ucast (s AND mask_lsb_ones (w - 8)) :: byte)"
  have hi: "unat hi < 2 ^ 8"
    by (rule unat_less_of_bits) (auto simp: hi_def bit_simps)
  have lo: "unat lo < 2 ^ (w - 8)"
    by (rule unat_less_of_bits) (use assms in \<open>auto simp: lo_def bit_simps bit_masks\<close>)
  obtain b1 where ins1: "bb_insert b hi start 8 = Inr b1"
    and w1: "wrote b start 8 (\<lambda>k. bit hi (8 - 1 - k)) b1"
    by (rule bb_insert_wrote [OF assms(1) _ _ hi]) (use assms in auto)
  obtain b2 where ins2: "bb_insert b1 lo (start + 8) (w - 8) = Inr b2"
    and w2: "wrote b1 (start + 8) (w - 8) (\<lambda>k. bit lo (w - 8 - 1 - k)) b2"
    by (rule bb_insert_wrote [OF wroteD(1) [OF w1] _ _ lo]) (use assms False wroteD(2) [OF w1] in auto)
  have m: "min 8 (w - 8) = w - 8" "min 8 w = 8" "\<not> 8 < w - 8" "8 < w"
    using assms False by auto
  have "pack_sample b s start w = Inr (b2, start + w)"
    using assms m ins1 ins2 unfolding hi_def lo_def
    by (simp add: pack_sample.simps [of _ _ _ w] pack_sample.simps [of _ _ _ "w - 8"]
        pack_sample.simps [of _ _ _ 0] and_low_byte)
  moreover have "wrote b start w (\<lambda>k. bit s (w - 1 - k)) b2"
  proof (rule wrote_cong)
    show "wrote b start w (\<lambda>k. if k < 8 then bit hi (8 - 1 - k) else bit lo (w - 8 - 1 - (k - 8))) b2"
      using wrote_append [OF w1 w2] assms by simp
    show "(if k < 8 then bit hi (8 - 1 - k) else bit lo (w - 8 - 1 - (k - 8))) = bit s (w - 1 - k)"
      if "k < w" for k
      using that assms m by (auto simp: hi_def lo_def bit_simps bit_masks)
  qed
  ultimately show ?thesis
    by (rule that)
qed

lemma pack_samples_wrote:
  assumes "bb_inv b" "8 \<le> w" "w \<le> 16" "start + length ss * w \<le> bb_size b"
  shows "\<exists>b'. pack_samples b ss start w = Inr (b', start + length ss * w) \<and>
           wrote b start (length ss * w) (\<lambda>k. bit (ss ! (k div w)) (w - 1 - k mod w)) b'"
  using assms
proof (induction ss arbitrary: b start)
  case Nil
  then show ?case
    by (simp add: wrote_none)
next
  case (Cons s ss)
  obtain b1 where p1: "pack_sample b s start w = Inr (b1, start + w)"
    and w1: "wrote b start w (\<lambda>k. bit s (w - 1 - k)) b1"
    by (rule pack_sample_wrote [of b w start s]) (use Cons.prems in auto)
  obtain b2 where p2: "pack_samples b1 ss (start + w) w = Inr (b2, start + w + length ss * w)"
    and w2: "wrote b1 (start + w) (length ss * w) (\<lambda>k. bit (ss ! (k div w)) (w - 1 - k mod w)) b2"
    using Cons.IH [of b1 "start + w"] Cons.prems wroteD [OF w1] by (auto simp: add.assoc)
  have "wrote b start (w + length ss * w) (\<lambda>k. bit ((s # ss) ! (k div w)) (w - 1 - k mod w)) b2"
  proof (rule wrote_cong [OF wrote_append [OF w1 w2]])
    show "(if k < w then bit s (w - 1 - k) else bit (ss ! ((k - w) div w)) (w - 1 - (k - w) mod w)) =
        bit ((s # ss) ! (k div w)) (w - 1 - k mod w)" for k
      using Cons.prems by (auto simp: le_div_geq le_mod_geq)
  qed
  then show ?case
    using p1 p2 by (simp add: add.assoc)
qed

lemma pad_bound: "(n :: nat) \<le> 8 * m \<Longrightarrow> n mod 8 \<noteq> 0 \<Longrightarrow> n + (8 - n mod 8) \<le> 8 * m"
proof -
  assume n: "n \<le> 8 * m" "n mod 8 \<noteq> 0"
  have eq: "n = 8 * (n div 8) + n mod 8" and "n mod 8 < 8"
    by simp_all
  moreover have "n div 8 < m"
    using n eq by linarith
  ultimately show ?thesis
    by linarith
qed

text \<open>Packing succeeds, and from the first bit on the buffer holds the low \<open>w\<close> bits of the samples.\<close>

lemma pack_bytes_bits:
  assumes "8 \<le> w" "w \<le> 16" "length ss * w \<le> 8 * length bs"
  shows "\<exists>bs'. pack_bytes (from_bytes bs) ss w = Inr (from_bytes bs') \<and> length bs' = length bs \<and>
           (\<forall>k < length ss. \<forall>j < w. bbit bs' (k * w + j) = bit (ss ! k) (w - 1 - j))"
proof -
  let ?n = "length ss * w"
  obtain b1 where p1: "pack_samples (from_bytes bs) ss 0 w = Inr (b1, ?n)"
    and w1: "wrote (from_bytes bs) 0 ?n (\<lambda>k. bit (ss ! (k div w)) (w - 1 - k mod w)) b1"
    using pack_samples_wrote [of "from_bytes bs" w 0 ss] assms by auto
  note b1 = wroteD [OF w1]
  have "\<exists>b2. pack_bytes (from_bytes bs) ss w = Inr b2 \<and> bb_size b2 = bb_size b1 \<and>
          length (bb_words b2) = length bs \<and> (\<forall>i < ?n. bbit (bb_words b2) i = bbit (bb_words b1) i)"
  proof (cases "?n mod 8 = 0")
    case True
    then show ?thesis
      using p1 b1(3) by (simp add: pack_bytes_def)
  next
    case False
    have "?n + (8 - ?n mod 8) \<le> 8 * length bs"
      using pad_bound assms(3) False by blast
    then have "?n + (8 - ?n mod 8) \<le> bb_size b1" "0 < 8 - ?n mod 8" "8 - ?n mod 8 \<le> 8"
        "unat (0 :: byte) < 2 ^ (8 - ?n mod 8)"
      using b1(2) by simp_all
    then obtain b2 where "bb_insert b1 0 ?n (8 - ?n mod 8) = Inr b2"
      and w2: "wrote b1 ?n (8 - ?n mod 8) (\<lambda>k. bit (0 :: byte) (8 - ?n mod 8 - 1 - k)) b2"
      using bb_insert_wrote [OF b1(1)] by metis
    moreover have "bbit (bb_words b2) i = bbit (bb_words b1) i" if "i < ?n" for i
      using wroteD(4) [OF w2, of i] that by simp
    ultimately show ?thesis
      using p1 False wroteD(2,3) [OF w2] b1(3) by (intro exI [of _ b2]) (simp add: pack_bytes_def)
  qed
  then obtain b2 where p2: "pack_bytes (from_bytes bs) ss w = Inr b2" and s2: "bb_size b2 = bb_size b1"
    and l2: "length (bb_words b2) = length bs" and bits: "\<forall>i < ?n. bbit (bb_words b2) i = bbit (bb_words b1) i"
    by blast
  have "from_bytes (bb_words b2) = b2"
    using s2 l2 b1(2) by (simp add: from_bytes_def bits_per_word_def)
  moreover have "bbit (bb_words b2) (k * w + j) = bit (ss ! k) (w - 1 - j)" if "k < length ss" "j < w" for k j
  proof -
    have "(k + 1) * w \<le> ?n"
      using that by (intro mult_right_mono) auto
    then have "k * w + j < ?n"
      using that by simp
    moreover have "(k * w + j) div w = k" "(k * w + j) mod w = j"
      using that by simp_all
    ultimately show ?thesis
      using bits b1(4) [of "k * w + j"] by simp
  qed
  ultimately show ?thesis
    using p2 l2 by (intro exI [of _ "bb_words b2"]) auto
qed

lemma bb_extract_obtain:
  assumes "bb_inv b" "0 < count" "count \<le> 8" "start + count \<le> bb_size b"
  obtains w where "bb_extract b start count = Inr w"
    "\<And>j. bit w j \<longleftrightarrow> j < count \<and> bbit (bb_words b) (start + (count - 1 - j))"
  using bb_extract_bits [OF assms] by blast

lemma unpack_bits_bits:
  assumes "bb_inv b" "0 < len" "len \<le> 16" "off + len \<le> bb_size b"
  shows "\<exists>v. unpack_bits b off len = Inr v \<and>
           (\<forall>j. bit v j \<longleftrightarrow> j < len \<and> bbit (bb_words b) (off + (len - 1 - j)))"
proof (cases "len \<le> 8")
  case True
  then show ?thesis
    using bb_extract_bits [of b len off] assms
    by (auto simp: unpack_bits_def unpack_loop.simps [of _ _ len] unpack_loop.simps [of _ _ 0] bit_simps)
next
  case False
  obtain hi where hi: "bb_extract b off 8 = Inr hi"
    "\<And>j. bit hi j \<longleftrightarrow> j < 8 \<and> bbit (bb_words b) (off + (8 - 1 - j))"
    by (rule bb_extract_obtain [of b 8 off]) (use assms False in auto)
  obtain lo where lo: "bb_extract b (off + 8) (len - 8) = Inr lo"
    "\<And>j. bit lo j \<longleftrightarrow> j < len - 8 \<and> bbit (bb_words b) (off + 8 + (len - 8 - 1 - j))"
    by (rule bb_extract_obtain [of b "len - 8" "off + 8"]) (use assms False in auto)
  have m: "8 < len" "0 < len - 8" "\<not> 8 < len - 8"
    using assms False by auto
  have "unpack_bits b off len = Inr (push_bit (len - 8) (ucast hi) OR ucast lo)"
    using m hi lo by (simp add: unpack_bits_def unpack_loop.simps [of _ _ len] unpack_loop.simps [of _ _ "len - 8"]
        unpack_loop.simps [of _ _ 0])
  moreover have "bit (push_bit (len - 8) (ucast hi) OR ucast lo :: i16) j \<longleftrightarrow>
      j < len \<and> bbit (bb_words b) (off + (len - 1 - j))" for j
    using assms m by (cases "j < len - 8") (auto simp: bit_simps hi(2) lo(2))
  ultimately show ?thesis
    by blast
qed

subsection \<open>Block floating point\<close>

definition determine_exponent :: "u16 \<Rightarrow> nat \<Rightarrow> nat result" where
  "determine_exponent x data_width =
     (if data_width = 0 \<or> data_width > MAX_IQ_WIDTH then Inl Assertion_Failed
      else
        let max_shift = of_nat (MAX_IQ_WIDTH - data_width) :: u32;
            lz_without_sign =
              (if x > 0 \<and> max_shift > 0 then of_nat (clz32 (ucast x)) - 16 - 1 else max_shift);
            raw_exp = sint (min max_shift lz_without_sign)
        in Inr (nat (max 0 (int (MAX_IQ_WIDTH - data_width) - raw_exp))))"

definition max_element :: "i16 list \<Rightarrow> int" where
  "max_element xs = foldl (\<lambda>m x. if m < sint x then sint x else m) (sint (hd xs)) (tl xs)"

definition min_element :: "i16 list \<Rightarrow> int" where
  "min_element xs = foldl (\<lambda>m x. if sint x < m then sint x else m) (sint (hd xs)) (tl xs)"

definition prb_max_abs :: "i16 list \<Rightarrow> int" where
  "prb_max_abs smp = max \<bar>max_element smp\<bar> (\<bar>min_element smp\<bar> - 1)"

text \<open>The compressed block overwrites the whole span: the exponent byte, then the packed samples.
  The samples are the \<^verbatim>\<open>NOF_SAMPLES_PER_PRB\<close> quantised values of the block.\<close>

definition compress_prb_generic :: "byte list \<Rightarrow> i16 list \<Rightarrow> nat \<Rightarrow> byte list result" where
  "compress_prb_generic comp_prb_buffer input_quantized data_width =
     (if length input_quantized < NOF_SAMPLES_PER_PRB then Inl Out_Of_Bounds
      else
        let smp = take NOF_SAMPLES_PER_PRB input_quantized
        in rbind (determine_exponent (word_of_int (prb_max_abs smp)) data_width) (\<lambda>e.
             let exponent = of_nat e :: byte;
                 compressed_samples = map (signed_drop_bit (unat exponent)) smp
             in case comp_prb_buffer of
                  [] \<Rightarrow> Inl Out_Of_Bounds
                | _ # rest \<Rightarrow>
                    rbind (pack_bytes (from_bytes rest) compressed_samples data_width) (\<lambda>buffer.
                      Inr (exponent # bb_words buffer))))"

text \<open>The loop of \<^verbatim>\<open>compress\<close> over the blocks, from the quantised samples on: block \<open>i\<close> is written at
  \<open>i * prb_size\<close>.\<close>

fun ofh_compress_loop :: "byte list \<Rightarrow> i16 list \<Rightarrow> nat \<Rightarrow> nat \<Rightarrow> nat \<Rightarrow> nat \<Rightarrow> byte list result" where
  "ofh_compress_loop buffer input_quantized prb_size data_width i 0 = Inr buffer"
| "ofh_compress_loop buffer input_quantized prb_size data_width i (Suc n) =
     rbind (compress_prb_generic (take prb_size (drop (i * prb_size) buffer))
              (take NOF_SAMPLES_PER_PRB (drop (NOF_SAMPLES_PER_PRB * i) input_quantized)) data_width) (\<lambda>prb.
       ofh_compress_loop (take (i * prb_size) buffer @ prb @ drop ((i + 1) * prb_size) buffer)
         input_quantized prb_size data_width (i + 1) n)"

definition ofh_bfp_compress :: "byte list \<Rightarrow> i16 list \<Rightarrow> ru_compression_params \<Rightarrow> byte list result" where
  "ofh_bfp_compress buffer input_quantized params =
     (let nof_prbs = (length input_quantized div 2) div NOF_SUBCARRIERS_PER_RB;
          prb_size = get_compressed_prb_size params
      in if length buffer < prb_size * nof_prbs then Inl Assertion_Failed
         else if NOF_SAMPLES_PER_PRB * MAX_NOF_PRBS < length input_quantized then Inl Out_Of_Bounds
         else ofh_compress_loop buffer input_quantized prb_size (rcp_data_width params) 0 nof_prbs)"

definition sign_extend :: "nat \<Rightarrow> i16 \<Rightarrow> i16" where
  "sign_extend bit_width value =
     (let nbits_shift_sign = 16 - bit_width;
          shifted = push_bit nbits_shift_sign value
      in signed_drop_bit nbits_shift_sign shifted)"

definition quantizer_gain :: "nat \<Rightarrow> rat" where
  "quantizer_gain bit_width = 2 ^ (bit_width - 1) - 1"

definition quantizer_to_float :: "nat \<Rightarrow> int \<Rightarrow> rat" where
  "quantizer_to_float bit_width p = float_of (float_of (of_int p) / quantizer_gain bit_width)"

text \<open>The output samples are the floats before the conversion to \<^verbatim>\<open>cbf16_t\<close>. \<open>scaler\<close> is an
  \<^verbatim>\<open>int16_t\<close>; a shift of 32 or more is undefined.\<close>

fun decompress_samples :: "bit_buffer \<Rightarrow> int \<Rightarrow> nat \<Rightarrow> nat \<Rightarrow> nat \<Rightarrow> (rat \<times> rat) list result" where
  "decompress_samples reader scaler data_width read_pos 0 = Inr []"
| "decompress_samples reader scaler data_width read_pos (Suc n) =
     rbind (unpack_bits reader read_pos data_width) (\<lambda>re.
     rbind (unpack_bits reader (read_pos + data_width) data_width) (\<lambda>im.
     rbind (decompress_samples reader scaler data_width (read_pos + data_width * 2) n) (\<lambda>rest.
       Inr ((quantizer_to_float 16 (sint (sign_extend data_width re) * scaler),
             quantizer_to_float 16 (sint (sign_extend data_width im) * scaler)) # rest))))"

definition decompress_prb_generic :: "byte list \<Rightarrow> nat \<Rightarrow> (rat \<times> rat) list result" where
  "decompress_prb_generic comp_prb data_width =
     (case comp_prb of
        [] \<Rightarrow> Inl Assertion_Failed
      | exponent # rest \<Rightarrow>
          if unat exponent \<ge> 32 then Inl Out_Of_Bounds
          else let scaler = sint (word_of_int (2 ^ unat exponent) :: i16)
               in decompress_samples (from_bytes rest) scaler data_width 0 NOF_SUBCARRIERS_PER_RB)"

fun ofh_decompress_loop :: "byte list \<Rightarrow> nat \<Rightarrow> nat \<Rightarrow> nat \<Rightarrow> nat \<Rightarrow> (rat \<times> rat) list result" where
  "ofh_decompress_loop compressed_data prb_size data_width i 0 = Inr []"
| "ofh_decompress_loop compressed_data prb_size data_width i (Suc n) =
     rbind (decompress_prb_generic (take prb_size (drop (i * prb_size) compressed_data)) data_width) (\<lambda>prb.
     rbind (ofh_decompress_loop compressed_data prb_size data_width (i + 1) n) (\<lambda>rest.
       Inr (prb @ rest)))"

definition ofh_bfp_decompress :: "nat \<Rightarrow> byte list \<Rightarrow> ru_compression_params \<Rightarrow> (rat \<times> rat) list result" where
  "ofh_bfp_decompress nof_prbs compressed_data params =
     (let prb_size = get_compressed_prb_size params
      in if length compressed_data < nof_prbs * prb_size then Inl Assertion_Failed
         else ofh_decompress_loop compressed_data prb_size (rcp_data_width params) 0 nof_prbs)"

subsection \<open>The exponent\<close>

lemma le_unat_of_bit: "bit (v :: 'a::len word) n \<Longrightarrow> 2 ^ n \<le> unat v"
proof (rule ccontr)
  assume bit: "bit v n" and "\<not> 2 ^ n \<le> unat v"
  then have "\<not> bit (unat v) n"
    by (simp add: bit_iff_odd)
  with bit show False
    by (simp add: bit_unsigned_iff)
qed

lemma clz32_spec:
  assumes "x \<noteq> 0"
  shows "\<exists>len. clz32 x = 32 - len \<and> 1 \<le> len \<and> len \<le> 32 \<and> unat x < 2 ^ len \<and> 2 ^ (len - 1) \<le> unat x"
proof -
  let ?xs = "rev [0..<32::nat]" and ?P = "\<lambda>i. \<not> bit x i"
  define k where "k = length (takeWhile ?P ?xs)"
  have "\<exists>n. bit x n"
  proof (rule ccontr)
    assume "\<nexists>n. bit x n"
    then have "x = 0"
      by (intro bit_word_eqI) simp
    with assms show False ..
  qed
  then obtain n where n: "bit x n" "n < 32"
    using bit_imp_le_length [of x] by auto
  have k: "k < 32"
  proof -
    have "takeWhile ?P ?xs \<noteq> ?xs"
      using n by (metis atLeastLessThan_iff le0 set_rev set_takeWhileD set_upt)
    then have "length (takeWhile ?P ?xs) \<noteq> length ?xs"
      by (metis length_takeWhile_le takeWhile_eq_take take_all_iff order_refl)
    then show ?thesis
      using length_takeWhile_le [of ?P ?xs] by (simp add: k_def)
  qed
  have "bit x (31 - k)"
    using nth_length_takeWhile [of ?P ?xs] k by (simp add: k_def rev_nth)
  moreover have "\<not> bit x (31 - i)" if "i < k" for i
  proof -
    have "takeWhile ?P ?xs ! i = 31 - i"
      using that k by (simp add: takeWhile_nth k_def rev_nth)
    moreover have "takeWhile ?P ?xs ! i \<in> set (takeWhile ?P ?xs)"
      using that by (intro nth_mem) (simp add: k_def)
    ultimately show ?thesis
      by (metis set_takeWhileD)
  qed
  then have "j < 32 - k" if "bit x j" for j
  proof (rule_tac ccontr)
    assume *: "\<And>i. i < k \<Longrightarrow> \<not> bit x (31 - i)" and "\<not> j < 32 - k"
    moreover have "j < 32"
      using that by (auto dest: bit_imp_le_length)
    ultimately have "31 - j < k"
      by linarith
    with * [of "31 - j"] \<open>j < 32\<close> that show False
      by simp
  qed
  then have "unat x < 2 ^ (32 - k)"
    by (intro unat_less_of_bits) auto
  ultimately show ?thesis
    using k le_unat_of_bit [of x "31 - k"] unfolding clz32_def k_def [symmetric]
    by (intro exI [of _ "32 - k"]) auto
qed

lemma sint_of_nat_small: "n < 2 ^ 31 \<Longrightarrow> sint (of_nat n :: u32) = int n"
  by (simp add: signed_of_nat signed_take_bit_int_eq_self)

lemma unat_of_nat_small: "n < 2 ^ 32 \<Longrightarrow> unat (of_nat n :: u32) = n"
  by (simp add: unat_of_nat take_bit_nat_eq_self)

lemma sint_min_small:
  assumes "m < 2 ^ 31" "n < 2 ^ 31"
  shows "sint (min (of_nat m :: u32) (of_nat n)) = int (min m n)"
  using assms by (auto simp: min_def word_le_nat_alt unat_of_nat_small sint_of_nat_small)

lemma determine_exponent_eq:
  assumes "0 < dw" "dw \<le> 16"
    and "lz < 2 ^ 31" "x > 0 \<Longrightarrow> dw < 16 \<Longrightarrow> of_nat (clz32 (ucast x)) - 16 - 1 = (of_nat lz :: u32)"
  shows "determine_exponent x dw = Inr (if x > 0 \<and> dw < 16 then 16 - dw - lz else 0)"
proof -
  define m where "m = 16 - dw"
  have m: "m < 2 ^ 31" "m = 0 \<longleftrightarrow> \<not> dw < 16"
    using assms by (auto simp: m_def)
  then have "(of_nat m :: u32) > 0 \<longleftrightarrow> dw < 16"
    by (auto simp: word_less_nat_alt unat_of_nat_small)
  with m show ?thesis
    using assms unfolding determine_exponent_def MAX_IQ_WIDTH_def Let_def m_def [symmetric]
    by (auto simp: sint_min_small sint_of_nat_small)
qed

text \<open>The exponent is the least shift that makes the magnitude fit \<open>data_width - 1\<close> bits.\<close>

lemma determine_exponent_least:
  assumes "0 < dw" "dw \<le> 16" "unat x < 2 ^ 15"
  shows "\<exists>e. determine_exponent x dw = Inr e \<and> unat x < 2 ^ (dw - 1 + e) \<and>
             (\<forall>e'. unat x < 2 ^ (dw - 1 + e') \<longrightarrow> e \<le> e')"
proof (cases "x > 0 \<and> dw < 16")
  case False
  have "determine_exponent x dw = Inr 0"
    using determine_exponent_eq [of dw 0 x] False assms by auto
  moreover have "unat x < 2 ^ (dw - 1 + 0)"
    using False assms by (cases "dw = 16") (auto simp: word_gt_0)
  ultimately show ?thesis
    by blast
next
  case True
  have x32: "unat (ucast x :: u32) = unat x"
    using assms(3) by (simp add: unsigned_ucast_eq take_bit_nat_eq_self)
  have nz: "(ucast x :: u32) \<noteq> 0"
    using True x32 by (metis unsigned_0 unsigned_eq_0_iff word_gt_0)
  obtain len where len: "clz32 (ucast x) = 32 - len" "1 \<le> len" "len \<le> 32"
    and up: "unat x < 2 ^ len" and low: "2 ^ (len - 1) \<le> unat x"
    using clz32_spec [of "ucast x"] x32 nz by auto
  have len15: "len \<le> 15"
  proof (rule ccontr)
    assume "\<not> len \<le> 15"
    then have "(2 :: nat) ^ 15 \<le> 2 ^ (len - 1)"
      by (intro power_increasing) auto
    with low assms(3) show False
      by linarith
  qed
  have lz: "of_nat (clz32 (ucast x)) - 16 - 1 = (of_nat (15 - len) :: u32)"
    using len len15 by (simp add: of_nat_diff)
  have "determine_exponent x dw = Inr (len + 1 - dw)"
    using determine_exponent_eq [of dw "15 - len" x] lz True assms len15 by auto
  moreover have "unat x < 2 ^ (dw - 1 + (len + 1 - dw))"
    using up by (rule less_le_trans) (use assms in \<open>auto intro!: power_increasing\<close>)
  moreover have "len + 1 - dw \<le> e'" if "unat x < 2 ^ (dw - 1 + e')" for e'
  proof -
    have "(2 :: nat) ^ (len - 1) < 2 ^ (dw - 1 + e')"
      using low that by linarith
    then have "len - 1 < dw - 1 + e'"
      by simp
    then show ?thesis
      using assms by linarith
  qed
  ultimately show ?thesis
    by blast
qed

subsection \<open>Samples that fit the data width survive packing\<close>

definition fits_width :: "nat \<Rightarrow> i16 \<Rightarrow> bool" where
  "fits_width w s \<longleftrightarrow> - (2 ^ (w - 1)) \<le> sint s \<and> sint s < 2 ^ (w - 1)"

lemma bit_fits_width:
  assumes "fits_width w s" "w - 1 \<le> n" "n < 16"
  shows "bit s n = bit s (w - 1)"
proof -
  have "signed_take_bit (w - 1) (sint s) = sint s"
    using assms(1) by (simp add: fits_width_def signed_take_bit_int_eq_self)
  moreover have "bit (signed_take_bit (w - 1) (sint s)) n = bit (sint s) (w - 1)"
    using assms(2) by (simp add: bit_signed_take_bit_iff min_absorb1)
  ultimately have "bit (sint s) n = bit (sint s) (w - 1)"
    by (simp only:)
  then show ?thesis
    using assms by (simp add: bit_sint_iff split: if_splits)
qed

lemma sign_extend_low_bits:
  assumes "0 < w" "w \<le> 16" "fits_width w s" "\<And>j. bit v j \<longleftrightarrow> j < w \<and> bit s j"
  shows "sign_extend w v = s"
proof (rule bit_word_eqI)
  fix n :: nat
  assume "n < LENGTH(16)"
  then have n: "n < 16"
    by simp
  have "bit (sign_extend w v) n = (if n < w then bit v n else bit v (w - 1))"
    using n assms(1,2) by (auto simp: sign_extend_def Let_def bit_simps)
  also have "\<dots> = bit s n"
    using assms n bit_fits_width [OF assms(3), of n] by auto
  finally show "bit (sign_extend w v) n = bit s n" .
qed

lemma max_element_ge: "x \<in> set xs \<Longrightarrow> sint x \<le> max_element xs"
  and max_element_in: "xs \<noteq> [] \<Longrightarrow> max_element xs \<in> sint ` set xs"
proof -
  have ge: "m \<le> foldl (\<lambda>m x. if m < sint x then sint x else m) m xs \<and>
      (\<forall>x \<in> set xs. sint x \<le> foldl (\<lambda>m x. if m < sint x then sint x else m) m xs)" for m and xs :: "i16 list"
  proof (induction xs arbitrary: m)
    case (Cons a xs)
    show ?case
      using Cons.IH [of "if m < sint a then sint a else m"] by (auto split: if_splits)
  qed simp
  have inn: "foldl (\<lambda>m x. if m < sint x then sint x else m) m xs \<in> insert m (sint ` set xs)"
    for m and xs :: "i16 list"
    by (induction xs arbitrary: m) auto
  show "x \<in> set xs \<Longrightarrow> sint x \<le> max_element xs"
    using ge [of "sint (hd xs)" "tl xs"] by (cases xs) (auto simp: max_element_def)
  show "xs \<noteq> [] \<Longrightarrow> max_element xs \<in> sint ` set xs"
    using inn [of "sint (hd xs)" "tl xs"] by (cases xs) (auto simp: max_element_def)
qed

lemma min_element_le: "x \<in> set xs \<Longrightarrow> min_element xs \<le> sint x"
  and min_element_in: "xs \<noteq> [] \<Longrightarrow> min_element xs \<in> sint ` set xs"
proof -
  have le: "foldl (\<lambda>m x. if sint x < m then sint x else m) m xs \<le> m \<and>
      (\<forall>x \<in> set xs. foldl (\<lambda>m x. if sint x < m then sint x else m) m xs \<le> sint x)" for m and xs :: "i16 list"
  proof (induction xs arbitrary: m)
    case (Cons a xs)
    show ?case
      using Cons.IH [of "if sint a < m then sint a else m"] by (auto split: if_splits)
  qed simp
  have inn: "foldl (\<lambda>m x. if sint x < m then sint x else m) m xs \<in> insert m (sint ` set xs)"
    for m and xs :: "i16 list"
    by (induction xs arbitrary: m) auto
  show "x \<in> set xs \<Longrightarrow> min_element xs \<le> sint x"
    using le [of "sint (hd xs)" "tl xs"] by (cases xs) (auto simp: min_element_def)
  show "xs \<noteq> [] \<Longrightarrow> min_element xs \<in> sint ` set xs"
    using inn [of "sint (hd xs)" "tl xs"] by (cases xs) (auto simp: min_element_def)
qed

lemma sint_i16: "- 32768 \<le> sint (s :: i16)" "sint (s :: i16) \<le> 32767"
  using sint_ge [of s] sint_lt [of s] by simp_all

text \<open>A block whose samples are not all the most negative value has a magnitude below \<open>2 ^ 15\<close>.\<close>

lemma prb_max_abs_bound:
  assumes "x \<in> set smp" "sint x \<noteq> - 32768"
  shows "0 \<le> prb_max_abs smp" "prb_max_abs smp < 2 ^ 15"
proof -
  have ne: "smp \<noteq> []"
    using assms by auto
  have "- 32768 < max_element smp"
    using max_element_ge [OF assms(1)] assms(2) sint_i16(1) [of x] by linarith
  moreover have "max_element smp \<le> 32767"
    using max_element_in [OF ne] sint_i16(2) by auto
  moreover have "- 32768 \<le> min_element smp" "min_element smp \<le> 32767"
    using min_element_in [OF ne] sint_i16 by auto
  ultimately show "0 \<le> prb_max_abs smp" "prb_max_abs smp < 2 ^ 15"
    by (auto simp: prb_max_abs_def)
qed

lemma prb_max_abs_range:
  assumes "x \<in> set smp"
  shows "sint x \<le> prb_max_abs smp" "- prb_max_abs smp - 1 \<le> sint x"
  using max_element_ge [OF assms] min_element_le [OF assms] by (auto simp: prb_max_abs_def)

lemma int_div_bounds:
  fixes a b c :: int
  assumes "0 < c" "- (b * c) \<le> a" "a < b * c"
  shows "- b \<le> a div c" "a div c < b"
proof -
  have eq: "a = c * (a div c) + a mod c" and m: "0 \<le> a mod c" "a mod c < c"
    using assms(1) by simp_all
  have "- b = (- b) * c div c"
    using assms(1) by (intro nonzero_mult_div_cancel_right [symmetric]) simp
  also have "\<dots> \<le> a div c"
    using assms by (intro zdiv_mono1) simp_all
  finally show "- b \<le> a div c" .
  show "a div c < b"
  proof (rule ccontr)
    assume "\<not> a div c < b"
    then have "b * c \<le> (a div c) * c"
      using assms(1) by (intro mult_right_mono) auto
    also have "\<dots> \<le> a"
      using eq m(1) by (metis add.commute le_add_same_cancel2 mult.commute)
    finally show False
      using assms(3) by simp
  qed
qed

lemma sint_shift: "sint (signed_drop_bit e (s :: i16)) = sint s div 2 ^ e"
  by (simp add: sint_signed_drop_bit_eq drop_bit_eq_div)

lemma shifted_fits_width:
  assumes "x \<in> set smp" "0 < dw" "prb_max_abs smp < 2 ^ (dw - 1 + e)"
  shows "fits_width dw (signed_drop_bit e x)"
proof -
  have "- (2 ^ (dw - 1) * 2 ^ e) \<le> sint x" "sint x < 2 ^ (dw - 1) * 2 ^ e"
    using prb_max_abs_range [OF assms(1)] assms(3) by (simp_all add: power_add)
  then show ?thesis
    using int_div_bounds [of "2 ^ e" "2 ^ (dw - 1)" "sint x"] by (simp add: fits_width_def sint_shift)
qed

lemma decompress_samples_eq:
  assumes "\<And>k. k < 2 * n \<Longrightarrow> \<exists>v. unpack_bits r (pos + k * w) w = Inr v \<and> sign_extend w v = f k"
  shows "decompress_samples r sc w pos n =
     Inr (map (\<lambda>i. (quantizer_to_float 16 (sint (f (2 * i)) * sc),
                    quantizer_to_float 16 (sint (f (2 * i + 1)) * sc))) [0..<n])"
  using assms
proof (induction n arbitrary: pos f)
  case (Suc n)
  obtain re where re: "unpack_bits r pos w = Inr re" "sign_extend w re = f 0"
    using Suc.prems [of 0] by auto
  obtain im where im: "unpack_bits r (pos + w) w = Inr im" "sign_extend w im = f 1"
    using Suc.prems [of 1] by auto
  have "\<exists>v. unpack_bits r (pos + w * 2 + k * w) w = Inr v \<and> sign_extend w v = f (k + 2)" if "k < 2 * n" for k
  proof -
    have "pos + (k + 2) * w = pos + w * 2 + k * w"
      by (simp add: algebra_simps)
    then show ?thesis
      using Suc.prems [of "k + 2"] that by (simp only: mult_Suc_right)
  qed
  from Suc.IH [of "pos + w * 2" "\<lambda>k. f (k + 2)", OF this] re im show ?case
    by (simp add: upt_conv_Cons map_Suc_upt [symmetric] comp_def del: upt_Suc)
qed simp

lemma unpack_packed:
  assumes "8 \<le> w" "w \<le> 16" "length ss * w \<le> 8 * length bs" "\<forall>s \<in> set ss. fits_width w s"
    and "pack_bytes (from_bytes bs) ss w = Inr b" "k < length ss"
  shows "\<exists>v. unpack_bits b (k * w) w = Inr v \<and> sign_extend w v = ss ! k"
proof -
  obtain bs' where b: "b = from_bytes bs'" and len: "length bs' = length bs"
    and bits: "\<And>k j. k < length ss \<Longrightarrow> j < w \<Longrightarrow> bbit bs' (k * w + j) = bit (ss ! k) (w - 1 - j)"
    using pack_bytes_bits [OF assms(1-3)] assms(5) by auto
  have "(k + 1) * w \<le> length ss * w"
    using assms(6) by (intro mult_right_mono) auto
  then have "k * w + w \<le> bb_size b"
    using assms(3) b len by simp
  then obtain v where v: "unpack_bits b (k * w) w = Inr v"
    "\<And>j. bit v j \<longleftrightarrow> j < w \<and> bbit (bb_words b) (k * w + (w - 1 - j))"
    using unpack_bits_bits [of b w "k * w"] assms(1,2) b by auto
  have "bit v j \<longleftrightarrow> j < w \<and> bit (ss ! k) j" for j
    using v(2) [of j] bits [OF assms(6), of "w - 1 - j"] assms(1) b by auto
  then have "sign_extend w v = ss ! k"
    using assms by (intro sign_extend_low_bits) auto
  with v(1) show ?thesis
    by blast
qed

text \<open>A block compresses to the size the parameters promise and decompresses to every sample with its
  low \<open>e\<close> bits cleared, \<open>e\<close> being the least exponent under which the block fits.\<close>

lemma compress_prb_decompress_prb:
  assumes len: "length smp = NOF_SAMPLES_PER_PRB" and dw: "8 \<le> dw" "dw \<le> 16"
    and size: "length buf = get_compressed_prb_size \<lparr>rcp_type = compr_BFP, rcp_data_width = dw\<rparr>"
    and nd: "x \<in> set smp" "sint x \<noteq> - 32768"
  obtains prb e where "compress_prb_generic buf smp dw = Inr prb" "length prb = length buf"
    "prb_max_abs smp < 2 ^ (dw - 1 + e)" "\<And>e'. prb_max_abs smp < 2 ^ (dw - 1 + e') \<Longrightarrow> e \<le> e'"
    "decompress_prb_generic prb dw =
       Inr (map (\<lambda>i. (quantizer_to_float 16 (sint (smp ! (2 * i)) div 2 ^ e * 2 ^ e),
                      quantizer_to_float 16 (sint (smp ! (2 * i + 1)) div 2 ^ e * 2 ^ e)))
              [0..<NOF_SUBCARRIERS_PER_RB])"
proof -
  let ?m = "prb_max_abs smp"
  have m: "0 \<le> ?m" "?m < 2 ^ 15"
    using prb_max_abs_bound [OF nd] .
  have um: "unat (word_of_int ?m :: u16) = nat ?m"
    using m by (simp add: unsigned_of_int take_bit_int_eq_self)
  obtain e where e: "determine_exponent (word_of_int ?m) dw = Inr e"
    and up: "nat ?m < 2 ^ (dw - 1 + e)" and least: "\<And>e'. nat ?m < 2 ^ (dw - 1 + e') \<Longrightarrow> e \<le> e'"
  proof -
    have "nat ?m < 2 ^ 15"
      using m by (simp add: nat_less_iff)
    then show thesis
      using determine_exponent_least [of dw "word_of_int ?m"] dw um that by auto
  qed
  have upi: "?m < 2 ^ (dw - 1 + e)" and leasti: "\<And>e'. ?m < 2 ^ (dw - 1 + e') \<Longrightarrow> e \<le> e'"
    using m up least by (simp_all add: nat_less_iff)
  have e8: "e \<le> 8"
    using least [of "16 - dw"] m dw by (simp add: nat_less_iff)
  then have eb: "unat (of_nat e :: byte) = e"
    by (simp add: unat_of_nat take_bit_nat_eq_self)
  obtain b0 rest where buf: "buf = b0 # rest" and lrest: "8 * length rest = 24 * dw"
    using size dw by (cases buf)
      (auto simp: get_compressed_prb_size_def NOF_SUBCARRIERS_PER_RB_def is_compression_param_present_def)
  let ?ss = "map (signed_drop_bit e) smp"
  have l24: "length ?ss * dw \<le> 8 * length rest"
    using lrest len by (simp add: NOF_SAMPLES_PER_PRB_def NOF_SUBCARRIERS_PER_RB_def)
  have fits: "\<forall>s \<in> set ?ss. fits_width dw s"
    using upi dw by (auto intro: shifted_fits_width)
  obtain bs' where pack: "pack_bytes (from_bytes rest) ?ss dw = Inr (from_bytes bs')" "length bs' = length rest"
    using pack_bytes_bits [OF dw l24] by blast
  have c: "compress_prb_generic buf smp dw = Inr (of_nat e # bs')"
    using len e eb pack(1) by (simp add: compress_prb_generic_def buf Let_def)
  have sc: "sint (word_of_int (2 ^ e) :: i16) = 2 ^ e"
  proof -
    have "(2 :: int) ^ e \<le> 2 ^ 8"
      using e8 by (intro power_increasing) auto
    then have "(2 :: int) ^ e < 2 ^ 15"
      by simp
    moreover have "- (2 ^ 15) \<le> (2 :: int) ^ e"
      by (rule order_trans [of _ 0]) simp_all
    ultimately have "signed_take_bit 15 ((2 :: int) ^ e) = 2 ^ e"
      by (intro signed_take_bit_int_eq_self)
    then show ?thesis
      by (subst signed_of_int) simp
  qed
  have "decompress_samples (from_bytes bs') (2 ^ e) dw 0 NOF_SUBCARRIERS_PER_RB =
     Inr (map (\<lambda>i. (quantizer_to_float 16 (sint (?ss ! (2 * i)) * 2 ^ e),
                    quantizer_to_float 16 (sint (?ss ! (2 * i + 1)) * 2 ^ e))) [0..<NOF_SUBCARRIERS_PER_RB])"
    by (rule decompress_samples_eq)
      (use unpack_packed [OF dw l24 fits pack(1)] len in \<open>simp add: NOF_SAMPLES_PER_PRB_def\<close>)
  then have d: "decompress_prb_generic (of_nat e # bs') dw =
      Inr (map (\<lambda>i. (quantizer_to_float 16 (sint (smp ! (2 * i)) div 2 ^ e * 2 ^ e),
                     quantizer_to_float 16 (sint (smp ! (2 * i + 1)) div 2 ^ e * 2 ^ e)))
             [0..<NOF_SUBCARRIERS_PER_RB])"
    using e8 eb sc len by (auto simp: decompress_prb_generic_def sint_shift NOF_SAMPLES_PER_PRB_def)
  show thesis
    by (rule that [OF c _ upi leasti d]) (use pack(2) buf in auto)
qed

subsection \<open>Properties\<close>

text \<open>C28. Samples that fit the width are packed and unpacked without loss: for widths from 8 to 16 bits, the
  \<open>k\<close>-th field of the packed buffer, sign extended, is the \<open>k\<close>-th sample.\<close>

theorem unpack_pack:
  assumes "8 \<le> w" "w \<le> 16" "length ss * w \<le> 8 * length bs" "\<forall>s \<in> set ss. fits_width w s" "k < length ss"
  shows "\<exists>b v. pack_bytes (from_bytes bs) ss w = Inr b \<and> unpack_bits b (k * w) w = Inr v \<and>
               sign_extend w v = ss ! k"
proof -
  obtain bs' where "pack_bytes (from_bytes bs) ss w = Inr (from_bytes bs')"
    using pack_bytes_bits [OF assms(1-3)] by blast
  then show ?thesis
    using unpack_packed [OF assms(1-4) _ assms(5)] by blast
qed

theorem unpack_pack_witness:
  "\<exists>b v. pack_bytes (from_bytes [0, 0, 0]) [- 5, 200] 9 = Inr b \<and> unpack_bits b 9 9 = Inr v \<and>
         sign_extend 9 v = 200"
  using unpack_pack [of 9 "[- 5, 200]" "[0, 0, 0]" 1] by (simp add: fits_width_def)

text \<open>For a magnitude below \<open>2 ^ 15\<close> the exponent is the least one under which the shifted magnitude
  fits the data width without its sign bit.\<close>

theorem exponent_is_least:
  assumes "0 < dw" "dw \<le> 16" "unat x < 2 ^ 15"
  shows "\<exists>e. determine_exponent x dw = Inr e \<and> unat x < 2 ^ (dw - 1 + e) \<and>
             (\<forall>e'. unat x < 2 ^ (dw - 1 + e') \<longrightarrow> e \<le> e')"
  using assms by (rule determine_exponent_least)

theorem exponent_is_least_witness:
  "\<exists>e. determine_exponent 1000 9 = Inr e \<and> (1000 :: nat) < 2 ^ (9 - 1 + e)"
  using exponent_is_least [of 9 1000] by auto



text \<open>C36. In a block whose samples are all the most negative value the magnitude is \<open>2 ^ 15\<close>, the count of
  leading zeros without the sign wraps around, and the exponent is zero: the samples do not fit a
  data width below 16.\<close>

theorem exponent_wraps_on_min_block:
  assumes "0 < dw" "dw < 16"
  shows "prb_max_abs (replicate 24 0x8000) = 32768 \<and>
         determine_exponent (word_of_int (prb_max_abs (replicate 24 0x8000))) dw = Inr 0 \<and>
         \<not> fits_width dw (signed_drop_bit 0 0x8000)"
proof -
  have rep: "replicate 24 (0x8000 :: i16) = 0x8000 # replicate 23 0x8000"
    by (simp add: numeral_eq_Suc)
  have m: "prb_max_abs (replicate 24 0x8000) = 32768"
    unfolding prb_max_abs_def max_element_def min_element_def rep by (simp add: numeral_eq_Suc)
  have "clz32 (ucast (0x8000 :: u16)) = 16"
    by code_simp
  then have c: "of_nat (clz32 (ucast (0x8000 :: u16))) - 16 - 1 = (- 1 :: u32)"
    by simp
  define k where "k = 16 - dw"
  have k: "0 < k" "k < 16"
    using assms by (auto simp: k_def)
  have "determine_exponent 0x8000 dw = Inr 0"
    using assms k unfolding determine_exponent_def MAX_IQ_WIDTH_def Let_def c k_def [symmetric]
    by (simp add: sint_of_nat_small word_less_nat_alt unat_of_nat_small)
  moreover have "(2 :: int) ^ (dw - 1) \<le> 2 ^ 14"
    using assms by (intro power_increasing) auto
  then have "\<not> fits_width dw 0x8000"
    by (simp add: fits_width_def)
  ultimately show ?thesis
    using m by simp
qed

theorem exponent_wraps_on_min_block_witness:
  "determine_exponent (word_of_int (prb_max_abs (replicate 24 0x8000))) 9 = Inr 0"
  by (rule exponent_wraps_on_min_block [of 9, THEN conjunct2, THEN conjunct1]) simp_all

text \<open>Below eight bits \<open>pack_bytes\<close> does not mask a sample to the width: any sample whose low byte does
  not fit, every small negative one among them, fails the assertion of \<open>insert\<close>.\<close>

theorem pack_narrow_fails:
  assumes "0 < w" "w < 8" "2 ^ w \<le> unat s mod 256"
  shows "pack_bytes b (s # ss) w = Inl Assertion_Failed"
proof -
  have "unat (ucast s :: byte) = unat s mod 256"
    by (simp add: unsigned_ucast_eq take_bit_eq_mod)
  then show ?thesis
    using assms by (simp add: pack_bytes_def pack_sample.simps [of _ _ _ w] and_low_byte bb_insert_def)
qed

theorem pack_narrow_fails_witness: "pack_bytes (from_bytes [0]) [- 1] 4 = Inl Assertion_Failed"
  using pack_narrow_fails [of 4 "- 1" "from_bytes [0]" "[]"] by (simp add: unsigned_minus_1_eq_mask mask_eq_exp_minus_1)

end
