(* ===== verification/Rlc_Um_Pdu.thy ===== *)
theory Rlc_Um_Pdu
  imports Prelude
begin

text \<open>
  The header of RLC unacknowledged mode data PDUs: \<^verbatim>\<open>lib/rlc/rlc_um_pdu.h\<close> and the field types of
  \<^verbatim>\<open>include/srsran/rlc/rlc_config.h\<close>. Reading returns nothing where the source returns false; the
  caller passes a zeroed header, so that a segment offset that is not read is zero.
\<close>

subsection \<open>Field types\<close>

datatype rlc_um_sn_size = size6bits | size12bits

fun um_sn_size_to_number :: "rlc_um_sn_size \<Rightarrow> nat" where
  "um_sn_size_to_number size6bits = 6"
| "um_sn_size_to_number size12bits = 12"

definition um_sn_size_from_number :: "nat \<Rightarrow> rlc_um_sn_size option" where
  "um_sn_size_from_number num =
     (if num = 6 then Some size6bits else if num = 12 then Some size12bits else None)"

definition cardinality :: "nat \<Rightarrow> nat" where
  "cardinality sn_size = 2 ^ sn_size"

definition window_size :: "nat \<Rightarrow> nat" where
  "window_size sn_size = cardinality (sn_size - 1)"

datatype rlc_si_field = full_sdu | first_segment | last_segment | middle_segment

fun si_to_number :: "rlc_si_field \<Rightarrow> byte" where
  "si_to_number full_sdu = 0"
| "si_to_number first_segment = 1"
| "si_to_number last_segment = 2"
| "si_to_number middle_segment = 3"

text \<open>The cast of two bits to the enumeration.\<close>

definition si_of_number :: "byte \<Rightarrow> rlc_si_field" where
  "si_of_number b =
     (if b = 0 then full_sdu else if b = 1 then first_segment else if b = 2 then last_segment else middle_segment)"

definition rlc_um_pdu_header_size_complete_sdu :: nat where
  "rlc_um_pdu_header_size_complete_sdu = 1"

fun rlc_um_pdu_header_size_no_so :: "rlc_um_sn_size \<Rightarrow> nat" where
  "rlc_um_pdu_header_size_no_so size6bits = 1"
| "rlc_um_pdu_header_size_no_so size12bits = 2"

fun rlc_um_pdu_header_size_with_so :: "rlc_um_sn_size \<Rightarrow> nat" where
  "rlc_um_pdu_header_size_with_so size6bits = 3"
| "rlc_um_pdu_header_size_with_so size12bits = 4"

record rlc_um_pdu_header =
  um_si :: rlc_si_field
  um_sn_size :: rlc_um_sn_size
  um_sn :: u16
  um_so :: u16

subsection \<open>Reading\<close>

text \<open>The fixed part: segmentation info, sequence number, and the bytes behind them.\<close>

definition um_read_fixed :: "byte list \<Rightarrow> rlc_um_sn_size \<Rightarrow> (rlc_si_field \<times> u16 \<times> byte list) option" where
  "um_read_fixed pdu sn_size =
     (case pdu of
        [] \<Rightarrow> None
      | b # rest \<Rightarrow>
          let si = si_of_number (drop_bit 6 b AND 0x03)
          in case sn_size of
               size6bits \<Rightarrow>
                 let sn = ucast (b AND 0x3F)
                 in if si = full_sdu \<and> sn \<noteq> 0 then None else Some (si, sn, rest)
             | size12bits \<Rightarrow>
                 let sn = push_bit 8 (ucast (b AND 0x0F))
                 in if si = full_sdu \<and> sn \<noteq> 0 then None
                    else if si = first_segment \<and> drop_bit 4 b AND 0x03 \<noteq> 0 then None
                    else if si \<noteq> full_sdu
                    then (case rest of [] \<Rightarrow> None | c # rest' \<Rightarrow> Some (si, sn OR ucast c, rest'))
                    else Some (si, sn, rest))"

definition um_read_so :: "rlc_si_field \<Rightarrow> byte list \<Rightarrow> u16 option" where
  "um_read_so si rest =
     (if si = last_segment \<or> si = middle_segment
      then case rest of
             c # d # _ \<Rightarrow> Some (push_bit 8 (ucast c) OR ucast d)
           | _ \<Rightarrow> None
      else Some 0)"

definition rlc_um_read_data_pdu_header :: "byte list \<Rightarrow> rlc_um_sn_size \<Rightarrow> rlc_um_pdu_header option" where
  "rlc_um_read_data_pdu_header pdu sn_size =
     (case um_read_fixed pdu sn_size of
        None \<Rightarrow> None
      | Some (si, sn, rest) \<Rightarrow>
          map_option (\<lambda>so. \<lparr>um_si = si, um_sn_size = sn_size, um_sn = sn, um_so = so\<rparr>) (um_read_so si rest))"

definition rlc_um_nr_packed_length :: "rlc_um_pdu_header \<Rightarrow> nat" where
  "rlc_um_nr_packed_length header =
     (if um_si header = full_sdu then 1
      else (if um_sn_size header = size6bits then 1 else 2) + (if um_so header \<noteq> 0 then 2 else 0))"

subsection \<open>Writing\<close>

definition um_header_bytes :: "rlc_um_pdu_header \<Rightarrow> byte list" where
  "um_header_bytes header =
     (let b = push_bit 6 (si_to_number (um_si header) AND 0x03)
      in if um_si header = full_sdu then [b]
         else (case um_sn_size header of
                 size6bits \<Rightarrow> [b OR ucast (um_sn header AND 0x3F)]
               | size12bits \<Rightarrow> [b OR ucast (drop_bit 8 (um_sn header) AND 0x0F), ucast (um_sn header AND 0xFF)])
              @ (if um_so header \<noteq> 0 then [ucast (drop_bit 8 (um_so header)), ucast (um_so header AND 0xFF)]
                 else []))"

text \<open>The header is written to the front of the grant; without room for it the writes are out of bounds.\<close>

definition rlc_um_write_data_pdu_header :: "byte list \<Rightarrow> rlc_um_pdu_header \<Rightarrow> (byte list \<times> nat) result" where
  "rlc_um_write_data_pdu_header buf header =
     (let hdr = um_header_bytes header
      in if length buf < length hdr then Inl Out_Of_Bounds
         else Inr (hdr @ drop (length hdr) buf, length hdr))"

subsection \<open>What is written is read\<close>

text \<open>The headers a transmitter builds: no number in a complete SDU, an offset exactly in later segments.\<close>

definition um_header_wf :: "rlc_um_pdu_header \<Rightarrow> bool" where
  "um_header_wf h \<longleftrightarrow>
     unat (um_sn h) < cardinality (um_sn_size_to_number (um_sn_size h)) \<and>
     (um_si h = full_sdu \<longrightarrow> um_sn h = 0) \<and>
     (um_so h \<noteq> 0 \<longleftrightarrow> um_si h = last_segment \<or> um_si h = middle_segment)"

lemma si_bits: "drop_bit 6 (push_bit 6 (si_to_number si AND 0x03) OR x) AND 0x03 = (si_to_number si :: byte)"
  if "drop_bit 6 x = 0"
  using that by (cases si) (simp_all add: drop_bit_or)

lemma si_of_to_number [simp]: "si_of_number (si_to_number si) = si"
  by (cases si) (simp_all add: si_of_number_def)

lemma split_u16: "push_bit 8 (ucast (ucast (drop_bit 8 (w :: u16)) :: byte)) OR ucast (ucast (w AND 0xFF) :: byte) = w"
proof -
  have low: "(0xFF :: u16) = mask 8"
    by (simp add: mask_eq_exp_minus_1)
  show ?thesis
    unfolding low by (rule bit_word_eqI) (auto simp: bit_simps)
qed

lemma um_sn6:
  fixes sn :: u16
  defines "b si \<equiv> push_bit 6 (si_to_number si AND 0x03) OR (ucast (sn AND 0x3F) :: byte)"
  assumes "unat sn < 64"
  shows "drop_bit 6 (b si) AND 0x03 = si_to_number si" "ucast (b si AND 0x3F) = sn"
proof -
  have m: "(0x3F :: u16) = mask 6" "(0x3F :: byte) = mask 6"
    by (simp_all add: mask_eq_exp_minus_1)
  have small: "bit sn i \<Longrightarrow> i < 6" for i
    using bit_small [of sn 6 i] assms by simp
  show "drop_bit 6 (b si) AND 0x03 = si_to_number si"
    unfolding b_def m by (rule si_bits) (rule bit_word_eqI, simp add: bit_simps)
  show "ucast (b si AND 0x3F) = sn"
    unfolding b_def m by (rule bit_word_eqI) (auto simp: bit_simps dest: small)
qed

lemma um_sn12:
  fixes sn :: u16
  defines "b si \<equiv> push_bit 6 (si_to_number si AND 0x03) OR (ucast (drop_bit 8 sn AND 0x0F) :: byte)"
  assumes "unat sn < 4096"
  shows "drop_bit 6 (b si) AND 0x03 = si_to_number si" "drop_bit 4 (b si) AND 0x03 = 0"
    "push_bit 8 (ucast (b si AND 0x0F)) OR ucast (ucast (sn AND 0xFF) :: byte) = sn"
proof -
  have m: "(0x0F :: u16) = mask 4" "(0x0F :: byte) = mask 4" "(0xFF :: u16) = mask 8" "(3 :: byte) = mask 2"
    by (simp_all add: mask_eq_exp_minus_1)
  have small: "bit sn i \<Longrightarrow> i < 12" for i
    using bit_small [of sn 12 i] assms by simp
  show "drop_bit 6 (b si) AND 0x03 = si_to_number si"
    unfolding b_def m(1) by (rule si_bits) (rule bit_word_eqI, simp add: bit_simps)
  show "drop_bit 4 (b si) AND 0x03 = 0"
    unfolding b_def m by (rule bit_word_eqI) (auto simp: bit_simps)
  show "push_bit 8 (ucast (b si AND 0x0F)) OR ucast (ucast (sn AND 0xFF) :: byte) = sn"
    unfolding b_def m by (rule bit_word_eqI) (auto simp: bit_simps dest: small)
qed

lemma um_read_fixed_bytes:
  assumes "si \<noteq> full_sdu" "unat sn < cardinality (um_sn_size_to_number sz)"
  shows "um_read_fixed ((case sz of
            size6bits \<Rightarrow> [push_bit 6 (si_to_number si AND 0x03) OR ucast (sn AND 0x3F)]
          | size12bits \<Rightarrow> [push_bit 6 (si_to_number si AND 0x03) OR ucast (drop_bit 8 sn AND 0x0F), ucast (sn AND 0xFF)])
          @ rest) sz = Some (si, sn, rest)"
proof (cases sz)
  case size6bits
  define b where "b = push_bit 6 (si_to_number si AND 0x03) OR (ucast (sn AND 0x3F) :: byte)"
  have "drop_bit 6 b AND 0x03 = si_to_number si" "ucast (b AND 0x3F) = sn"
    using um_sn6 [of sn si] assms size6bits by (simp_all only: b_def) (simp_all add: cardinality_def)
  then show ?thesis
    using assms unfolding size6bits rlc_um_sn_size.case b_def [symmetric] by (simp add: um_read_fixed_def)
next
  case size12bits
  define b where "b = push_bit 6 (si_to_number si AND 0x03) OR (ucast (drop_bit 8 sn AND 0x0F) :: byte)"
  define c where "c = (ucast (sn AND 0xFF) :: byte)"
  have "unat sn < 4096"
    using assms size12bits by (simp add: cardinality_def)
  note um_sn12 [OF this, of si, folded b_def c_def]
  then show ?thesis
    using assms unfolding size12bits rlc_um_sn_size.case b_def [symmetric] c_def [symmetric]
    by (simp add: um_read_fixed_def)
qed

lemma um_header_read_back:
  assumes "um_header_wf h"
  shows "rlc_um_read_data_pdu_header (um_header_bytes h @ payload) (um_sn_size h) = Some h"
proof (cases "um_si h = full_sdu")
  case True
  then show ?thesis
    using assms by (cases h; cases "um_sn_size h")
      (simp_all add: um_header_wf_def um_header_bytes_def rlc_um_read_data_pdu_header_def
         um_read_fixed_def um_read_so_def si_of_number_def)
next
  case False
  define so where "so = (if um_so h \<noteq> 0 then [ucast (drop_bit 8 (um_so h)), ucast (um_so h AND 0xFF)] else [] :: byte list)"
  have "um_read_fixed (um_header_bytes h @ payload) (um_sn_size h) = Some (um_si h, um_sn h, so @ payload)"
    using um_read_fixed_bytes [of "um_si h" "um_sn h" "um_sn_size h" "so @ payload"] False assms
    unfolding um_header_bytes_def Let_def so_def [symmetric] um_header_wf_def if_not_P [OF False] append_assoc
    by blast
  moreover have "um_read_so (um_si h) (so @ payload) = Some (um_so h)"
    using assms by (auto simp: um_read_so_def so_def um_header_wf_def split_u16)
  ultimately show ?thesis
    by (simp add: rlc_um_read_data_pdu_header_def)
qed

lemma packed_length_bytes: "rlc_um_nr_packed_length h = length (um_header_bytes h)"
  by (simp add: rlc_um_nr_packed_length_def um_header_bytes_def Let_def split: rlc_um_sn_size.split)



end
