(* ===== verification/Rlc_Um_Segments.thy ===== *)
theory Rlc_Um_Segments
  imports Rlc_Um_Pdu
begin

text \<open>
  Reassembly of one SDU in the receiving side of RLC unacknowledged mode: the segment store of
  \<^verbatim>\<open>lib/rlc/rlc_rx_um_entity.cpp\<close> (\<^verbatim>\<open>store_segment\<close>, \<^verbatim>\<open>update_segment_inventory\<close>, \<^verbatim>\<open>reassemble_sdu\<close>).
  The ordered set of segments is a list sorted by segment offset. Against the abstract view of a
  store as the set of received byte positions, storing a segment is set union, and the SDU is
  complete exactly when every position is covered.
\<close>

subsection \<open>Operations\<close>

record rlc_rx_um_sdu_segment =
  seg_si :: rlc_si_field
  seg_so :: u16
  seg_payload :: "byte list"

record rlc_rx_um_sdu_info =
  fully_received :: bool
  has_gap :: bool
  segments :: "rlc_rx_um_sdu_segment list"

definition sdu_info_new :: rlc_rx_um_sdu_info where
  "sdu_info_new = \<lparr>fully_received = False, has_gap = False, segments = []\<rparr>"

definition segment_cmp :: "rlc_rx_um_sdu_segment \<Rightarrow> rlc_rx_um_sdu_segment \<Rightarrow> bool" where
  "segment_cmp a b \<longleftrightarrow> seg_so a < seg_so b"

text \<open>Insertion into the ordered set: nothing happens when an element with the same key is present.\<close>

fun segment_insert :: "rlc_rx_um_sdu_segment \<Rightarrow> rlc_rx_um_sdu_segment list \<Rightarrow> rlc_rx_um_sdu_segment list" where
  "segment_insert s [] = [s]"
| "segment_insert s (t # ts) =
     (if segment_cmp s t then s # t # ts
      else if segment_cmp t s then t # segment_insert s ts
      else t # ts)"

definition last_byte :: "rlc_rx_um_sdu_segment \<Rightarrow> u32" where
  "last_byte s = ucast (seg_so s) + of_nat (length (seg_payload s)) - 1"

text \<open>
  The loop over the stored segments: the segments still to be visited, the set, the new segment. It
  gives nothing when the new segment is discarded.
\<close>

fun store_loop :: "rlc_rx_um_sdu_segment list \<Rightarrow> rlc_rx_um_sdu_segment list \<Rightarrow> rlc_rx_um_sdu_segment
    \<Rightarrow> (rlc_rx_um_sdu_segment list \<times> rlc_rx_um_sdu_segment) option" where
  "store_loop [] segs new = Some (segs, new)"
| "store_loop (cur # rest) segs new =
     (let cur_last_byte = last_byte cur; new_last_byte = last_byte new
      in if cur_last_byte < ucast (seg_so new) then store_loop rest segs new
         else if seg_so cur \<le> seg_so new
         then (if new_last_byte \<le> cur_last_byte then None
               else store_loop rest segs
                      (new\<lparr>seg_payload := drop (unat (cur_last_byte + 1 - ucast (seg_so new))) (seg_payload new),
                           seg_so := ucast (cur_last_byte + 1)\<rparr>))
         else if new_last_byte < ucast (seg_so cur) then Some (segs, new)
         else if new_last_byte < cur_last_byte
         then let cut_segment =
                cur\<lparr>seg_payload := drop (unat (new_last_byte + 1 - ucast (seg_so cur))) (seg_payload cur),
                    seg_so := ucast (new_last_byte + 1)\<rparr>
              in Some (segment_insert cut_segment (remove1 cur segs), new)
         else store_loop rest (remove1 cur segs) new)"

definition store_segment :: "rlc_rx_um_sdu_segment \<Rightarrow> rlc_rx_um_sdu_info \<Rightarrow> bool \<times> rlc_rx_um_sdu_info" where
  "store_segment new_segment sdu_info =
     (case store_loop (segments sdu_info) (segments sdu_info) new_segment of
        None \<Rightarrow> (False, sdu_info)
      | Some (segs, new) \<Rightarrow> (True, sdu_info\<lparr>segments := segment_insert new segs\<rparr>))"

fun inventory_loop :: "u32 \<Rightarrow> rlc_rx_um_sdu_segment list \<Rightarrow> bool \<times> bool" where
  "inventory_loop next_byte [] = (False, False)"
| "inventory_loop next_byte (segm # segs) =
     (if ucast (seg_so segm) \<noteq> next_byte then (False, True)
      else if seg_si segm = last_segment then (True, False)
      else inventory_loop (next_byte + of_nat (length (seg_payload segm))) segs)"

definition update_segment_inventory :: "rlc_rx_um_sdu_info \<Rightarrow> rlc_rx_um_sdu_info" where
  "update_segment_inventory rx_sdu =
     (if segments rx_sdu = [] then rx_sdu\<lparr>fully_received := False, has_gap := False\<rparr>
      else let (full, gap) = inventory_loop 0 (segments rx_sdu)
           in rx_sdu\<lparr>fully_received := full, has_gap := gap\<rparr>)"

text \<open>Allocation of the result always succeeds here.\<close>

definition reassemble_sdu :: "rlc_rx_um_sdu_info \<Rightarrow> byte list option" where
  "reassemble_sdu sdu_info =
     (if \<not> fully_received sdu_info then None else Some (concat (map seg_payload (segments sdu_info))))"

subsection \<open>Segments as slices\<close>

abbreviation seg_lo :: "rlc_rx_um_sdu_segment \<Rightarrow> nat" where
  "seg_lo s \<equiv> unat (seg_so s)"

definition seg_hi :: "rlc_rx_um_sdu_segment \<Rightarrow> nat" where
  "seg_hi s = unat (seg_so s) + length (seg_payload s)"

abbreviation seg_range :: "rlc_rx_um_sdu_segment \<Rightarrow> nat set" where
  "seg_range s \<equiv> {seg_lo s..<seg_hi s}"

definition slice_of :: "byte list \<Rightarrow> rlc_rx_um_sdu_segment \<Rightarrow> bool" where
  "slice_of sdu s \<longleftrightarrow>
     seg_payload s \<noteq> [] \<and> seg_hi s \<le> length sdu \<and> length sdu \<le> 65536 \<and>
     seg_payload s = take (length (seg_payload s)) (drop (seg_lo s) sdu) \<and>
     (seg_si s = last_segment \<longleftrightarrow> seg_hi s = length sdu)"

definition covered :: "rlc_rx_um_sdu_segment list \<Rightarrow> nat set" where
  "covered segs = (\<Union>s\<in>set segs. seg_range s)"

definition segments_of :: "byte list \<Rightarrow> rlc_rx_um_sdu_segment list \<Rightarrow> bool" where
  "segments_of sdu segs \<longleftrightarrow>
     (\<forall>s\<in>set segs. slice_of sdu s) \<and> sorted_wrt (\<lambda>a b. seg_hi a \<le> seg_lo b) segs"

lemma covered_simps [simp]:
  "covered [] = {}"
  "covered (s # segs) = seg_range s \<union> covered segs"
  "covered (xs @ ys) = covered xs \<union> covered ys"
  by (auto simp: covered_def)

lemma slice_ofD:
  assumes "slice_of sdu s"
  shows "seg_lo s < seg_hi s" "seg_hi s \<le> 65536" "seg_hi s \<le> length sdu" "length sdu \<le> 65536"
  using assms by (auto simp: slice_of_def seg_hi_def)

lemma unat_ucast_so [simp]: "unat (ucast (so :: u16) :: u32) = unat so"
  using unat_less_2p [of so] by (simp add: unsigned_ucast_eq take_bit_nat_eq_self)

lemma unat_last_byte:
  assumes "slice_of sdu s"
  shows "unat (last_byte s) = seg_hi s - 1" "unat (last_byte s + 1) = seg_hi s"
proof -
  have lt: "seg_lo s < seg_hi s" "seg_hi s \<le> 65536"
    using slice_ofD [OF assms] by auto
  have sum: "ucast (seg_so s) + of_nat (length (seg_payload s)) = (of_nat (seg_hi s) :: u32)"
    by (rule unsigned_word_eqI)
      (use lt in \<open>simp add: seg_hi_def unsigned_of_nat unat_word_ariths take_bit_nat_eq_self\<close>)
  have 1: "last_byte s + 1 = of_nat (seg_hi s)"
    by (simp add: last_byte_def flip: sum)
  show "unat (last_byte s + 1) = seg_hi s"
    unfolding 1 using lt by (simp add: unsigned_of_nat take_bit_nat_eq_self)
  have "last_byte s = of_nat (seg_hi s) - 1" "(of_nat (seg_hi s) :: u32) \<noteq> 0"
    using 1 lt \<open>unat (last_byte s + 1) = seg_hi s\<close> by (auto simp: algebra_simps)
  then show "unat (last_byte s) = seg_hi s - 1"
    using 1 \<open>unat (last_byte s + 1) = seg_hi s\<close> by (simp add: unat_minus_one)
qed

text \<open>The comparisons of the loop, and the two ways a segment is cut.\<close>

lemma store_conditions:
  assumes "slice_of sdu cur" "slice_of sdu new"
  shows "last_byte cur < ucast (seg_so new) \<longleftrightarrow> seg_hi cur \<le> seg_lo new"
    "seg_so cur \<le> seg_so new \<longleftrightarrow> seg_lo cur \<le> seg_lo new"
    "last_byte new \<le> last_byte cur \<longleftrightarrow> seg_hi new \<le> seg_hi cur"
    "last_byte new < ucast (seg_so cur) \<longleftrightarrow> seg_hi new \<le> seg_lo cur"
    "last_byte new < last_byte cur \<longleftrightarrow> seg_hi new < seg_hi cur"
  using slice_ofD(1) [OF assms(1)] slice_ofD(1) [OF assms(2)]
    unat_last_byte [OF assms(1)] unat_last_byte [OF assms(2)]
  by (auto simp: word_less_nat_alt word_le_nat_alt)

lemma slice_cut:
  assumes "slice_of sdu a" "slice_of sdu s" "seg_lo s \<le> seg_hi a" "seg_hi a < seg_hi s"
  defines "t \<equiv> s\<lparr>seg_payload := drop (unat (last_byte a + 1 - ucast (seg_so s))) (seg_payload s),
                 seg_so := ucast (last_byte a + 1)\<rparr>"
  shows "slice_of sdu t" "seg_lo t = seg_hi a" "seg_hi t = seg_hi s"
proof -
  have hi: "seg_hi a < 65536"
    using slice_ofD(2) [OF assms(2)] assms(4) by simp
  have n: "unat (last_byte a + 1 - ucast (seg_so s)) = seg_hi a - seg_lo s"
    using unat_last_byte(2) [OF assms(1)] assms(3)
    by (subst unat_sub) (simp_all add: word_le_nat_alt)
  show lo: "seg_lo t = seg_hi a"
    using unat_last_byte(2) [OF assms(1)] hi
    by (simp add: t_def unsigned_ucast_eq take_bit_nat_eq_self)
  show h: "seg_hi t = seg_hi s"
    unfolding seg_hi_def [of t] lo using assms(3,4) by (simp add: t_def n) (simp add: seg_hi_def)
  have "seg_payload t = drop (seg_hi a - seg_lo s) (take (length (seg_payload s)) (drop (seg_lo s) sdu))"
    using assms(2) by (simp add: t_def n slice_of_def)
  also have "\<dots> = take (length (seg_payload t)) (drop (seg_lo t) sdu)"
    unfolding lo using assms(3) by (simp add: t_def n drop_take)
  finally have pl: "seg_payload t = take (length (seg_payload t)) (drop (seg_lo t) sdu)" .
  have "seg_payload t \<noteq> []"
    using h lo assms(4) by (auto simp: seg_hi_def [of t])
  moreover have "seg_si t = seg_si s"
    by (simp add: t_def)
  ultimately show "slice_of sdu t"
    using assms(2) h pl by (simp add: slice_of_def)
qed

lemma segment_insert_disjoint:
  assumes "segments_of sdu segs" "slice_of sdu s" "\<forall>t\<in>set segs. seg_hi t \<le> seg_lo s \<or> seg_hi s \<le> seg_lo t"
  shows "segments_of sdu (segment_insert s segs) \<and> set (segment_insert s segs) = insert s (set segs)"
  using assms(1,3)
proof (induction segs)
  case Nil
  then show ?case using assms(2) by (simp add: segments_of_def)
next
  case (Cons t ts)
  have t: "slice_of sdu t" and ts: "segments_of sdu ts" "\<forall>u\<in>set ts. seg_hi t \<le> seg_lo u"
    using Cons.prems by (auto simp: segments_of_def)
  have ne: "seg_lo t < seg_hi t" "seg_lo s < seg_hi s"
    using slice_ofD(1) t assms(2) by blast+
  have less: "segment_cmp s t \<longleftrightarrow> seg_hi s \<le> seg_lo t" "segment_cmp t s \<longleftrightarrow> seg_hi t \<le> seg_lo s"
    using Cons.prems(2) ne by (auto simp: segment_cmp_def word_less_nat_alt)
  show ?case
  proof (cases "seg_hi s \<le> seg_lo t")
    case True
    with Cons.prems assms(2) ne ts less show ?thesis
      by (fastforce simp: segments_of_def)
  next
    case False
    then have "seg_hi t \<le> seg_lo s"
      using Cons.prems(2) by auto
    with False Cons.IH [OF ts(1)] Cons.prems ts t less show ?thesis
      by (auto simp: segments_of_def)
  qed
qed

subsection \<open>Storing is union\<close>

text \<open>What the loop leaves behind: a set and a segment that fits into one of its holes.\<close>

definition store_post :: "byte list \<Rightarrow> rlc_rx_um_sdu_segment list \<Rightarrow> rlc_rx_um_sdu_segment
    \<Rightarrow> rlc_rx_um_sdu_segment list \<Rightarrow> rlc_rx_um_sdu_segment \<Rightarrow> bool" where
  "store_post sdu segs new segs' new' \<longleftrightarrow>
     segments_of sdu segs' \<and> slice_of sdu new' \<and>
     (\<forall>s\<in>set segs'. seg_hi s \<le> seg_lo new' \<or> seg_hi new' \<le> seg_lo s) \<and>
     covered segs' \<union> seg_range new' = covered segs \<union> seg_range new \<and>
     seg_lo new' \<in> seg_range new \<and> seg_lo new' \<notin> covered segs"

lemma segments_of_append:
  "segments_of sdu (xs @ ys) \<longleftrightarrow>
     segments_of sdu xs \<and> segments_of sdu ys \<and> (\<forall>x\<in>set xs. \<forall>y\<in>set ys. seg_hi x \<le> seg_lo y)"
  by (auto simp: segments_of_def sorted_wrt_append)

lemma segments_of_Cons:
  "segments_of sdu (x # ys) \<longleftrightarrow> slice_of sdu x \<and> segments_of sdu ys \<and> (\<forall>y\<in>set ys. seg_hi x \<le> seg_lo y)"
  by (auto simp: segments_of_def)

lemma above_not_covered: "\<forall>s\<in>set segs. n < seg_lo s \<Longrightarrow> n \<notin> covered segs"
  by (force simp: covered_def)

lemma below_not_covered: "\<forall>s\<in>set segs. seg_hi s \<le> n \<Longrightarrow> n \<notin> covered segs"
  by (force simp: covered_def)

lemma store_loop_front:
  assumes "slice_of sdu new" "\<forall>s\<in>set rest. slice_of sdu s \<and> seg_lo new < seg_lo s"
  shows "\<exists>segs'. store_loop rest segs new = Some (segs', new)"
  using assms(2)
proof (induction rest arbitrary: segs)
  case (Cons cur rest)
  then have cur: "slice_of sdu cur" "seg_lo new < seg_lo cur"
    by auto
  then show ?case
    using Cons store_conditions [OF cur(1) assms(1)] slice_ofD(1) [OF cur(1)] by (auto simp: Let_def)
qed simp

lemma hole_uncovered:
  assumes "\<forall>s\<in>set pre. seg_hi s \<le> n" "n < seg_lo cur" "\<forall>s\<in>set rest. seg_hi cur \<le> seg_lo s" "slice_of sdu cur"
  shows "n \<notin> covered (pre @ cur # rest)"
  using above_not_covered [of "cur # rest" n] below_not_covered [of pre n] slice_ofD(1) [OF assms(4)] assms(1-3)
  by force

text \<open>Trimming the front of the new segment only removes what the current segment covers.\<close>

lemma store_post_trim:
  assumes "store_post sdu segs t segs' new'" "seg_range cur \<subseteq> covered segs"
    and "seg_lo cur \<le> seg_lo new" "seg_lo new \<le> seg_lo t" "seg_lo t = seg_hi cur" "seg_hi t = seg_hi new"
  shows "store_post sdu segs new segs' new'"
proof -
  have "seg_range t \<subseteq> seg_range new" "seg_range new \<subseteq> seg_range cur \<union> seg_range t"
    using assms(3-6) by auto
  then show ?thesis
    using assms(1,2) unfolding store_post_def by blast
qed

text \<open>A new segment that covers the front of the current one leaves its tail.\<close>

lemma store_post_cut:
  assumes "segments_of sdu (pre @ cur # rest)" "slice_of sdu new" "\<forall>s\<in>set pre. seg_hi s \<le> seg_lo new"
    and "seg_lo new < seg_lo cur" "seg_lo cur < seg_hi new"
    and t: "slice_of sdu t" "seg_lo t = seg_hi new" "seg_hi t = seg_hi cur"
  shows "store_post sdu (pre @ cur # rest) new (segment_insert t (pre @ rest)) new"
proof -
  have cur: "slice_of sdu cur" and after: "\<forall>s\<in>set rest. seg_hi cur \<le> seg_lo s"
    and before: "\<forall>s\<in>set pre. seg_hi s \<le> seg_lo cur" and pr: "segments_of sdu (pre @ rest)"
    using assms(1) by (auto simp: segments_of_append segments_of_Cons)
  have ne: "seg_lo cur < seg_hi cur" "seg_lo new < seg_hi new" "seg_lo t < seg_hi t"
    using slice_ofD(1) cur assms(2) t(1) by blast+
  have ins: "segments_of sdu (segment_insert t (pre @ rest))"
    "set (segment_insert t (pre @ rest)) = insert t (set (pre @ rest))"
    using segment_insert_disjoint [OF pr t(1)] t before after assms(5) by force+
  have "covered (segment_insert t (pre @ rest)) \<union> seg_range new = covered (pre @ cur # rest) \<union> seg_range new"
    using t assms(4,5) ne unfolding covered_def ins(2) by auto
  moreover have "\<forall>s\<in>set (segment_insert t (pre @ rest)). seg_hi s \<le> seg_lo new \<or> seg_hi new \<le> seg_lo s"
    unfolding ins(2) using t ne after assms(3) by force
  moreover have "seg_lo new \<notin> covered (pre @ cur # rest)"
    by (rule hole_uncovered [OF assms(3,4) after cur])
  ultimately show ?thesis
    using ins(1) assms(2) ne by (simp add: store_post_def)
qed

text \<open>A swallowed segment may be removed before the new one is stored.\<close>

lemma store_post_swallow:
  assumes "store_post sdu (pre @ rest) new segs' new" "seg_range cur \<subseteq> seg_range new"
    and "seg_lo new \<notin> covered (pre @ cur # rest)"
  shows "store_post sdu (pre @ cur # rest) new segs' new"
  using assms unfolding store_post_def by auto

lemma store_loop_spec:
  assumes "segments_of sdu (pre @ rest)" "slice_of sdu new" "\<forall>s\<in>set pre. seg_hi s \<le> seg_lo new"
  shows "case store_loop rest (pre @ rest) new of
           None \<Rightarrow> seg_range new \<subseteq> covered rest
         | Some (segs', new') \<Rightarrow> store_post sdu (pre @ rest) new segs' new'"
  using assms
proof (induction rest arbitrary: pre new)
  case Nil
  then show ?case
    using slice_ofD(1) [OF Nil.prems(2)] below_not_covered [of pre "seg_lo new"]
    by (auto simp: store_post_def)
next
  case (Cons cur rest)
  have cur: "slice_of sdu cur" and after: "\<forall>s\<in>set rest. seg_hi cur \<le> seg_lo s"
    and before: "\<forall>s\<in>set pre. seg_hi s \<le> seg_lo cur" and pr: "segments_of sdu (pre @ rest)"
    using Cons.prems(1) by (auto simp: segments_of_append segments_of_Cons)
  have ne: "seg_lo cur < seg_hi cur" "seg_lo new < seg_hi new"
    using slice_ofD(1) cur Cons.prems(2) by blast+
  have rem: "remove1 cur (pre @ cur # rest) = pre @ rest"
    using before ne by (auto simp: remove1_append)
  note cond = store_conditions [OF cur Cons.prems(2)]
  consider (skip) "seg_hi cur \<le> seg_lo new"
    | (inside) "seg_lo new < seg_hi cur" "seg_lo cur \<le> seg_lo new" "seg_hi new \<le> seg_hi cur"
    | (trim) "seg_lo new < seg_hi cur" "seg_lo cur \<le> seg_lo new" "seg_hi cur < seg_hi new"
    | (hole) "seg_lo new < seg_lo cur" "seg_hi new \<le> seg_lo cur"
    | (cut) "seg_lo new < seg_lo cur" "seg_lo cur < seg_hi new" "seg_hi new < seg_hi cur"
    | (swallow) "seg_lo new < seg_lo cur" "seg_hi cur \<le> seg_hi new"
    using ne by linarith
  then show ?case
  proof cases
    case skip
    then show ?thesis
      using Cons.IH [of "pre @ [cur]" new] Cons.prems ne cond by (auto simp: Let_def split: option.splits)
  next
    case inside
    then show ?thesis using cond by (auto simp: Let_def)
  next
    case trim
    define t where "t = new\<lparr>seg_payload := drop (unat (last_byte cur + 1 - ucast (seg_so new))) (seg_payload new),
                            seg_so := ucast (last_byte cur + 1)\<rparr>"
    have t: "slice_of sdu t" "seg_lo t = seg_hi cur" "seg_hi t = seg_hi new"
      using slice_cut [OF cur Cons.prems(2)] trim by (simp_all add: t_def)
    have step: "store_loop (cur # rest) (pre @ cur # rest) new = store_loop rest ((pre @ [cur]) @ rest) t"
      using cond trim ne by (simp add: Let_def t_def)
    have "\<forall>s\<in>set (pre @ [cur]). seg_hi s \<le> seg_lo t"
      using t before ne by force
    from Cons.IH [of "pre @ [cur]" t, OF _ t(1) this] Cons.prems(1) show ?thesis
      unfolding step using t trim
      by (auto simp: subset_iff not_less split: option.splits intro: store_post_trim [where cur = cur and t = t])
  next
    case hole
    have "\<forall>s\<in>set (pre @ cur # rest). seg_hi s \<le> seg_lo new \<or> seg_hi new \<le> seg_lo s"
      using hole after Cons.prems(3) ne by force
    then have "store_post sdu (pre @ cur # rest) new (pre @ cur # rest) new"
      using Cons.prems ne hole_uncovered [OF Cons.prems(3) hole(1) after cur] by (simp add: store_post_def)
    then show ?thesis
      using cond hole ne by (simp add: Let_def)
  next
    case cut
    then show ?thesis
      using store_post_cut [OF Cons.prems cut(1,2) slice_cut [OF Cons.prems(2) cur]] cond ne
      by (simp add: Let_def rem)
  next
    case swallow
    have step: "store_loop (cur # rest) (pre @ cur # rest) new = store_loop rest (pre @ rest) new"
      using cond swallow ne by (simp add: Let_def rem)
    obtain segs' where r: "store_loop rest (pre @ rest) new = Some (segs', new)"
      using store_loop_front [OF Cons.prems(2), of rest] pr after ne swallow
      by (fastforce simp: segments_of_append segments_of_def)
    have "store_post sdu (pre @ cur # rest) new segs' new"
      using Cons.IH [OF pr Cons.prems(2,3)] swallow hole_uncovered [OF Cons.prems(3) swallow(1) after cur]
      by (intro store_post_swallow) (auto simp: r)
    then show ?thesis
      unfolding step r by simp
  qed
qed

lemma store_segment_spec:
  assumes "segments_of sdu (segments info)" "slice_of sdu new"
  shows "segments_of sdu (segments (snd (store_segment new info)))"
    "covered (segments (snd (store_segment new info))) = covered (segments info) \<union> seg_range new"
    "fst (store_segment new info) \<longleftrightarrow> \<not> seg_range new \<subseteq> covered (segments info)"
proof -
  have spec: "case store_loop (segments info) (segments info) new of
      None \<Rightarrow> seg_range new \<subseteq> covered (segments info)
    | Some (segs', new') \<Rightarrow> store_post sdu (segments info) new segs' new'"
    using store_loop_spec [of sdu "[]" "segments info" new, unfolded append_Nil] assms by simp
  have "segments_of sdu (segments (snd (store_segment new info))) \<and>
    covered (segments (snd (store_segment new info))) = covered (segments info) \<union> seg_range new \<and>
    (fst (store_segment new info) \<longleftrightarrow> \<not> seg_range new \<subseteq> covered (segments info))"
  proof (cases "store_loop (segments info) (segments info) new")
    case None
    then show ?thesis using spec assms by (auto simp: store_segment_def)
  next
    case (Some r)
    then obtain segs' new' where r: "store_loop (segments info) (segments info) new = Some (segs', new')"
      by (cases r) auto
    then have post: "store_post sdu (segments info) new segs' new'"
      using spec by simp
    have "segments_of sdu (segment_insert new' segs')" "set (segment_insert new' segs') = insert new' (set segs')"
      using segment_insert_disjoint [of sdu segs' new'] post by (auto simp: store_post_def)
    then have "covered (segment_insert new' segs') = covered segs' \<union> seg_range new'"
      by (auto simp: covered_def)
    moreover have "covered segs' \<union> seg_range new' = covered (segments info) \<union> seg_range new"
      and "\<not> seg_range new \<subseteq> covered (segments info)"
      using post unfolding store_post_def by blast+
    ultimately show ?thesis
      using \<open>segments_of sdu (segment_insert new' segs')\<close> by (simp add: store_segment_def r)
  qed
  then show "segments_of sdu (segments (snd (store_segment new info)))"
    "covered (segments (snd (store_segment new info))) = covered (segments info) \<union> seg_range new"
    "fst (store_segment new info) \<longleftrightarrow> \<not> seg_range new \<subseteq> covered (segments info)"
    by blast+
qed

subsection \<open>The inventory\<close>

lemma covered_bound: "segments_of sdu segs \<Longrightarrow> covered segs \<subseteq> {..<length sdu}"
  using slice_ofD(3) by (fastforce simp: segments_of_def covered_def)

lemma inventory_loop_spec:
  assumes "segments_of sdu segs" "\<forall>s\<in>set segs. n \<le> seg_lo s" "n < length sdu"
  shows "(fst (inventory_loop (of_nat n) segs) \<longleftrightarrow> {n..<length sdu} \<subseteq> covered segs) \<and>
    (snd (inventory_loop (of_nat n) segs) \<longleftrightarrow> (\<exists>i j. n \<le> i \<and> i < j \<and> i \<notin> covered segs \<and> j \<in> covered segs)) \<and>
    (fst (inventory_loop (of_nat n) segs) \<longrightarrow> concat (map seg_payload segs) = drop n sdu)"
  using assms
proof (induction segs arbitrary: n)
  case Nil
  then show ?case by auto
next
  case (Cons s ss)
  have s: "slice_of sdu s" and ss: "segments_of sdu ss" and after: "\<forall>t\<in>set ss. seg_hi s \<le> seg_lo t"
    using Cons.prems(1) by (auto simp: segments_of_Cons)
  note sd = slice_ofD [OF s]
  have eq: "ucast (seg_so s) = (of_nat n :: u32) \<longleftrightarrow> seg_lo s = n"
    using Cons.prems(3) sd by (auto simp: word_unat_eq_iff unsigned_of_nat take_bit_nat_eq_self)
  show ?case
  proof (cases "seg_lo s = n")
    case False
    then have lo: "n < seg_lo s"
      using Cons.prems(2) by auto
    then have "n \<notin> covered (s # ss)"
      using above_not_covered [of "s # ss" n] after sd by force
    moreover have "seg_lo s \<in> covered (s # ss)" "n \<in> {n..<length sdu}"
      using sd Cons.prems(3) by simp_all
    ultimately have "\<not> {n..<length sdu} \<subseteq> covered (s # ss)"
      "\<exists>i j. n \<le> i \<and> i < j \<and> i \<notin> covered (s # ss) \<and> j \<in> covered (s # ss)"
      using lo by blast+
    with False eq show ?thesis by simp
  next
    case True
    show ?thesis
    proof (cases "seg_si s = last_segment")
      case last: True
      then have hi: "seg_hi s = length sdu"
        using s by (simp add: slice_of_def)
      then have "ss = []"
        using after ss slice_ofD by (cases ss) (fastforce simp: segments_of_Cons)+
      moreover have "seg_payload s = drop n sdu"
        using s hi True by (simp add: slice_of_def seg_hi_def)
      ultimately show ?thesis
        using last eq True hi by auto
    next
      case middle: False
      then have hi: "seg_hi s < length sdu"
        using s sd by (auto simp: slice_of_def)
      have nb: "of_nat n + of_nat (length (seg_payload s)) = (of_nat (seg_hi s) :: u32)"
        using True by (simp add: seg_hi_def)
      have step: "inventory_loop (of_nat n) (s # ss) = inventory_loop (of_nat (seg_hi s)) ss"
        using middle eq True by (simp add: nb)
      have pl: "seg_payload s @ drop (seg_hi s) sdu = drop n sdu"
        using s True unfolding slice_of_def seg_hi_def by (metis append_take_drop_id drop_drop add.commute)
      have cov: "covered (s # ss) = {n..<seg_hi s} \<union> covered ss"
        using True by simp
      have gap: "(\<exists>i j. n \<le> i \<and> i < j \<and> i \<notin> covered (s # ss) \<and> j \<in> covered (s # ss)) \<longleftrightarrow>
          (\<exists>i j. seg_hi s \<le> i \<and> i < j \<and> i \<notin> covered ss \<and> j \<in> covered ss)" (is "?L \<longleftrightarrow> ?R")
      proof
        assume ?L
        then obtain i j where ij: "n \<le> i" "i < j" "i \<notin> {n..<seg_hi s}" "i \<notin> covered ss" "j \<in> {n..<seg_hi s} \<or> j \<in> covered ss"
          unfolding cov by blast
        then have "seg_hi s \<le> i" "j \<in> covered ss"
          by auto
        with ij show ?R by blast
      next
        assume ?R
        then obtain i j where ij: "seg_hi s \<le> i" "i < j" "i \<notin> covered ss" "j \<in> covered ss"
          by blast
        then have "n \<le> i" "i \<notin> {n..<seg_hi s}"
          using sd(1) True by auto
        with ij show ?L unfolding cov by blast
      qed
      have full: "{n..<length sdu} \<subseteq> covered (s # ss) \<longleftrightarrow> {seg_hi s..<length sdu} \<subseteq> covered ss"
      proof -
        have "{n..<length sdu} = {n..<seg_hi s} \<union> {seg_hi s..<length sdu}"
          using sd(1) True hi by auto
        moreover have "{seg_hi s..<length sdu} \<inter> {n..<seg_hi s} = {}"
          by auto
        ultimately show ?thesis
          unfolding cov by blast
      qed
      show ?thesis
        unfolding step gap full using Cons.IH [OF ss after hi] pl by auto
    qed
  qed
qed

text \<open>Together: after every stored segment the flags say what is covered.\<close>

definition sdu_info_ok :: "byte list \<Rightarrow> nat set \<Rightarrow> rlc_rx_um_sdu_info \<Rightarrow> bool" where
  "sdu_info_ok sdu C info \<longleftrightarrow>
     segments_of sdu (segments info) \<and> covered (segments info) = C \<and>
     (fully_received info \<longleftrightarrow> {..<length sdu} \<subseteq> C) \<and>
     (has_gap info \<longleftrightarrow> (\<exists>i j. i < j \<and> i \<notin> C \<and> j \<in> C))"

lemma sdu_info_ok_new: "sdu \<noteq> [] \<Longrightarrow> sdu_info_ok sdu {} sdu_info_new"
  by (auto simp: sdu_info_ok_def sdu_info_new_def segments_of_def)

lemma update_segment_inventory_ok:
  assumes "segments_of sdu (segments info)" "sdu \<noteq> []"
  shows "sdu_info_ok sdu (covered (segments info)) (update_segment_inventory info)"
proof (cases "segments info")
  case Nil
  then show ?thesis
    using assms by (auto simp: sdu_info_ok_def update_segment_inventory_def)
next
  case (Cons s ss)
  have "fst (inventory_loop 0 (segments info)) \<longleftrightarrow> {..<length sdu} \<subseteq> covered (segments info)"
    "snd (inventory_loop 0 (segments info)) \<longleftrightarrow>
       (\<exists>i j. i < j \<and> i \<notin> covered (segments info) \<and> j \<in> covered (segments info))"
    using inventory_loop_spec [of sdu "segments info" 0] assms by (simp_all add: atLeast0LessThan)
  with Cons assms show ?thesis
    by (simp add: sdu_info_ok_def update_segment_inventory_def split_beta Let_def)
qed

lemma store_and_update_ok:
  assumes "sdu_info_ok sdu C info" "slice_of sdu new"
  shows "sdu_info_ok sdu (C \<union> seg_range new) (update_segment_inventory (snd (store_segment new info)))"
proof -
  have segs: "segments_of sdu (segments info)" "covered (segments info) = C"
    using assms(1) by (simp_all add: sdu_info_ok_def)
  have "sdu \<noteq> []"
    using slice_ofD(1,3) [OF assms(2)] by auto
  from update_segment_inventory_ok [OF store_segment_spec(1) [OF segs(1) assms(2)] this]
  show ?thesis
    by (simp add: store_segment_spec(2) [OF segs(1) assms(2)] segs(2))
qed

lemma reassemble_ok:
  assumes "sdu_info_ok sdu C info" "sdu \<noteq> []"
  shows "reassemble_sdu info = (if {..<length sdu} \<subseteq> C then Some sdu else None)"
  using assms inventory_loop_spec [of sdu "segments info" 0]
  by (auto simp: sdu_info_ok_def reassemble_sdu_def atLeast0LessThan)

subsection \<open>Properties\<close>

text \<open>Storing a segment of an SDU keeps the stored segments sorted and disjoint, adds exactly its
  byte positions to the covered ones, and reports whether there was a new byte in it. Overlaps of
  every kind are trimmed; bytes already there are not stored twice.\<close>

theorem store_segment_is_union:
  assumes "segments_of sdu (segments info)" "slice_of sdu new"
  shows "segments_of sdu (segments (snd (store_segment new info))) \<and>
    covered (segments (snd (store_segment new info))) = covered (segments info) \<union> seg_range new \<and>
    (fst (store_segment new info) \<longleftrightarrow> \<not> seg_range new \<subseteq> covered (segments info))"
  using store_segment_spec [OF assms] by blast

theorem store_segment_is_union_witness:
  "covered (segments (snd (store_segment \<lparr>seg_si = middle_segment, seg_so = 1, seg_payload = [2, 3]\<rparr>
     \<lparr>fully_received = False, has_gap = False,
      segments = [\<lparr>seg_si = first_segment, seg_so = 0, seg_payload = [1, 2]\<rparr>]\<rparr>))) = {0..<2} \<union> {1..<3}"
proof -
  let ?info = "\<lparr>fully_received = False, has_gap = False,
      segments = [\<lparr>seg_si = first_segment, seg_so = 0, seg_payload = [1, 2]\<rparr>]\<rparr>"
  let ?new = "\<lparr>seg_si = middle_segment, seg_so = 1, seg_payload = [2, 3]\<rparr>"
  have "segments_of [1, 2, 3, 4] (segments ?info)" "slice_of [1, 2, 3, 4] ?new"
    by (simp_all add: segments_of_def slice_of_def seg_hi_def)
  from store_segment_is_union [OF this]
  have "covered (segments (snd (store_segment ?new ?info))) = covered (segments ?info) \<union> seg_range ?new"
    by blast
  also have "\<dots> = {0..<2} \<union> {1..<3}"
    by (simp add: seg_hi_def numeral_2_eq_2 numeral_3_eq_3)
  finally show ?thesis .
qed

text \<open>C12. Segments of one SDU that arrive in any order, repeated, overlapping or re-segmented: after the
  last of them the SDU counts as received exactly if every byte has arrived, there is a gap exactly if
  a byte is missing before one that arrived, and reassembly gives the SDU itself.\<close>

theorem reassembly_any_order:
  assumes "sdu \<noteq> []" "\<forall>s\<in>set segs. slice_of sdu s"
  defines "info \<equiv> fold (\<lambda>s i. update_segment_inventory (snd (store_segment s i))) segs sdu_info_new"
  shows "(fully_received info \<longleftrightarrow> {..<length sdu} \<subseteq> covered segs) \<and>
    (has_gap info \<longleftrightarrow> (\<exists>i j. i < j \<and> i \<notin> covered segs \<and> j \<in> covered segs)) \<and>
    reassemble_sdu info = (if {..<length sdu} \<subseteq> covered segs then Some sdu else None)"
proof -
  have "sdu_info_ok sdu (C \<union> covered segs)
      (fold (\<lambda>s i. update_segment_inventory (snd (store_segment s i))) segs i)" if "sdu_info_ok sdu C i" for C i
    using that assms(2)
  proof (induction segs arbitrary: C i)
    case (Cons s segs)
    from Cons.IH [OF store_and_update_ok [OF Cons.prems(1)]] Cons.prems(2) show ?case
      by (simp add: Un_assoc)
  qed simp
  from this [OF sdu_info_ok_new [OF assms(1)]] have "sdu_info_ok sdu (covered segs) info"
    by (simp add: info_def)
  with reassemble_ok [OF this assms(1)] show ?thesis
    by (simp add: sdu_info_ok_def)
qed

theorem reassembly_any_order_witness:
  "reassemble_sdu (fold (\<lambda>s i. update_segment_inventory (snd (store_segment s i)))
     [\<lparr>seg_si = last_segment, seg_so = 2, seg_payload = [3, 4]\<rparr>,
      \<lparr>seg_si = first_segment, seg_so = 0, seg_payload = [1, 2, 3]\<rparr>,
      \<lparr>seg_si = last_segment, seg_so = 3, seg_payload = [4]\<rparr>] sdu_info_new) = Some [1, 2, 3, 4]"
proof -
  have "{..<length [1, 2, 3, 4 :: byte]} = {0, 1, 2, 3}"
    by auto
  then show ?thesis
    using reassembly_any_order [of "[1, 2, 3, 4]" "[\<lparr>seg_si = last_segment, seg_so = 2, seg_payload = [3, 4]\<rparr>,
      \<lparr>seg_si = first_segment, seg_so = 0, seg_payload = [1, 2, 3]\<rparr>,
      \<lparr>seg_si = last_segment, seg_so = 3, seg_payload = [4]\<rparr>]"]
    by (simp add: slice_of_def seg_hi_def)
qed

end
