(* ===== verification/Circular_Map.thy ===== *)
theory Circular_Map
  imports Prelude "HOL-Library.Multiset"
begin

text \<open>
  The circular map of \<^verbatim>\<open>include/srsran/adt/circular_map.h\<close> and the SDU window of
  \<^verbatim>\<open>lib/support/sdu_window_impl.h\<close> built on it: a table of \<open>N\<close> slots in which the object with key
  \<open>k\<close> is stored at index \<open>k % N\<close>. The arrays \<^verbatim>\<open>present\<close> and \<^verbatim>\<open>buffer\<close> together are a list of optional
  pairs; \<open>N\<close> is its length. Abstractly the structure is a partial map whose keys are pairwise
  incongruent modulo \<open>N\<close>.
\<close>

subsection \<open>Operations\<close>

record 'v circular_map =
  cm_slots :: "(nat \<times> 'v) option list"
  cm_count :: nat

abbreviation cm_size :: "'v circular_map \<Rightarrow> nat" where
  "cm_size m \<equiv> length (cm_slots m)"

definition cm_new :: "nat \<Rightarrow> 'v circular_map" where
  "cm_new n = \<lparr>cm_slots = replicate n None, cm_count = 0\<rparr>"

definition cm_contains :: "nat \<Rightarrow> 'v circular_map \<Rightarrow> bool" where
  "cm_contains key m =
     (let idx = key mod cm_size m
      in case cm_slots m ! idx of None \<Rightarrow> False | Some (k, v) \<Rightarrow> k = key)"

definition cm_insert :: "nat \<Rightarrow> 'v \<Rightarrow> 'v circular_map \<Rightarrow> bool \<times> 'v circular_map" where
  "cm_insert key obj m =
     (let idx = key mod cm_size m
      in if cm_slots m ! idx \<noteq> None then (False, m)
         else (True, m\<lparr>cm_slots := (cm_slots m)[idx := Some (key, obj)], cm_count := cm_count m + 1\<rparr>))"

definition cm_erase :: "nat \<Rightarrow> 'v circular_map \<Rightarrow> bool \<times> 'v circular_map" where
  "cm_erase key m =
     (if \<not> cm_contains key m then (False, m)
      else let idx = key mod cm_size m
           in (True, m\<lparr>cm_slots := (cm_slots m)[idx := None], cm_count := cm_count m - 1\<rparr>))"

definition cm_overwrite :: "nat \<Rightarrow> 'v \<Rightarrow> 'v circular_map \<Rightarrow> 'v circular_map" where
  "cm_overwrite key obj m =
     (let idx = key mod cm_size m;
          m' = (case cm_slots m ! idx of None \<Rightarrow> m | Some (k, v) \<Rightarrow> snd (cm_erase k m))
      in snd (cm_insert key obj m'))"

definition cm_clear :: "'v circular_map \<Rightarrow> 'v circular_map" where
  "cm_clear m = \<lparr>cm_slots = map (\<lambda>_. None) (cm_slots m), cm_count = 0\<rparr>"

definition cm_at :: "nat \<Rightarrow> 'v circular_map \<Rightarrow> 'v result" where
  "cm_at key m =
     (if \<not> cm_contains key m then Inl Assertion_Failed
      else case cm_slots m ! (key mod cm_size m) of
             Some (k, v) \<Rightarrow> Inr v
           | None \<Rightarrow> Inl Assertion_Failed)"

definition cm_empty :: "'v circular_map \<Rightarrow> bool" where
  "cm_empty m \<longleftrightarrow> cm_count m = 0"

definition cm_full :: "'v circular_map \<Rightarrow> bool" where
  "cm_full m \<longleftrightarrow> cm_count m = cm_size m"

definition cm_has_space :: "nat \<Rightarrow> 'v circular_map \<Rightarrow> bool" where
  "cm_has_space key m \<longleftrightarrow> cm_slots m ! (key mod cm_size m) = None"

text \<open>A write through the reference that \<^verbatim>\<open>operator[]\<close> returns.\<close>

definition cm_put :: "nat \<Rightarrow> 'v \<Rightarrow> 'v circular_map \<Rightarrow> 'v circular_map result" where
  "cm_put key obj m =
     (if \<not> cm_contains key m then Inl Assertion_Failed
      else Inr (m\<lparr>cm_slots := (cm_slots m)[key mod cm_size m := Some (key, obj)]\<rparr>))"

text \<open>The iterator visits the occupied slots in the order of their indices.\<close>

definition cm_items :: "'v circular_map \<Rightarrow> (nat \<times> 'v) list" where
  "cm_items m = map the (filter (\<lambda>x. x \<noteq> None) (cm_slots m))"

subsection \<open>The SDU window\<close>

definition window_add_sn :: "nat \<Rightarrow> 'v \<Rightarrow> 'v circular_map \<Rightarrow> 'v circular_map result" where
  "window_add_sn sn dflt m =
     (if cm_contains sn m then Inl Assertion_Failed else Inr (cm_overwrite sn dflt m))"

definition window_remove_sn :: "nat \<Rightarrow> 'v circular_map \<Rightarrow> 'v circular_map result" where
  "window_remove_sn sn m =
     (if \<not> cm_contains sn m then Inl Assertion_Failed else Inr (snd (cm_erase sn m)))"

subsection \<open>Abstraction\<close>

definition cm_lookup :: "'v circular_map \<Rightarrow> nat \<rightharpoonup> 'v" where
  "cm_lookup m key =
     (case cm_slots m ! (key mod cm_size m) of
        None \<Rightarrow> None
      | Some (k, v) \<Rightarrow> if k = key then Some v else None)"

definition cm_inv :: "'v circular_map \<Rightarrow> bool" where
  "cm_inv m \<longleftrightarrow>
     0 < cm_size m \<and> cm_count m = length (cm_items m) \<and>
     (\<forall>i < cm_size m. \<forall>k v. cm_slots m ! i = Some (k, v) \<longrightarrow> k mod cm_size m = i)"

lemma cm_contains_iff: "cm_contains key m \<longleftrightarrow> key \<in> dom (cm_lookup m)"
  by (auto simp: cm_contains_def cm_lookup_def Let_def split: option.splits if_splits)

lemma cm_slot_in_range [simp]: "0 < cm_size m \<Longrightarrow> key mod cm_size m < cm_size m"
  by simp

lemma length_filter_update:
  assumes "i < length xs"
  shows "length (filter P (xs[i := x])) + (if P (xs ! i) then 1 else 0) =
         length (filter P xs) + (if P x then 1 else 0)"
proof -
  have "mset (xs[i := x]) + {# xs ! i #} = mset xs + {# x #}"
    using assms by (simp add: mset_update)
  then have "size (filter_mset P (mset (xs[i := x]) + {# xs ! i #})) = size (filter_mset P (mset xs + {# x #}))"
    by simp
  then show ?thesis
    by (simp flip: mset_filter split: if_splits)
qed

text \<open>Every operation only changes the slot of its key.\<close>

lemma cm_lookup_update:
  assumes "0 < cm_size m"
  shows "cm_lookup (m\<lparr>cm_slots := (cm_slots m)[key mod cm_size m := x], cm_count := c\<rparr>) j =
    (if j mod cm_size m = key mod cm_size m
     then (case x of None \<Rightarrow> None | Some (k, v) \<Rightarrow> if k = j then Some v else None)
     else cm_lookup m j)"
  using assms by (simp add: cm_lookup_def)

lemma cm_inv_update:
  assumes "cm_inv m" "\<And>k v. x = Some (k, v) \<Longrightarrow> k mod cm_size m = key mod cm_size m"
    and "c + (if cm_slots m ! (key mod cm_size m) \<noteq> None then 1 else 0) = cm_count m + (if x \<noteq> None then 1 else 0)"
  shows "cm_inv (m\<lparr>cm_slots := (cm_slots m)[key mod cm_size m := x], cm_count := c\<rparr>)"
  using assms length_filter_update [of "key mod cm_size m" "cm_slots m" "\<lambda>x. x \<noteq> None" x]
  by (auto simp: cm_inv_def cm_items_def nth_list_update)

lemma cm_new_inv: "0 < n \<Longrightarrow> cm_inv (cm_new n)"
  by (simp add: cm_inv_def cm_new_def cm_items_def)

lemma cm_lookup_new: "0 < n \<Longrightarrow> cm_lookup (cm_new n) = Map.empty"
  by (auto simp: cm_lookup_def cm_new_def)

lemma cm_size_new [simp]: "cm_size (cm_new n) = n"
  by (simp add: cm_new_def)

lemma cm_insert_spec:
  assumes "cm_inv m"
  shows "cm_inv (snd (cm_insert key v m))" "cm_size (snd (cm_insert key v m)) = cm_size m"
    "cm_lookup (snd (cm_insert key v m)) =
       (if fst (cm_insert key v m) then (cm_lookup m)(key \<mapsto> v) else cm_lookup m)"
    "fst (cm_insert key v m) = cm_has_space key m"
proof -
  have pos: "0 < cm_size m"
    using assms by (simp add: cm_inv_def)
  show "cm_inv (snd (cm_insert key v m))"
    using assms cm_inv_update [OF assms, of "Some (key, v)" key "cm_count m + 1"]
    by (simp add: cm_insert_def Let_def)
  show "cm_size (snd (cm_insert key v m)) = cm_size m" "fst (cm_insert key v m) = cm_has_space key m"
    by (cases "cm_slots m ! (key mod cm_size m)"; simp add: cm_insert_def cm_has_space_def Let_def)+
  show "cm_lookup (snd (cm_insert key v m)) =
      (if fst (cm_insert key v m) then (cm_lookup m)(key \<mapsto> v) else cm_lookup m)"
    using pos
    by (cases "cm_slots m ! (key mod cm_size m)")
      (auto simp: cm_insert_def Let_def cm_lookup_update cm_lookup_def [of m])
qed

lemma cm_erase_spec:
  assumes "cm_inv m"
  shows "cm_inv (snd (cm_erase key m))" "cm_size (snd (cm_erase key m)) = cm_size m"
    "cm_lookup (snd (cm_erase key m)) = (cm_lookup m)(key := None)"
    "fst (cm_erase key m) = cm_contains key m"
proof -
  have pos: "0 < cm_size m"
    using assms by (simp add: cm_inv_def)
  have slot: "cm_contains key m \<Longrightarrow> \<exists>v. cm_slots m ! (key mod cm_size m) = Some (key, v)"
    by (auto simp: cm_contains_def Let_def split: option.splits)
  have cnt: "cm_contains key m \<Longrightarrow> 0 < cm_count m"
    using assms slot pos nth_mem [of "key mod cm_size m" "cm_slots m"]
    by (auto simp: cm_inv_def cm_items_def length_greater_0_conv filter_empty_conv simp del: nth_mem)
  show "cm_inv (snd (cm_erase key m))"
    using assms cm_inv_update [OF assms, of None key "cm_count m - 1"] slot cnt
    by (auto simp: cm_erase_def Let_def)
  show "cm_size (snd (cm_erase key m)) = cm_size m" "fst (cm_erase key m) = cm_contains key m"
    by (simp_all add: cm_erase_def Let_def)
  show "cm_lookup (snd (cm_erase key m)) = (cm_lookup m)(key := None)"
  proof (cases "cm_contains key m")
    case True
    then show ?thesis
      using pos slot by (auto simp: cm_erase_def Let_def cm_lookup_update cm_lookup_def [of m])
  next
    case False
    then have "cm_lookup m key = None"
      by (auto simp: cm_contains_iff)
    then show ?thesis
      using False by (simp add: cm_erase_def fun_upd_idem)
  qed
qed

lemma cm_overwrite_spec:
  assumes "cm_inv m"
  shows "cm_inv (cm_overwrite key v m)" "cm_size (cm_overwrite key v m) = cm_size m"
    "cm_lookup (cm_overwrite key v m) =
       (\<lambda>j. if j = key then Some v else if j mod cm_size m = key mod cm_size m then None else cm_lookup m j)"
proof -
  define m' where "m' = (case cm_slots m ! (key mod cm_size m) of None \<Rightarrow> m | Some (k, v) \<Rightarrow> snd (cm_erase k m))"
  have pos: "0 < cm_size m"
    using assms by (simp add: cm_inv_def)
  have m': "cm_inv m'" "cm_size m' = cm_size m"
    using assms cm_erase_spec [OF assms] by (auto simp: m'_def split: option.splits)
  have slot: "cm_slots m' ! (key mod cm_size m) = None"
  proof (cases "cm_slots m ! (key mod cm_size m)")
    case (Some kv)
    then obtain k w where kw: "cm_slots m ! (key mod cm_size m) = Some (k, w)"
      by (cases kv) auto
    then have "k mod cm_size m = key mod cm_size m"
      using assms pos by (auto simp: cm_inv_def)
    then show ?thesis
      using kw pos by (simp add: m'_def cm_erase_def cm_contains_def Let_def)
  qed (simp add: m'_def)
  have look: "cm_lookup m' j = cm_lookup m j" if "j mod cm_size m \<noteq> key mod cm_size m" for j
  proof (cases "cm_slots m ! (key mod cm_size m)")
    case (Some kv)
    obtain k w where kw: "kv = (k, w)"
      by (cases kv)
    then have "k mod cm_size m = key mod cm_size m"
      using assms pos Some by (auto simp: cm_inv_def)
    then have "j \<noteq> k"
      using that by auto
    then show ?thesis
      using Some kw cm_erase_spec(3) [OF assms, of k] by (simp add: m'_def)
  qed (simp add: m'_def)
  have ow: "cm_overwrite key v m = snd (cm_insert key v m')"
    by (simp add: cm_overwrite_def m'_def Let_def)
  have ins: "fst (cm_insert key v m')"
    using slot m' by (simp add: cm_insert_def)
  show "cm_inv (cm_overwrite key v m)" "cm_size (cm_overwrite key v m) = cm_size m"
    using cm_insert_spec(1,2) [OF m'(1)] m'(2) by (simp_all add: ow)
  show "cm_lookup (cm_overwrite key v m) =
       (\<lambda>j. if j = key then Some v else if j mod cm_size m = key mod cm_size m then None else cm_lookup m j)"
    unfolding ow cm_insert_spec(3) [OF m'(1)] using ins look slot m'(2)
    by (auto simp: cm_lookup_def [of m'])
qed

lemma cm_at_spec: "cm_at key m = (case cm_lookup m key of None \<Rightarrow> Inl Assertion_Failed | Some v \<Rightarrow> Inr v)"
  by (auto simp: cm_at_def cm_contains_def cm_lookup_def Let_def split: option.splits)

lemma cm_put_spec:
  assumes "cm_inv m" "cm_lookup m key \<noteq> None"
  obtains m' where "cm_put key v m = Inr m'" "cm_inv m'" "cm_size m' = cm_size m"
    "cm_lookup m' = (cm_lookup m)(key \<mapsto> v)"
proof -
  have pos: "0 < cm_size m" and c: "cm_contains key m"
    using assms by (auto simp: cm_inv_def cm_contains_iff)
  then have slot: "\<exists>v. cm_slots m ! (key mod cm_size m) = Some (key, v)"
    by (auto simp: cm_contains_def Let_def split: option.splits)
  let ?m = "m\<lparr>cm_slots := (cm_slots m)[key mod cm_size m := Some (key, v)], cm_count := cm_count m\<rparr>"
  have "cm_put key v m = Inr ?m"
    using c by (simp add: cm_put_def)
  moreover have "cm_inv ?m"
    using slot by (intro cm_inv_update [OF assms(1)]) auto
  moreover have "cm_lookup ?m = (cm_lookup m)(key \<mapsto> v)"
    using slot pos by (intro ext) (auto simp: cm_lookup_def nth_list_update)
  ultimately show thesis
    by (intro that) auto
qed

subsection \<open>Sizes\<close>

lemma distinct_keys:
  fixes xs :: "(nat \<times> 'v) option list"
  assumes "\<forall>i < length xs. \<forall>j < length xs. \<forall>k v w. xs ! i = Some (k, v) \<longrightarrow> xs ! j = Some (k, w) \<longrightarrow> i = j"
  shows "distinct (map fst (map the (filter (\<lambda>x. x \<noteq> None) xs)))"
  using assms
proof (induction xs)
  case (Cons x xs)
  have tl: "\<forall>i < length xs. \<forall>j < length xs. \<forall>k v w. xs ! i = Some (k, v) \<longrightarrow> xs ! j = Some (k, w) \<longrightarrow> i = j"
    using Cons.prems by fastforce
  have hd: "Some (k, w) \<notin> set xs" if "x = Some (k, v)" for k v w
    using Cons.prems that by (fastforce simp: in_set_conv_nth)
  show ?case
    using Cons.IH [OF tl] hd by (cases x) force+
qed simp

lemma distinct_cm_items:
  assumes "cm_inv m"
  shows "distinct (map fst (cm_items m))" "set (map fst (cm_items m)) = dom (cm_lookup m)"
proof -
  have "\<forall>i < cm_size m. \<forall>j < cm_size m. \<forall>k v w.
      cm_slots m ! i = Some (k, v) \<longrightarrow> cm_slots m ! j = Some (k, w) \<longrightarrow> i = j"
    using assms unfolding cm_inv_def by metis
  from distinct_keys [OF this] show "distinct (map fst (cm_items m))"
    by (simp add: cm_items_def)
  show "set (map fst (cm_items m)) = dom (cm_lookup m)"
  proof -
    have "k \<in> fst ` set (cm_items m) \<longleftrightarrow> (\<exists>i < cm_size m. \<exists>v. cm_slots m ! i = Some (k, v))" for k
      by (force simp: cm_items_def in_set_conv_nth image_iff)
    moreover have "(\<exists>i < cm_size m. \<exists>v. cm_slots m ! i = Some (k, v)) \<longleftrightarrow> k \<in> dom (cm_lookup m)" for k
    proof
      show "\<exists>i < cm_size m. \<exists>v. cm_slots m ! i = Some (k, v) \<Longrightarrow> k \<in> dom (cm_lookup m)"
        using assms by (auto simp: cm_inv_def cm_lookup_def dom_def)
      assume "k \<in> dom (cm_lookup m)"
      then obtain v where "cm_slots m ! (k mod cm_size m) = Some (k, v)"
        by (auto simp: cm_lookup_def split: option.splits if_splits)
      moreover have "k mod cm_size m < cm_size m"
        using assms by (simp add: cm_inv_def)
      ultimately show "\<exists>i < cm_size m. \<exists>v. cm_slots m ! i = Some (k, v)"
        by blast
    qed
    ultimately show ?thesis
      by auto
  qed
qed

lemma cm_count_card: "cm_inv m \<Longrightarrow> cm_count m = card (dom (cm_lookup m))"
  using distinct_cm_items [of m] distinct_card [of "map fst (cm_items m)"] by (simp add: cm_inv_def)

lemma cm_count_le: "cm_inv m \<Longrightarrow> cm_count m \<le> cm_size m"
  by (simp add: cm_inv_def cm_items_def)

subsection \<open>The contract of a window\<close>

text \<open>What the RLC entities rely on: a store indexed by sequence numbers that holds one entry per residue.\<close>

locale sdu_window =
  fixes inv :: "'s \<Rightarrow> bool"
    and look :: "'s \<Rightarrow> nat \<rightharpoonup> 'v"
    and cap :: "'s \<Rightarrow> nat"
    and add :: "nat \<Rightarrow> 'v \<Rightarrow> 's \<Rightarrow> 's result"
    and remove :: "nat \<Rightarrow> 's \<Rightarrow> 's result"
    and put :: "nat \<Rightarrow> 'v \<Rightarrow> 's \<Rightarrow> 's result"
  assumes add_new: "inv s \<Longrightarrow> look s sn = None \<Longrightarrow>
      \<exists>s'. add sn v s = Inr s' \<and> inv s' \<and> cap s' = cap s \<and>
           look s' = (\<lambda>j. if j = sn then Some v else if j mod cap s = sn mod cap s then None else look s j)"
    and remove_present: "inv s \<Longrightarrow> look s sn \<noteq> None \<Longrightarrow>
      \<exists>s'. remove sn s = Inr s' \<and> inv s' \<and> cap s' = cap s \<and> look s' = (look s)(sn := None)"
    and put_present: "inv s \<Longrightarrow> look s sn \<noteq> None \<Longrightarrow>
      \<exists>s'. put sn v s = Inr s' \<and> inv s' \<and> cap s' = cap s \<and> look s' = (look s)(sn \<mapsto> v)"
begin

text \<open>Inside a range of \<open>cap\<close> consecutive numbers nothing is evicted.\<close>

lemma add_in_range:
  assumes "inv s" "look s sn = None" "dom (look s) \<subseteq> {lo..<lo + cap s}" "sn \<in> {lo..<lo + cap s}"
  shows "\<exists>s'. add sn v s = Inr s' \<and> inv s' \<and> cap s' = cap s \<and> look s' = (look s)(sn \<mapsto> v)"
proof -
  have ne: "j mod cap s \<noteq> sn mod cap s" if "j \<in> dom (look s)" "j \<noteq> sn" for j
  proof
    assume eq: "j mod cap s = sn mod cap s"
    have j: "lo \<le> j" "j < lo + cap s" and sn: "lo \<le> sn" "sn < lo + cap s"
      using assms that by auto
    from eq have "cap s dvd (max j sn - min j sn)"
      by (metis max_def min_def mod_eq_dvd_iff_nat nat_le_linear)
    moreover have "max j sn - min j sn < cap s" "0 < max j sn - min j sn"
      using j sn that by auto
    ultimately show False
      by (simp add: nat_dvd_not_less)
  qed
  obtain s' where s': "add sn v s = Inr s'" "inv s'" "cap s' = cap s"
    and look: "look s' = (\<lambda>j. if j = sn then Some v else if j mod cap s = sn mod cap s then None else look s j)"
    using add_new [OF assms(1,2)] by blast
  have "look s' j = ((look s)(sn \<mapsto> v)) j" for j
    using ne [of j] by (cases "look s j") (auto simp: look)
  then have "look s' = (look s)(sn \<mapsto> v)"
    by (rule ext)
  with s' show ?thesis
    by blast
qed

end

interpretation circ: sdu_window cm_inv cm_lookup cm_size window_add_sn window_remove_sn cm_put
proof
  fix s :: "'v circular_map" and sn v
  assume "cm_inv s"
  then show "cm_lookup s sn = None \<Longrightarrow> \<exists>s'. window_add_sn sn v s = Inr s' \<and> cm_inv s' \<and> cm_size s' = cm_size s \<and>
      cm_lookup s' = (\<lambda>j. if j = sn then Some v else if j mod cm_size s = sn mod cm_size s then None else cm_lookup s j)"
    using cm_overwrite_spec [of s sn v] by (auto simp: window_add_sn_def cm_contains_iff)
  show "cm_lookup s sn \<noteq> None \<Longrightarrow> \<exists>s'. window_remove_sn sn s = Inr s' \<and> cm_inv s' \<and> cm_size s' = cm_size s \<and>
      cm_lookup s' = (cm_lookup s)(sn := None)"
    using cm_erase_spec [OF \<open>cm_inv s\<close>, of sn] by (auto simp: window_remove_sn_def cm_contains_iff)
  show "cm_lookup s sn \<noteq> None \<Longrightarrow> \<exists>s'. cm_put sn v s = Inr s' \<and> cm_inv s' \<and> cm_size s' = cm_size s \<and>
      cm_lookup s' = (cm_lookup s)(sn \<mapsto> v)"
    using cm_put_spec [OF \<open>cm_inv s\<close>, of sn v] by blast
qed

subsection \<open>Sequences of operations\<close>

datatype 'v cm_op = Cm_Insert nat 'v | Cm_Overwrite nat 'v | Cm_Erase nat | Cm_Clear

primrec cm_exec :: "'v cm_op \<Rightarrow> 'v circular_map \<Rightarrow> 'v circular_map" where
  "cm_exec (Cm_Insert k v) m = snd (cm_insert k v m)"
| "cm_exec (Cm_Overwrite k v) m = cm_overwrite k v m"
| "cm_exec (Cm_Erase k) m = snd (cm_erase k m)"
| "cm_exec Cm_Clear m = cm_clear m"

text \<open>On partial maps: inserting needs a free residue, overwriting drops the key that has the residue.\<close>

primrec cm_spec :: "nat \<Rightarrow> 'v cm_op \<Rightarrow> (nat \<rightharpoonup> 'v) \<Rightarrow> (nat \<rightharpoonup> 'v)" where
  "cm_spec n (Cm_Insert k v) f = (if \<exists>j\<in>dom f. j mod n = k mod n then f else f(k \<mapsto> v))"
| "cm_spec n (Cm_Overwrite k v) f = (f |` {j. j mod n \<noteq> k mod n})(k \<mapsto> v)"
| "cm_spec n (Cm_Erase k) f = f(k := None)"
| "cm_spec n Cm_Clear f = Map.empty"

lemma cm_has_space_iff:
  assumes "cm_inv m"
  shows "cm_has_space k m \<longleftrightarrow> (\<forall>j\<in>dom (cm_lookup m). j mod cm_size m \<noteq> k mod cm_size m)"
proof (cases "cm_slots m ! (k mod cm_size m)")
  case None
  then show ?thesis
    by (auto simp: cm_has_space_def cm_lookup_def split: option.splits if_splits)
next
  case (Some a)
  obtain j v where a: "a = (j, v)"
    by (cases a)
  have "k mod cm_size m < cm_size m"
    using assms by (simp add: cm_inv_def)
  then have "j mod cm_size m = k mod cm_size m"
    using assms Some unfolding a cm_inv_def by blast
  then have "cm_lookup m j = Some v" "j mod cm_size m = k mod cm_size m"
    using Some by (simp_all add: cm_lookup_def a)
  then show ?thesis
    using Some by (auto simp: cm_has_space_def)
qed

lemma cm_clear_spec:
  assumes "cm_inv m"
  shows "cm_inv (cm_clear m)" "cm_size (cm_clear m) = cm_size m" "cm_lookup (cm_clear m) = Map.empty"
  using assms by (auto simp: cm_inv_def cm_clear_def cm_items_def cm_lookup_def fun_eq_iff)

lemma cm_exec_spec:
  assumes "cm_inv m"
  shows "cm_inv (cm_exec op m)" "cm_size (cm_exec op m) = cm_size m" "cm_lookup (cm_exec op m) = cm_spec (cm_size m) op (cm_lookup m)"
  using assms cm_has_space_iff [OF assms]
  by (cases op; simp add: cm_insert_spec cm_overwrite_spec cm_erase_spec cm_clear_spec restrict_map_def fun_eq_iff)+

text \<open>C5. The circular map refines a partial map: after any sequence of insertions, overwrites, erasures and
  clears the lookups and membership tests are those of the partial map that the same operations build,
  and the element count is the number of its keys.\<close>

theorem circular_map_refines_map:
  assumes "0 < n"
  shows "cm_lookup (fold cm_exec ops (cm_new n)) = fold (cm_spec n) ops Map.empty \<and>
    (cm_contains k (fold cm_exec ops (cm_new n)) \<longleftrightarrow> k \<in> dom (fold (cm_spec n) ops Map.empty)) \<and>
    cm_count (fold cm_exec ops (cm_new n)) = card (dom (fold (cm_spec n) ops Map.empty))"
proof -
  have "cm_inv (fold cm_exec ops m) \<and> cm_lookup (fold cm_exec ops m) = fold (cm_spec (cm_size m)) ops (cm_lookup m)"
    if "cm_inv m" for m
    using that by (induction ops arbitrary: m) (simp_all add: cm_exec_spec)
  from this [OF cm_new_inv [OF assms]] show ?thesis
    using assms by (simp add: cm_lookup_new cm_contains_iff cm_count_card)
qed

theorem circular_map_refines_map_witness:
  "cm_contains 5 (fold cm_exec [Cm_Insert 1 (10 :: nat), Cm_Insert 5 20, Cm_Erase 1, Cm_Insert 5 30] (cm_new 4))"
proof -
  have "5 \<in> dom (fold (cm_spec 4) [Cm_Insert 1 (10 :: nat), Cm_Insert 5 20, Cm_Erase 1, Cm_Insert 5 30] Map.empty)"
    by (simp add: dom_def)
  moreover have "0 < (4 :: nat)"
    by simp
  ultimately show ?thesis
    using circular_map_refines_map [of 4 "[Cm_Insert 1 (10 :: nat), Cm_Insert 5 20, Cm_Erase 1, Cm_Insert 5 30]" 5] by blast
qed

end
