(* ===== verification/Rlc_Um_Rx.thy ===== *)
theory Rlc_Um_Rx
  imports Rlc_Um_Segments Circular_Map
begin

text \<open>
  The receiving RLC unacknowledged mode entity of \<^verbatim>\<open>lib/rlc/rlc_rx_um_entity.cpp\<close>: window arithmetic,
  \<^verbatim>\<open>handle_pdu\<close> with everything it does to the window, the state variables and the reassembly timer, and
  the expiry of that timer. What is passed to the upper layer is appended to \<open>delivered\<close>; the counters
  of lost and malformed PDUs are kept, other metrics, logging and packet capture are not. Buffer
  allocation always succeeds. The timer is the flag whether it runs; its expiry is an event.
\<close>

subsection \<open>State\<close>

record rlc_rx_um_entity =
  sn_field_length :: rlc_um_sn_size
  rx_next_reassembly :: u32
  rx_timer_trigger :: u32
  rx_next_highest :: u32
  rx_window :: "rlc_rx_um_sdu_info circular_map"
  reassembly_timer :: bool
  delivered :: "byte list list"
  lost_pdus :: nat
  malformed_pdus :: nat

definition um_mod :: "rlc_um_sn_size \<Rightarrow> u32" where
  "um_mod sz = of_nat (cardinality (um_sn_size_to_number sz))"

definition um_window_size :: "rlc_um_sn_size \<Rightarrow> u32" where
  "um_window_size sz = of_nat (window_size (um_sn_size_to_number sz))"

definition create_rx_window :: "rlc_um_sn_size \<Rightarrow> rlc_rx_um_sdu_info circular_map" where
  "create_rx_window sz = cm_new (window_size (um_sn_size_to_number sz))"

definition rlc_rx_um_entity_new :: "rlc_um_sn_size \<Rightarrow> rlc_rx_um_entity" where
  "rlc_rx_um_entity_new sz =
     \<lparr>sn_field_length = sz, rx_next_reassembly = 0, rx_timer_trigger = 0, rx_next_highest = 0,
      rx_window = create_rx_window sz, reassembly_timer = False, delivered = [], lost_pdus = 0, malformed_pdus = 0\<rparr>"

subsection \<open>Window arithmetic\<close>

definition rx_mod_base :: "rlc_um_sn_size \<Rightarrow> u32 \<Rightarrow> u32 \<Rightarrow> u32" where
  "rx_mod_base sz nh x = (x - nh - um_window_size sz) mod um_mod sz"

definition sn_in_reassembly_window :: "rlc_um_sn_size \<Rightarrow> u32 \<Rightarrow> u32 \<Rightarrow> bool" where
  "sn_in_reassembly_window sz nh sn \<longleftrightarrow>
     rx_mod_base sz nh (nh - um_window_size sz) \<le> rx_mod_base sz nh sn \<and>
     rx_mod_base sz nh sn < rx_mod_base sz nh nh"

definition sn_invalid_for_rx_buffer :: "rlc_rx_um_entity \<Rightarrow> u32 \<Rightarrow> bool" where
  "sn_invalid_for_rx_buffer e sn \<longleftrightarrow>
     (let base = rx_mod_base (sn_field_length e) (rx_next_highest e)
      in base (rx_next_highest e - um_window_size (sn_field_length e)) \<le> base sn \<and>
         base sn < base (rx_next_reassembly e))"

definition sn_next :: "rlc_um_sn_size \<Rightarrow> u32 \<Rightarrow> u32" where
  "sn_next sz sn = (sn + 1) mod um_mod sz"

lemma um_mod_power: "um_mod sz = 2 ^ um_sn_size_to_number sz" "um_window_size sz = 2 ^ (um_sn_size_to_number sz - 1)"
  by (cases sz; simp add: um_mod_def um_window_size_def cardinality_def window_size_def)+

lemma um_bits: "0 < um_sn_size_to_number sz" "um_sn_size_to_number sz < 32"
  by (cases sz; simp)+

lemma uint_um_mod: "uint (um_mod sz) = 2 ^ um_sn_size_to_number sz"
  "uint (um_window_size sz) = 2 ^ (um_sn_size_to_number sz - 1)"
  by (cases sz; simp add: um_mod_power)+

text \<open>The modulus divides \<open>2 ^ 32\<close>, so that the wrap-around of the machine words does no harm.\<close>

lemma mod_um_mod_cancel: "(x mod 4294967296) mod uint (um_mod sz) = x mod uint (um_mod sz)"
  by (rule mod_mod_cancel) (cases sz; simp add: um_mod_power)

lemma uint_rx_mod_base:
  "uint (rx_mod_base sz nh x) = (uint x - uint nh - uint (um_window_size sz)) mod uint (um_mod sz)"
  by (simp add: rx_mod_base_def uint_mod uint_word_ariths mod_um_mod_cancel mod_diff_left_eq)

lemma uint_sn_next: "uint (sn_next sz sn) = (uint sn + 1) mod uint (um_mod sz)"
  by (simp add: sn_next_def uint_mod uint_word_ariths mod_um_mod_cancel)

lemma rx_mod_base_next: "uint (rx_mod_base sz nh (sn_next sz sn)) = (uint (rx_mod_base sz nh sn) + 1) mod uint (um_mod sz)"
  unfolding uint_rx_mod_base uint_sn_next by (simp add: mod_simps algebra_simps)

lemma rx_mod_base_bounds: "0 \<le> uint (rx_mod_base sz nh x)" "uint (rx_mod_base sz nh x) < uint (um_mod sz)"
  unfolding uint_rx_mod_base uint_um_mod by simp_all

lemma um_mod_window: "uint (um_mod sz) = 2 * uint (um_window_size sz)" "0 < uint (um_window_size sz)"
  by (cases sz; simp add: um_mod_power)+

lemma rx_mod_base_edges:
  "rx_mod_base sz nh nh = um_window_size sz"
  "rx_mod_base sz nh (nh - um_window_size sz) = 0"
  by (cases sz; simp add: rx_mod_base_def um_mod_power)+

lemma sn_in_reassembly_window_iff:
  "sn_in_reassembly_window sz nh sn \<longleftrightarrow> rx_mod_base sz nh sn < um_window_size sz"
  by (simp add: sn_in_reassembly_window_def rx_mod_base_edges)

text \<open>The distance to the end of the number range, the measure of the loops below.\<close>

definition sn_distance :: "rlc_um_sn_size \<Rightarrow> u32 \<Rightarrow> u32 \<Rightarrow> nat" where
  "sn_distance sz nh sn = nat (uint (um_mod sz) - uint (rx_mod_base sz nh sn))"

lemma sn_distance_pos: "0 < sn_distance sz nh sn"
  using rx_mod_base_bounds [of sz nh sn] by (simp add: sn_distance_def)

lemma sn_distance_next:
  assumes "rx_mod_base sz nh sn < um_window_size sz"
  shows "sn_distance sz nh (sn_next sz sn) < sn_distance sz nh sn"
    "uint (rx_mod_base sz nh (sn_next sz sn)) = uint (rx_mod_base sz nh sn) + 1"
proof -
  have "uint (rx_mod_base sz nh sn) + 1 < uint (um_mod sz)"
    using assms um_mod_window [of sz] by (simp add: word_less_def)
  then show "uint (rx_mod_base sz nh (sn_next sz sn)) = uint (rx_mod_base sz nh sn) + 1"
    unfolding rx_mod_base_next using rx_mod_base_bounds [of sz nh sn] by simp
  then show "sn_distance sz nh (sn_next sz sn) < sn_distance sz nh sn"
    using rx_mod_base_bounds [of sz nh sn] by (simp add: sn_distance_def)
qed

lemma sn_distance_outside:
  assumes "\<not> sn_in_reassembly_window sz nh sn" "\<not> sn_in_reassembly_window sz nh (sn_next sz sn)"
  shows "sn_distance sz nh (sn_next sz sn) < sn_distance sz nh sn"
proof -
  have "uint (rx_mod_base sz nh sn) + 1 \<noteq> uint (um_mod sz)"
  proof
    assume "uint (rx_mod_base sz nh sn) + 1 = uint (um_mod sz)"
    then have "uint (rx_mod_base sz nh (sn_next sz sn)) = 0"
      unfolding rx_mod_base_next by simp
    then show False
      using assms(2) um_mod_window(2) [of sz] by (simp add: sn_in_reassembly_window_iff word_less_def)
  qed
  then have "uint (rx_mod_base sz nh sn) + 1 < uint (um_mod sz)"
    using rx_mod_base_bounds(2) [of sz nh sn] by linarith
  then have "uint (rx_mod_base sz nh (sn_next sz sn)) = uint (rx_mod_base sz nh sn) + 1"
    unfolding rx_mod_base_next using rx_mod_base_bounds(1) [of sz nh sn] by simp
  then show ?thesis
    using rx_mod_base_bounds [of sz nh sn] by (simp add: sn_distance_def)
qed

subsection \<open>The loops over the window\<close>

type_synonym um_window = "rlc_rx_um_sdu_info circular_map"

text \<open>A condition on an entry that holds only if the entry exists.\<close>

definition window_test :: "u32 \<Rightarrow> (rlc_rx_um_sdu_info \<Rightarrow> bool) \<Rightarrow> um_window \<Rightarrow> bool result" where
  "window_test sn P win =
     (if cm_contains (unat sn) win then rbind (cm_at (unat sn) win) (\<lambda>info. Inr (P info)) else Inr False)"

text \<open>Moving the lower edge over fully received SDUs.\<close>

function advance_loop :: "rlc_um_sn_size \<Rightarrow> u32 \<Rightarrow> u32 \<Rightarrow> um_window \<Rightarrow> (u32 \<times> um_window) result" where
  "advance_loop sz nh sn_upd win =
     (if rx_mod_base sz nh sn_upd < rx_mod_base sz nh nh
      then rbind (window_test sn_upd fully_received win) (\<lambda>full.
             if full then rbind (window_remove_sn (unat sn_upd) win) (\<lambda>win'. advance_loop sz nh (sn_next sz sn_upd) win')
             else Inr (sn_upd, win))
      else Inr (sn_upd, win))"
  by auto
termination
  by (relation "measure (\<lambda>(sz, nh, sn, win). sn_distance sz nh sn)")
    (simp_all add: rx_mod_base_edges sn_distance_next)

text \<open>Removing one entry outside the window; what is incomplete or missing counts as lost.\<close>

definition discard_sn :: "u32 \<Rightarrow> um_window \<Rightarrow> (nat \<times> um_window) result" where
  "discard_sn sn_upd win =
     (if cm_contains (unat sn_upd) win
      then rbind (cm_at (unat sn_upd) win) (\<lambda>info.
           rbind (window_remove_sn (unat sn_upd) win) (\<lambda>win'.
           Inr (if fully_received info then 0 else 1, win')))
      else Inr (1, win))"

function discard_loop :: "rlc_um_sn_size \<Rightarrow> u32 \<Rightarrow> u32 \<Rightarrow> nat \<Rightarrow> um_window \<Rightarrow> (u32 \<times> nat \<times> um_window) result" where
  "discard_loop sz nh sn_upd lost win =
     (if \<not> sn_in_reassembly_window sz nh sn_upd
      then rbind (discard_sn sn_upd win) (\<lambda>(l, win'). discard_loop sz nh (sn_next sz sn_upd) (lost + l) win')
      else Inr (sn_upd, lost, win))"
  by auto
termination
  by (relation "measure (\<lambda>(sz, nh, sn, lost, win). if sn_in_reassembly_window sz nh sn then 0 else sn_distance sz nh sn)")
    (auto simp: sn_distance_outside sn_distance_pos)

text \<open>The loop of the timer expiry: everything below the trigger is removed, then fully received SDUs.\<close>

function expire_loop :: "rlc_um_sn_size \<Rightarrow> u32 \<Rightarrow> u32 \<Rightarrow> u32 \<Rightarrow> nat \<Rightarrow> um_window \<Rightarrow> (u32 \<times> nat \<times> um_window) result" where
  "expire_loop sz nh trigger sn_upd lost win =
     (if rx_mod_base sz nh sn_upd < rx_mod_base sz nh nh
      then if rx_mod_base sz nh sn_upd < rx_mod_base sz nh trigger
           then rbind (discard_sn sn_upd win) (\<lambda>(l, win'). expire_loop sz nh trigger (sn_next sz sn_upd) (lost + l) win')
           else rbind (window_test sn_upd fully_received win) (\<lambda>full.
                if full then rbind (window_remove_sn (unat sn_upd) win) (\<lambda>win'.
                               expire_loop sz nh trigger (sn_next sz sn_upd) lost win')
                else Inr (sn_upd, lost, win))
      else Inr (sn_upd, lost, win))"
  by auto
termination
  by (relation "measure (\<lambda>(sz, nh, trigger, sn, lost, win). sn_distance sz nh sn)")
    (simp_all add: rx_mod_base_edges sn_distance_next)

declare advance_loop.simps [simp del] discard_loop.simps [simp del] expire_loop.simps [simp del]

subsection \<open>Handlers\<close>

definition handle_segment_data_sdu :: "rlc_um_pdu_header \<Rightarrow> byte list \<Rightarrow> rlc_rx_um_entity \<Rightarrow> rlc_rx_um_entity result" where
  "handle_segment_data_sdu header payload e =
     (if um_si header = full_sdu then Inr e
      else let sn = unat (um_sn header)
           in rbind (if cm_contains sn (rx_window e) then Inr (rx_window e)
                     else window_add_sn sn sdu_info_new (rx_window e)) (\<lambda>win.
              rbind (cm_at sn win) (\<lambda>rx_sdu.
              let segment = \<lparr>seg_si = um_si header, seg_so = um_so header, seg_payload = payload\<rparr>;
                  (stored, rx_sdu') = store_segment segment rx_sdu
              in rbind (cm_put sn (update_segment_inventory rx_sdu') win) (\<lambda>win'.
                 Inr (e\<lparr>rx_window := win'\<rparr>)))))"

text \<open>All segments of the SDU have been received.\<close>

definition um_sdu_complete :: "u32 \<Rightarrow> rlc_rx_um_entity \<Rightarrow> rlc_rx_um_entity result" where
  "um_sdu_complete sn e =
     rbind (cm_at (unat sn) (rx_window e)) (\<lambda>sdu_info.
     let e1 = (case reassemble_sdu sdu_info of
                 None \<Rightarrow> e\<lparr>lost_pdus := lost_pdus e + 1\<rparr>
               | Some sdu \<Rightarrow> e\<lparr>delivered := delivered e @ [sdu]\<rparr>)
     in rbind (cm_put (unat sn) (sdu_info\<lparr>segments := []\<rparr>) (rx_window e)) (\<lambda>win.
        if sn = rx_next_reassembly e
        then rbind (advance_loop (sn_field_length e) (rx_next_highest e)
                      (rx_next_reassembly e mod um_mod (sn_field_length e)) win) (\<lambda>(sn_upd, win').
             Inr (e1\<lparr>rx_window := win', rx_next_reassembly := sn_upd\<rparr>))
        else Inr (e1\<lparr>rx_window := win\<rparr>)))"

text \<open>The number falls outside of the reassembly window, which moves.\<close>

definition um_slide_window :: "u32 \<Rightarrow> rlc_rx_um_entity \<Rightarrow> rlc_rx_um_entity result" where
  "um_slide_window sn e =
     (let sz = sn_field_length e; nh = sn_next sz sn
      in rbind (discard_loop sz nh (rx_next_reassembly e mod um_mod sz) (lost_pdus e) (rx_window e)) (\<lambda>(sn_upd, lost, win).
         rbind (advance_loop sz nh sn_upd win) (\<lambda>(sn_upd', win').
         Inr (e\<lparr>rx_next_highest := nh, lost_pdus := lost, rx_window := win', rx_next_reassembly := sn_upd'\<rparr>))))"

definition um_stop_timer :: "rlc_rx_um_entity \<Rightarrow> rlc_rx_um_entity result" where
  "um_stop_timer e =
     (if reassembly_timer e
      then rbind (if rx_next_highest e = rx_next_reassembly e + 1
                  then window_test (rx_next_highest e) (\<lambda>info. \<not> has_gap info) (rx_window e) else Inr False) (\<lambda>no_gap.
           let stop = rx_timer_trigger e \<le> rx_next_reassembly e \<or>
                      \<not> sn_in_reassembly_window (sn_field_length e) (rx_next_highest e) (rx_timer_trigger e) \<and>
                        rx_timer_trigger e \<noteq> rx_next_highest e \<or> no_gap
           in Inr (if stop then e\<lparr>reassembly_timer := False\<rparr> else e))
      else Inr e)"

definition um_restart_timer :: "rlc_rx_um_entity \<Rightarrow> rlc_rx_um_entity result" where
  "um_restart_timer e =
     (let base = rx_mod_base (sn_field_length e) (rx_next_highest e)
      in rbind (if base (rx_next_highest e) = base (rx_next_reassembly e + 1)
                then window_test (rx_next_highest e) has_gap (rx_window e) else Inr False) (\<lambda>gap.
         Inr (if base (rx_next_reassembly e + 1) < base (rx_next_highest e) \<or> gap
              then e\<lparr>reassembly_timer := True, rx_timer_trigger := rx_next_highest e\<rparr> else e)))"

definition um_segment_received :: "u32 \<Rightarrow> rlc_rx_um_entity \<Rightarrow> rlc_rx_um_entity result" where
  "um_segment_received sn e =
     rbind (window_test sn fully_received (rx_window e)) (\<lambda>complete.
     rbind (if complete then um_sdu_complete sn e
            else if \<not> sn_in_reassembly_window (sn_field_length e) (rx_next_highest e) sn then um_slide_window sn e
            else Inr e) (\<lambda>e1.
     rbind (um_stop_timer e1) (\<lambda>e2.
     if reassembly_timer e2 then Inr e2 else um_restart_timer e2)))"

definition um_handle_pdu :: "byte list \<Rightarrow> rlc_rx_um_entity \<Rightarrow> rlc_rx_um_entity result" where
  "um_handle_pdu buf e =
     (case rlc_um_read_data_pdu_header buf (sn_field_length e) of
        None \<Rightarrow> Inr (e\<lparr>malformed_pdus := malformed_pdus e + 1\<rparr>)
      | Some header \<Rightarrow>
          let header_len = rlc_um_nr_packed_length header
          in if length buf \<le> header_len then Inr e
             else let payload = drop header_len buf
                  in if um_si header = full_sdu then Inr (e\<lparr>delivered := delivered e @ [payload]\<rparr>)
                     else if sn_invalid_for_rx_buffer e (ucast (um_sn header)) then Inr e
                     else rbind (handle_segment_data_sdu header payload e) (um_segment_received (ucast (um_sn header))))"

definition on_expired_reassembly_timer :: "rlc_rx_um_entity \<Rightarrow> rlc_rx_um_entity result" where
  "on_expired_reassembly_timer e =
     rbind (expire_loop (sn_field_length e) (rx_next_highest e) (rx_timer_trigger e) (rx_next_reassembly e)
              (lost_pdus e) (rx_window e)) (\<lambda>(sn_upd, lost, win).
     um_restart_timer (e\<lparr>rx_next_reassembly := sn_upd, lost_pdus := lost, rx_window := win\<rparr>))"

definition um_rx_stop :: "rlc_rx_um_entity \<Rightarrow> rlc_rx_um_entity" where
  "um_rx_stop e = e\<lparr>reassembly_timer := False\<rparr>"

text \<open>A sequence of PDUs.\<close>

fun um_rx_run :: "byte list list \<Rightarrow> rlc_rx_um_entity \<Rightarrow> rlc_rx_um_entity result" where
  "um_rx_run [] e = Inr e"
| "um_rx_run (pdu # pdus) e = rbind (um_handle_pdu pdu e) (um_rx_run pdus)"

subsection \<open>The entity never fails\<close>

definition um_rx_inv :: "rlc_rx_um_entity \<Rightarrow> bool" where
  "um_rx_inv e \<longleftrightarrow>
     cm_inv (rx_window e) \<and> cm_size (rx_window e) = window_size (um_sn_size_to_number (sn_field_length e)) \<and>
     rx_next_reassembly e < um_mod (sn_field_length e) \<and> rx_timer_trigger e < um_mod (sn_field_length e) \<and>
     rx_next_highest e < um_mod (sn_field_length e)"

lemma sn_next_less: "sn_next sz sn < um_mod sz"
  unfolding sn_next_def word_less_nat_alt unat_mod_distrib
  by (rule mod_less_divisor) (cases sz; simp add: um_mod_power)

lemma mod_um_mod_id: "sn < um_mod sz \<Longrightarrow> sn mod um_mod sz = sn"
  by (simp add: word_less_nat_alt word_unat_eq_iff unat_mod_distrib)

lemma window_test_eq:
  "window_test sn P win = Inr (case cm_lookup win (unat sn) of None \<Rightarrow> False | Some info \<Rightarrow> P info)"
  by (auto simp: window_test_def cm_contains_iff cm_at_spec split: option.splits)

text \<open>What every loop keeps of a window.\<close>

definition window_shrinks :: "um_window \<Rightarrow> um_window \<Rightarrow> bool" where
  "window_shrinks win win' \<longleftrightarrow> cm_inv win' \<and> cm_size win' = cm_size win \<and> cm_lookup win' \<subseteq>\<^sub>m cm_lookup win"

lemma window_shrinks_refl [simp]: "cm_inv win \<Longrightarrow> window_shrinks win win"
  by (simp add: window_shrinks_def)

lemma window_shrinks_trans: "window_shrinks a b \<Longrightarrow> window_shrinks b c \<Longrightarrow> window_shrinks a c"
  by (auto simp: window_shrinks_def intro: map_le_trans)

lemma window_shrinks_inv: "window_shrinks win win' \<Longrightarrow> cm_inv win'"
  by (simp add: window_shrinks_def)

lemma window_remove_ok:
  assumes "cm_inv win" "cm_lookup win sn \<noteq> None"
  shows "succeeds (window_remove_sn sn win) (window_shrinks win)"
  using circ.remove_present [OF assms] by (auto simp: window_shrinks_def map_le_def)

lemma discard_sn_ok: "cm_inv win \<Longrightarrow> succeeds (discard_sn sn win) (\<lambda>(l, win'). window_shrinks win win')"
  using window_remove_ok [of win "unat sn"]
  by (auto simp: discard_sn_def cm_contains_iff cm_at_spec elim: succeeds_mono)

lemma advance_loop_ok:
  "cm_inv win \<Longrightarrow> sn < um_mod sz \<Longrightarrow>
     succeeds (advance_loop sz nh sn win) (\<lambda>(sn', win'). sn' < um_mod sz \<and> window_shrinks win win')"
proof (induction sz nh sn win rule: advance_loop.induct)
  case (1 sz nh sn win)
  show ?case
  proof (cases "rx_mod_base sz nh sn < rx_mod_base sz nh nh \<and> window_test sn fully_received win = Inr True")
    case True
    then have "cm_lookup win (unat sn) \<noteq> None"
      by (auto simp: window_test_eq split: option.splits)
    from window_remove_ok [OF "1.prems"(1) this]
    have "succeeds (window_remove_sn (unat sn) win) (\<lambda>win'. succeeds (advance_loop sz nh (sn_next sz sn) win')
        (\<lambda>(sn', win'). sn' < um_mod sz \<and> window_shrinks win win'))"
    proof (rule succeeds_mono)
      fix a
      assume a: "window_remove_sn (unat sn) win = Inr a" "window_shrinks win a"
      from "1.IH" [OF _ _ _ a(1)] True a(2) sn_next_less
      have "succeeds (advance_loop sz nh (sn_next sz sn) a) (\<lambda>(sn', win'). sn' < um_mod sz \<and> window_shrinks a win')"
        by (auto dest: window_shrinks_inv)
      then show "succeeds (advance_loop sz nh (sn_next sz sn) a) (\<lambda>(sn', win'). sn' < um_mod sz \<and> window_shrinks win win')"
        by (rule succeeds_mono) (auto intro: window_shrinks_trans [OF a(2)])
    qed
    with True show ?thesis
      by (subst advance_loop.simps) simp
  next
    case False
    with "1.prems" show ?thesis
      by (subst advance_loop.simps) (auto simp: window_test_eq)
  qed
qed

lemma discard_loop_ok:
  "cm_inv win \<Longrightarrow> sn < um_mod sz \<Longrightarrow>
     succeeds (discard_loop sz nh sn lost win) (\<lambda>(sn', lost', win').
       sn' < um_mod sz \<and> sn_in_reassembly_window sz nh sn' \<and> lost \<le> lost' \<and> window_shrinks win win')"
proof (induction sz nh sn lost win rule: discard_loop.induct)
  case (1 sz nh sn lost win)
  show ?case
  proof (cases "sn_in_reassembly_window sz nh sn")
    case True
    with "1.prems" show ?thesis
      by (subst discard_loop.simps) simp
  next
    case False
    from discard_sn_ok [OF "1.prems"(1), of sn]
    have "succeeds (discard_sn sn win) (\<lambda>(l, w). succeeds (discard_loop sz nh (sn_next sz sn) (lost + l) w)
        (\<lambda>(sn', lost', win'). sn' < um_mod sz \<and> sn_in_reassembly_window sz nh sn' \<and> lost \<le> lost' \<and> window_shrinks win win'))"
    proof (rule succeeds_mono)
      fix a
      assume a: "discard_sn sn win = Inr a" "case a of (l, w) \<Rightarrow> window_shrinks win w"
      obtain l w where lw: "a = (l, w)"
        by (cases a)
      from "1.IH" [OF False a(1) lw [symmetric]] a(2) sn_next_less lw
      have "succeeds (discard_loop sz nh (sn_next sz sn) (lost + l) w) (\<lambda>(sn', lost', win').
          sn' < um_mod sz \<and> sn_in_reassembly_window sz nh sn' \<and> lost + l \<le> lost' \<and> window_shrinks w win')"
        by (auto dest: window_shrinks_inv)
      then show "case a of (l, w) \<Rightarrow> succeeds (discard_loop sz nh (sn_next sz sn) (lost + l) w) (\<lambda>(sn', lost', win').
          sn' < um_mod sz \<and> sn_in_reassembly_window sz nh sn' \<and> lost \<le> lost' \<and> window_shrinks win win')"
        unfolding lw prod.case by (rule succeeds_mono) (use a(2) lw in \<open>auto intro: window_shrinks_trans\<close>)
    qed
    with False show ?thesis
      by (subst discard_loop.simps) simp
  qed
qed

lemma expire_loop_ok:
  "cm_inv win \<Longrightarrow> sn < um_mod sz \<Longrightarrow>
     succeeds (expire_loop sz nh trigger sn lost win) (\<lambda>(sn', lost', win').
       sn' < um_mod sz \<and> lost \<le> lost' \<and> window_shrinks win win')"
proof (induction sz nh trigger sn lost win rule: expire_loop.induct)
  case (1 sz nh trigger sn lost win)
  let ?Q = "\<lambda>l w. \<lambda>(sn', lost', win'). sn' < um_mod sz \<and> l \<le> lost' \<and> window_shrinks w win'"
  have step: "succeeds (expire_loop sz nh trigger (sn_next sz sn) (lost + l) w) (?Q lost win)"
    if "cm_inv w \<Longrightarrow> sn_next sz sn < um_mod sz \<Longrightarrow>
      succeeds (expire_loop sz nh trigger (sn_next sz sn) (lost + l) w) (?Q (lost + l) w)" "window_shrinks win w" for l w
    using that(1) [OF window_shrinks_inv [OF that(2)] sn_next_less]
    by (rule succeeds_mono) (use that(2) in \<open>auto intro: window_shrinks_trans\<close>)
  consider (stop) "\<not> rx_mod_base sz nh sn < rx_mod_base sz nh nh"
    | (below) "rx_mod_base sz nh sn < rx_mod_base sz nh nh" "rx_mod_base sz nh sn < rx_mod_base sz nh trigger"
    | (above) "rx_mod_base sz nh sn < rx_mod_base sz nh nh" "\<not> rx_mod_base sz nh sn < rx_mod_base sz nh trigger"
    by blast
  then show ?case
  proof cases
    case stop
    with "1.prems" show ?thesis by (subst expire_loop.simps) simp
  next
    case below
    have "succeeds (discard_sn sn win) (\<lambda>(l, w). succeeds (expire_loop sz nh trigger (sn_next sz sn) (lost + l) w) (?Q lost win))"
    proof (rule succeeds_mono [OF discard_sn_ok [OF "1.prems"(1)]])
      fix a
      assume a: "discard_sn sn win = Inr a" "case a of (l, w) \<Rightarrow> window_shrinks win w"
      obtain l w where lw: "a = (l, w)"
        by (cases a)
      show "case a of (l, w) \<Rightarrow> succeeds (expire_loop sz nh trigger (sn_next sz sn) (lost + l) w) (?Q lost win)"
        using step [OF "1.IH"(1) [OF below a(1) lw [symmetric]]] a(2) by (simp add: lw)
    qed
    with below show ?thesis by (subst expire_loop.simps) simp
  next
    case above
    show ?thesis
    proof (cases "window_test sn fully_received win = Inr True")
      case True
      then have "cm_lookup win (unat sn) \<noteq> None"
        by (auto simp: window_test_eq split: option.splits)
      from window_remove_ok [OF "1.prems"(1) this]
      have "succeeds (window_remove_sn (unat sn) win) (\<lambda>w. succeeds (expire_loop sz nh trigger (sn_next sz sn) lost w) (?Q lost win))"
        by (rule succeeds_mono) (use "1.IH"(2) above True step [of _ 0] in auto)
      with above True show ?thesis by (subst expire_loop.simps) simp
    next
      case False
      with above "1.prems" show ?thesis by (subst expire_loop.simps) (auto simp: window_test_eq)
    qed
  qed
qed

text \<open>The handlers.\<close>

lemma um_rx_inv_window:
  assumes "um_rx_inv e" "window_shrinks (rx_window e) win"
  shows "um_rx_inv (e\<lparr>rx_window := win\<rparr>)"
  using assms by (simp add: um_rx_inv_def window_shrinks_def)

lemma cm_put_ok:
  "cm_inv win \<Longrightarrow> cm_lookup win sn \<noteq> None \<Longrightarrow>
     succeeds (cm_put sn info win) (\<lambda>win'. cm_inv win' \<and> cm_size win' = cm_size win \<and> cm_lookup win' = (cm_lookup win)(sn \<mapsto> info))"
  using circ.put_present [of win sn info] by auto

lemma cm_at_ok: "cm_lookup win sn = Some info \<Longrightarrow> cm_at sn win = Inr info"
  by (simp add: cm_at_spec)

lemma handle_segment_ok:
  assumes "um_rx_inv e"
  shows "succeeds (handle_segment_data_sdu h payload e) (\<lambda>e'. um_rx_inv e' \<and> sn_field_length e' = sn_field_length e)"
proof (cases "um_si h = full_sdu")
  case True
  with assms show ?thesis by (simp add: handle_segment_data_sdu_def)
next
  case False
  let ?sn = "unat (um_sn h)"
  have inv: "cm_inv (rx_window e)"
    using assms by (simp add: um_rx_inv_def)
  have "succeeds (if cm_contains ?sn (rx_window e) then Inr (rx_window e) else window_add_sn ?sn sdu_info_new (rx_window e))
      (\<lambda>win. cm_inv win \<and> cm_size win = cm_size (rx_window e) \<and> cm_lookup win ?sn \<noteq> None)"
  proof (cases "cm_lookup (rx_window e) ?sn")
    case None
    with circ.add_new [OF inv this, of sdu_info_new] show ?thesis
      by (auto simp: cm_contains_iff)
  qed (use inv in \<open>auto simp: cm_contains_iff\<close>)
  then show ?thesis
    unfolding handle_segment_data_sdu_def if_not_P [OF False] Let_def succeeds_simps
    by (rule succeeds_mono)
      (use assms in \<open>auto simp: cm_at_ok um_rx_inv_def split_beta intro!: succeeds_mono [OF cm_put_ok]\<close>)
qed

lemma um_sdu_complete_ok:
  assumes "um_rx_inv e" "cm_lookup (rx_window e) (unat sn) \<noteq> None"
  shows "succeeds (um_sdu_complete sn e) (\<lambda>e'. um_rx_inv e' \<and> sn_field_length e' = sn_field_length e)"
proof -
  obtain info where info: "cm_lookup (rx_window e) (unat sn) = Some info"
    using assms(2) by auto
  have inv: "cm_inv (rx_window e)" "rx_next_reassembly e mod um_mod (sn_field_length e) < um_mod (sn_field_length e)"
    using assms(1) by (simp_all add: um_rx_inv_def mod_um_mod_id)
  show ?thesis
    unfolding um_sdu_complete_def cm_at_ok [OF info] rbind_simps Let_def succeeds_simps
    apply (rule succeeds_mono [OF cm_put_ok [OF inv(1) assms(2)]])
    apply (auto intro!: succeeds_mono [OF advance_loop_ok [OF _ inv(2)]])
    using assms(1) apply (auto simp: um_rx_inv_def window_shrinks_def split: option.splits)
    done
qed

lemma um_slide_window_ok:
  assumes "um_rx_inv e"
  shows "succeeds (um_slide_window sn e) (\<lambda>e'. um_rx_inv e' \<and> sn_field_length e' = sn_field_length e)"
proof -
  have inv: "cm_inv (rx_window e)" "rx_next_reassembly e mod um_mod (sn_field_length e) < um_mod (sn_field_length e)"
    using assms(1) by (simp_all add: um_rx_inv_def mod_um_mod_id)
  show ?thesis
    unfolding um_slide_window_def Let_def succeeds_simps
    apply (rule succeeds_mono [OF discard_loop_ok [OF inv]])
    apply (auto simp: window_shrinks_inv intro!: succeeds_mono [OF advance_loop_ok])
    using assms apply (auto simp: um_rx_inv_def window_shrinks_def sn_next_less)
    done
qed

lemma um_timers_ok:
  assumes "um_rx_inv e"
  shows "succeeds (um_stop_timer e) (\<lambda>e'. um_rx_inv e' \<and> sn_field_length e' = sn_field_length e)"
    "succeeds (um_restart_timer e) (\<lambda>e'. um_rx_inv e' \<and> sn_field_length e' = sn_field_length e)"
  using assms by (auto simp: um_stop_timer_def um_restart_timer_def window_test_eq um_rx_inv_def Let_def)

lemma um_segment_received_ok:
  assumes "um_rx_inv e"
  shows "succeeds (um_segment_received sn e) (\<lambda>e'. um_rx_inv e' \<and> sn_field_length e' = sn_field_length e)"
proof -
  let ?P = "\<lambda>e'. um_rx_inv e' \<and> sn_field_length e' = sn_field_length e"
  have "succeeds (window_test sn fully_received (rx_window e)) (\<lambda>complete.
      succeeds (if complete then um_sdu_complete sn e
                else if \<not> sn_in_reassembly_window (sn_field_length e) (rx_next_highest e) sn then um_slide_window sn e
                else Inr e) ?P)"
    using assms um_sdu_complete_ok [OF assms, of sn] um_slide_window_ok [OF assms, of sn]
    by (auto simp: window_test_eq split: option.split)
  moreover have "succeeds (rbind (um_stop_timer e1) (\<lambda>e2. if reassembly_timer e2 then Inr e2 else um_restart_timer e2)) ?P"
    if "?P e1" for e1
    using that unfolding succeeds_simps
    by (intro succeeds_mono [OF um_timers_ok(1)]) (auto dest: um_timers_ok(2))
  ultimately show ?thesis
    unfolding um_segment_received_def
    by (simp only: succeeds_simps) (blast intro: succeeds_mono)
qed

lemma um_handle_pdu_ok:
  assumes "um_rx_inv e"
  shows "succeeds (um_handle_pdu buf e) (\<lambda>e'. um_rx_inv e' \<and> sn_field_length e' = sn_field_length e)"
proof -
  have "succeeds (rbind (handle_segment_data_sdu h p e) (um_segment_received sn))
      (\<lambda>e'. um_rx_inv e' \<and> sn_field_length e' = sn_field_length e)" for h p sn
    unfolding succeeds_simps
    by (rule succeeds_mono [OF handle_segment_ok [OF assms]]) (metis um_segment_received_ok)
  then show ?thesis
    using assms by (auto simp: um_handle_pdu_def Let_def um_rx_inv_def simp del: succeeds_simps(3) split: option.split)
qed

lemma on_expired_ok:
  assumes "um_rx_inv e"
  shows "succeeds (on_expired_reassembly_timer e) (\<lambda>e'. um_rx_inv e' \<and> sn_field_length e' = sn_field_length e)"
proof -
  have inv: "cm_inv (rx_window e)" "rx_next_reassembly e < um_mod (sn_field_length e)"
    using assms by (simp_all add: um_rx_inv_def)
  have "um_rx_inv (e\<lparr>rx_next_reassembly := sn, lost_pdus := l, rx_window := w\<rparr>)"
    if "sn < um_mod (sn_field_length e)" "window_shrinks (rx_window e) w" for sn l w
    using assms that by (simp add: um_rx_inv_def window_shrinks_def)
  then show ?thesis
    unfolding on_expired_reassembly_timer_def succeeds_simps succeeds_prod
    by (intro succeeds_mono [OF expire_loop_ok [OF inv]]) (fastforce dest: um_timers_ok(2))
qed

lemma um_rx_inv_new: "um_rx_inv (rlc_rx_um_entity_new sz)"
  by (cases sz) (simp_all add: um_rx_inv_def rlc_rx_um_entity_new_def create_rx_window_def cm_new_inv window_size_def
      cardinality_def um_mod_power)

subsection \<open>Delivery in order\<close>

text \<open>
  Between two SDUs both edges of the window are the next number and nothing is buffered; while an SDU
  is being received the upper edge is one ahead and the first \<open>k\<close> bytes are in the window.
\<close>

definition um_idle :: "u32 \<Rightarrow> rlc_rx_um_entity \<Rightarrow> bool" where
  "um_idle n e \<longleftrightarrow> um_rx_inv e \<and> rx_next_reassembly e = n \<and> rx_next_highest e = n \<and>
     cm_lookup (rx_window e) = Map.empty \<and> \<not> reassembly_timer e"

definition um_partial :: "u32 \<Rightarrow> byte list \<Rightarrow> nat \<Rightarrow> rlc_rx_um_entity \<Rightarrow> bool" where
  "um_partial n sdu k e \<longleftrightarrow> um_rx_inv e \<and> rx_next_reassembly e = n \<and> rx_next_highest e = sn_next (sn_field_length e) n \<and>
     (\<exists>info. cm_lookup (rx_window e) = [unat n \<mapsto> info] \<and> sdu_info_ok sdu {..<k} info) \<and>
     0 < k \<and> k < length sdu \<and> \<not> reassembly_timer e"

lemma mod_diff_middle: "(a - b mod m - c) mod m = (a - b - c) mod (m :: int)"
  using mod_diff_right_eq [of "a - c" b m] by (simp add: algebra_simps)

lemma sn_edges:
  "uint (rx_mod_base sz (sn_next sz n) n) = uint (um_window_size sz) - 1"
  "uint (rx_mod_base sz n (n + 1)) = uint (um_window_size sz) + 1"
  "rx_mod_base sz (sn_next sz n) (n + 1) = um_window_size sz"
proof -
  have s: "(uint (n + 1) - b) mod uint (um_mod sz) = (uint n + 1 - b) mod uint (um_mod sz)" for b
    using mod_diff_left_eq [of "(uint n + 1) mod 4294967296" "uint (um_mod sz)" b]
      mod_diff_left_eq [of "uint n + 1" "uint (um_mod sz)" b]
    by (simp add: uint_word_ariths mod_um_mod_cancel)
  have "uint (rx_mod_base sz (sn_next sz n) n) = (- 1 - uint (um_window_size sz)) mod uint (um_mod sz)"
    unfolding uint_rx_mod_base uint_sn_next mod_diff_middle by simp
  then show "uint (rx_mod_base sz (sn_next sz n) n) = uint (um_window_size sz) - 1"
    by (cases sz) (simp_all add: um_mod_power)
  have "uint (rx_mod_base sz n (n + 1)) = (1 - uint (um_window_size sz)) mod uint (um_mod sz)"
    unfolding uint_rx_mod_base diff_diff_eq s by (simp add: algebra_simps)
  then show "uint (rx_mod_base sz n (n + 1)) = uint (um_window_size sz) + 1"
    by (cases sz) (simp_all add: um_mod_power)
  have "uint (rx_mod_base sz (sn_next sz n) (n + 1)) = (- uint (um_window_size sz)) mod uint (um_mod sz)"
    unfolding uint_rx_mod_base uint_sn_next mod_diff_middle unfolding diff_diff_eq s by (simp add: algebra_simps)
  then show "rx_mod_base sz (sn_next sz n) (n + 1) = um_window_size sz"
    by (cases sz) (simp_all add: um_mod_power word_uint_eq_iff)
qed

lemma sn_next_neq: "n < um_mod sz \<Longrightarrow> sn_next sz n \<noteq> n"
proof
  assume n: "n < um_mod sz" "sn_next sz n = n"
  then have eq: "(uint n + 1) mod uint (um_mod sz) = uint n"
    using uint_sn_next [of sz n] by simp
  have lt: "uint n + 1 \<le> uint (um_mod sz)" "0 \<le> uint n"
    using n(1) by (simp_all add: word_less_def)
  show False
  proof (cases "uint n + 1 = uint (um_mod sz)")
    case True
    with eq have "uint (um_mod sz) = 1"
      by simp
    then show False
      using um_mod_window [of sz] by linarith
  next
    case False
    then have "(uint n + 1) mod uint (um_mod sz) = uint n + 1"
      using lt by (intro mod_pos_pos_trivial) simp_all
    with eq show False by simp
  qed
qed

lemma below_window [simp]:
  "rx_mod_base sz (sn_next sz n) n < um_window_size sz"
  "\<not> rx_mod_base sz n (n + 1) < um_window_size sz" "um_window_size sz \<noteq> rx_mod_base sz n (n + 1)"
  unfolding word_less_def word_uint_eq_iff sn_edges by simp_all

lemma handle_segment_only:
  assumes "um_rx_inv e" "um_si h \<noteq> full_sdu"
    and "cm_lookup (rx_window e) = Map.empty \<and> info = sdu_info_new \<or> cm_lookup (rx_window e) = [unat (um_sn h) \<mapsto> info]"
  shows "succeeds (handle_segment_data_sdu h payload e) (\<lambda>e'. \<exists>win. e' = e\<lparr>rx_window := win\<rparr> \<and> um_rx_inv e' \<and>
     cm_lookup win = [unat (um_sn h) \<mapsto> update_segment_inventory (snd (store_segment
        \<lparr>seg_si = um_si h, seg_so = um_so h, seg_payload = payload\<rparr> info))])"
proof -
  let ?sn = "unat (um_sn h)"
  have inv: "cm_inv (rx_window e)"
    using assms by (simp add: um_rx_inv_def)
  have "succeeds (if cm_contains ?sn (rx_window e) then Inr (rx_window e) else window_add_sn ?sn sdu_info_new (rx_window e))
      (\<lambda>win. cm_inv win \<and> cm_size win = cm_size (rx_window e) \<and> cm_lookup win = [?sn \<mapsto> info])"
    using assms(3)
  proof
    assume *: "cm_lookup (rx_window e) = Map.empty \<and> info = sdu_info_new"
    then have "cm_lookup (rx_window e) ?sn = None"
      by simp
    from circ.add_new [OF inv this, of sdu_info_new] * show ?thesis
      by (auto simp: cm_contains_iff intro!: ext)
  qed (use inv in \<open>simp add: cm_contains_iff\<close>)
  then show ?thesis
    unfolding handle_segment_data_sdu_def if_not_P [OF assms(2)] Let_def succeeds_simps
  proof (rule succeeds_mono)
    fix a
    assume a: "cm_inv a \<and> cm_size a = cm_size (rx_window e) \<and> cm_lookup a = [?sn \<mapsto> info]"
    then have "cm_lookup a ?sn = Some info" "cm_lookup a ?sn \<noteq> None" "cm_inv a"
      by simp_all
    note put = cm_put_ok [OF this(3,2)] and at = cm_at_ok [OF this(1)]
    show "succeeds (cm_at ?sn a) (\<lambda>rx_sdu. succeeds (case store_segment \<lparr>seg_si = um_si h, seg_so = um_so h,
          seg_payload = payload\<rparr> rx_sdu of (stored, rx_sdu') \<Rightarrow> rbind (cm_put ?sn (update_segment_inventory rx_sdu') a)
            (\<lambda>win'. Inr (e\<lparr>rx_window := win'\<rparr>)))
        (\<lambda>e'. \<exists>win. e' = e\<lparr>rx_window := win\<rparr> \<and> um_rx_inv e' \<and> cm_lookup win = [?sn \<mapsto> update_segment_inventory
          (snd (store_segment \<lparr>seg_si = um_si h, seg_so = um_so h, seg_payload = payload\<rparr> info))]))"
      unfolding at succeeds_simps split_beta
      by (rule succeeds_mono [OF put]) (use a assms(1) in \<open>auto simp: um_rx_inv_def\<close>)
  qed
qed

lemma um_handle_segment_pdu:
  assumes "um_header_wf h" "um_sn_size h = sn_field_length e" "um_si h \<noteq> full_sdu" "payload \<noteq> []"
    and "\<not> sn_invalid_for_rx_buffer e (ucast (um_sn h))"
  shows "um_handle_pdu (um_header_bytes h @ payload) e =
    rbind (handle_segment_data_sdu h payload e) (um_segment_received (ucast (um_sn h)))"
  using um_header_read_back [OF assms(1), of payload] assms(2-)
  by (simp add: um_handle_pdu_def packed_length_bytes)

lemma timers_idle:
  assumes "\<not> reassembly_timer e" "rx_next_reassembly e = n" "rx_next_highest e = n"
  shows "um_stop_timer e = Inr e" "um_restart_timer e = Inr e"
  using assms by (simp_all add: um_stop_timer_def um_restart_timer_def rx_mod_base_edges Let_def)

lemma timers_partial:
  assumes "\<not> reassembly_timer e" "rx_next_reassembly e = n" "rx_next_highest e = sn_next (sn_field_length e) n"
    and "cm_lookup (rx_window e) (unat (sn_next (sn_field_length e) n)) = None"
  shows "um_stop_timer e = Inr e" "um_restart_timer e = Inr e"
  using assms by (simp_all add: um_stop_timer_def um_restart_timer_def rx_mod_base_edges sn_edges window_test_eq Let_def)

lemma slice_segment:
  assumes "0 < j" "unat so + j \<le> length sdu" "length sdu \<le> 65536" "si = last_segment \<longleftrightarrow> unat so + j = length sdu"
  shows "slice_of sdu \<lparr>seg_si = si, seg_so = so, seg_payload = take j (drop (unat so) sdu)\<rparr>"
    "seg_range \<lparr>seg_si = si, seg_so = so, seg_payload = take j (drop (unat so) sdu)\<rparr> = {unat so..<unat so + j}"
  using assms by (auto simp: slice_of_def seg_hi_def min_def)

lemma um_first_segment:
  assumes "um_idle n e" "um_header_wf h" "um_sn_size h = sn_field_length e" "ucast (um_sn h) = n"
    and "um_si h = first_segment" "0 < k" "k < length sdu" "length sdu \<le> 65536"
  shows "succeeds (um_handle_pdu (um_header_bytes h @ take k sdu) e)
    (\<lambda>e'. um_partial n sdu k e' \<and> sn_field_length e' = sn_field_length e \<and> delivered e' = delivered e)"
proof -
  let ?sz = "sn_field_length e"
  have so: "um_so h = 0"
    using assms(2,5) by (auto simp: um_header_wf_def)
  have sn: "unat (um_sn h) = unat n"
    using assms(4) by (metis unat_ucast_so)
  have e: "um_rx_inv e" "rx_next_reassembly e = n" "rx_next_highest e = n" "cm_lookup (rx_window e) = Map.empty"
      "\<not> reassembly_timer e"
    using assms(1) by (simp_all add: um_idle_def)
  have "\<not> sn_invalid_for_rx_buffer e n"
    using e by (simp add: sn_invalid_for_rx_buffer_def)
  then have eq: "um_handle_pdu (um_header_bytes h @ take k sdu) e =
      rbind (handle_segment_data_sdu h (take k sdu) e) (um_segment_received n)"
    using um_handle_segment_pdu [OF assms(2,3), of "take k sdu"] assms by fastforce
  define info where "info = update_segment_inventory (snd (store_segment
      \<lparr>seg_si = first_segment, seg_so = 0, seg_payload = take k sdu\<rparr> sdu_info_new))"
  have seg: "slice_of sdu \<lparr>seg_si = first_segment, seg_so = 0, seg_payload = take k sdu\<rparr>"
    "seg_range \<lparr>seg_si = first_segment, seg_so = 0, seg_payload = take k sdu\<rparr> = {..<k}"
    using slice_segment [of k 0 sdu first_segment] assms by (simp_all add: lessThan_atLeast0)
  have "sdu \<noteq> []"
    using assms by auto
  from store_and_update_ok [OF sdu_info_ok_new [OF this] seg(1)] have info: "sdu_info_ok sdu {..<k} info"
    unfolding seg(2) info_def by simp
  then have inc: "\<not> fully_received info"
    using assms by (auto simp: sdu_info_ok_def)
  have "succeeds (handle_segment_data_sdu h (take k sdu) e) (\<lambda>e'. \<exists>win. e' = e\<lparr>rx_window := win\<rparr> \<and> um_rx_inv e' \<and>
     cm_lookup win = [unat n \<mapsto> info])"
    using handle_segment_only [OF e(1), of h sdu_info_new "take k sdu"] e assms sn so by (simp add: info_def)
  then show ?thesis
    unfolding eq succeeds_simps
  proof (rule succeeds_mono)
    fix e1
    assume "\<exists>win. e1 = e\<lparr>rx_window := win\<rparr> \<and> um_rx_inv e1 \<and> cm_lookup win = [unat n \<mapsto> info]"
    then obtain win where win: "e1 = e\<lparr>rx_window := win\<rparr>" "um_rx_inv e1" "cm_lookup win = [unat n \<mapsto> info]"
      by blast
    have n: "n < um_mod ?sz"
      using e by (auto simp: um_rx_inv_def)
    have slide: "um_slide_window n e1 = Inr (e1\<lparr>rx_next_highest := sn_next ?sz n\<rparr>)"
      using e win inc n
      by (simp add: um_slide_window_def Let_def mod_um_mod_id discard_loop.simps advance_loop.simps
          sn_in_reassembly_window_iff window_test_eq)
    have "unat (sn_next ?sz n) \<noteq> unat n"
      using sn_next_neq [OF n] by (simp add: word_unat_eq_iff)
    then have "um_segment_received n e1 = Inr (e1\<lparr>rx_next_highest := sn_next ?sz n\<rparr>)"
      using e win inc slide timers_partial [of "e1\<lparr>rx_next_highest := sn_next ?sz n\<rparr>" n]
      by (simp add: um_segment_received_def window_test_eq sn_in_reassembly_window_iff rx_mod_base_edges)
    then show "succeeds (um_segment_received n e1)
        (\<lambda>e'. um_partial n sdu k e' \<and> sn_field_length e' = ?sz \<and> delivered e' = delivered e)"
      using e win info assms sn_next_less by (auto simp: um_partial_def um_rx_inv_def)
  qed
qed

lemma um_next_segment:
  assumes "um_partial n sdu k e" "um_header_wf h" "um_sn_size h = sn_field_length e" "ucast (um_sn h) = n"
    and si: "um_si h = (if k + j = length sdu then last_segment else middle_segment)"
    and "unat (um_so h) = k" "0 < j" "k + j \<le> length sdu" "length sdu \<le> 65536"
  shows "succeeds (handle_segment_data_sdu h (take j (drop k sdu)) e) (\<lambda>e1. \<exists>win info. e1 = e\<lparr>rx_window := win\<rparr> \<and> um_rx_inv e1 \<and>
      cm_lookup win = [unat n \<mapsto> info] \<and> sdu_info_ok sdu {..<k + j} info)"
    "um_handle_pdu (um_header_bytes h @ take j (drop k sdu)) e =
      rbind (handle_segment_data_sdu h (take j (drop k sdu)) e) (um_segment_received n)"
proof -
  let ?p = "take j (drop k sdu)"
  have sn: "unat (um_sn h) = unat n"
    using assms(4) by (metis unat_ucast_so)
  obtain info where e: "um_rx_inv e" "rx_next_reassembly e = n" "rx_next_highest e = sn_next (sn_field_length e) n"
      "cm_lookup (rx_window e) = [unat n \<mapsto> info]" "sdu_info_ok sdu {..<k} info" "\<not> reassembly_timer e"
    using assms(1) by (auto simp: um_partial_def)
  have "\<not> sn_invalid_for_rx_buffer e n"
    using e by (simp add: sn_invalid_for_rx_buffer_def)
  moreover have "?p \<noteq> []" "um_si h \<noteq> full_sdu"
    using assms by auto
  ultimately show "um_handle_pdu (um_header_bytes h @ ?p) e = rbind (handle_segment_data_sdu h ?p e) (um_segment_received n)"
    using um_handle_segment_pdu [OF assms(2,3), of ?p] assms(4) by blast
  let ?seg = "\<lparr>seg_si = um_si h, seg_so = um_so h, seg_payload = ?p\<rparr>"
  have "slice_of sdu ?seg" "seg_range ?seg = {k..<k + j}"
    using slice_segment [of j "um_so h" sdu "um_si h"] assms by simp_all
  moreover have "{..<k} \<union> {k..<k + j} = {..<k + j}"
    by auto
  ultimately have "sdu_info_ok sdu {..<k + j} (update_segment_inventory (snd (store_segment ?seg info)))"
    using store_and_update_ok [OF e(5), of ?seg] by simp
  moreover have "succeeds (handle_segment_data_sdu h ?p e) (\<lambda>e'. \<exists>win. e' = e\<lparr>rx_window := win\<rparr> \<and> um_rx_inv e' \<and>
     cm_lookup win = [unat n \<mapsto> update_segment_inventory (snd (store_segment ?seg info))])"
    using handle_segment_only [OF e(1) \<open>um_si h \<noteq> full_sdu\<close>, of info ?p] e(4) sn by simp
  ultimately show "succeeds (handle_segment_data_sdu h ?p e) (\<lambda>e1. \<exists>win info. e1 = e\<lparr>rx_window := win\<rparr> \<and> um_rx_inv e1 \<and>
      cm_lookup win = [unat n \<mapsto> info] \<and> sdu_info_ok sdu {..<k + j} info)"
    by (blast intro: succeeds_mono)
qed

lemma um_middle_received:
  assumes "um_partial n sdu k e" "e1 = e\<lparr>rx_window := win\<rparr>" "um_rx_inv e1" "cm_lookup win = [unat n \<mapsto> info]"
    and "sdu_info_ok sdu {..<m} info" "0 < m" "m < length sdu"
  shows "um_segment_received n e1 = Inr e1" "um_partial n sdu m e1"
proof -
  have n: "unat (sn_next (sn_field_length e) n) \<noteq> unat n"
    using assms(1) sn_next_neq [of n "sn_field_length e"] by (auto simp: um_partial_def um_rx_inv_def simp flip: word_unat_eq_iff)
  have "\<not> fully_received info"
    using assms by (auto simp: sdu_info_ok_def)
  then show "um_segment_received n e1 = Inr e1"
    using assms n timers_partial [of e1 n]
    by (simp add: um_segment_received_def window_test_eq sn_in_reassembly_window_iff um_partial_def)
  show "um_partial n sdu m e1"
    using assms by (auto simp: um_partial_def)
qed

lemma um_last_received:
  assumes "um_partial n sdu k e" "e1 = e\<lparr>rx_window := win\<rparr>" "um_rx_inv e1" "cm_lookup win = [unat n \<mapsto> info]"
    and "sdu_info_ok sdu {..<length sdu} info"
  shows "succeeds (um_segment_received n e1) (\<lambda>e'. um_idle (sn_next (sn_field_length e) n) e' \<and>
     sn_field_length e' = sn_field_length e \<and> delivered e' = delivered e @ [sdu])"
proof -
  let ?sz = "sn_field_length e"
  have e: "rx_next_reassembly e = n" "rx_next_highest e = sn_next ?sz n" "\<not> reassembly_timer e" "sdu \<noteq> []"
    using assms(1) by (auto simp: um_partial_def)
  have n: "n < um_mod ?sz"
    using assms(2,3) e by (auto simp: um_rx_inv_def)
  have full: "fully_received info" "reassemble_sdu info = Some sdu"
    using assms(5) reassemble_ok [OF assms(5) e(4)] by (simp_all add: sdu_info_ok_def)
  have inv: "cm_inv win" "cm_lookup win (unat n) = Some info"
    using assms(2-4) by (simp_all add: um_rx_inv_def)
  have adv: "succeeds (advance_loop ?sz (sn_next ?sz n) n w) (\<lambda>(sn', w'). sn' = sn_next ?sz n \<and> cm_inv w' \<and>
      cm_size w' = cm_size w \<and> cm_lookup w' = Map.empty)"
    if w: "cm_inv w" "cm_lookup w = [unat n \<mapsto> i]" "fully_received i" for w i
  proof -
    have "cm_lookup w (unat n) \<noteq> None"
      using w by simp
    from circ.remove_present [OF w(1) this] w show ?thesis
      by (subst advance_loop.simps) (auto simp: rx_mod_base_edges window_test_eq advance_loop.simps [of ?sz "sn_next ?sz n" "sn_next ?sz n"])
  qed
  have comp: "succeeds (um_sdu_complete n e1) (\<lambda>e'. um_idle (sn_next ?sz n) e' \<and> sn_field_length e' = ?sz \<and>
      delivered e' = delivered e @ [sdu])"
  proof -
    have "succeeds (cm_put (unat n) (info\<lparr>segments := []\<rparr>) win) (\<lambda>w. cm_inv w \<and> cm_size w = cm_size win \<and>
        cm_lookup w = [unat n \<mapsto> info\<lparr>segments := []\<rparr>])"
      by (rule succeeds_mono [OF cm_put_ok [OF inv(1)]]) (use assms(4) in auto)
    then have "succeeds (cm_put (unat n) (info\<lparr>segments := []\<rparr>) win) (\<lambda>w. succeeds (advance_loop ?sz (sn_next ?sz n) n w)
        (\<lambda>(sn', w'). sn' = sn_next ?sz n \<and> cm_inv w' \<and> cm_size w' = cm_size win \<and> cm_lookup w' = Map.empty))"
    proof (rule succeeds_mono)
      fix w
      assume w: "cm_inv w \<and> cm_size w = cm_size win \<and> cm_lookup w = [unat n \<mapsto> info\<lparr>segments := []\<rparr>]"
      show "succeeds (advance_loop ?sz (sn_next ?sz n) n w)
          (\<lambda>(sn', w'). sn' = sn_next ?sz n \<and> cm_inv w' \<and> cm_size w' = cm_size win \<and> cm_lookup w' = Map.empty)"
        using adv [of w "info\<lparr>segments := []\<rparr>"] w full(1) by simp
    qed
    then have "succeeds (cm_put (unat n) (info\<lparr>segments := []\<rparr>) win) (\<lambda>w. succeeds (advance_loop ?sz (sn_next ?sz n) n w)
        (\<lambda>(sn', w'). um_idle (sn_next ?sz n) (e1\<lparr>delivered := delivered e @ [sdu], rx_window := w', rx_next_reassembly := sn'\<rparr>)))"
      by (elim succeeds_mono) (use assms(2,3) e sn_next_less in \<open>auto simp: um_idle_def um_rx_inv_def\<close>)
    then show ?thesis
      using assms(2) e n full inv(2)
      by (simp add: um_sdu_complete_def cm_at_ok mod_um_mod_id Let_def)
  qed
  have "um_segment_received n e1 = rbind (um_sdu_complete n e1) (\<lambda>e1. rbind (um_stop_timer e1) (\<lambda>e2.
      if reassembly_timer e2 then Inr e2 else um_restart_timer e2))"
    using assms(2) inv(2) full(1) by (simp add: um_segment_received_def window_test_eq)
  then show ?thesis
    using comp by (auto simp: um_idle_def timers_idle elim!: succeeds_mono)
qed

lemma um_full_sdu:
  assumes "um_si h = full_sdu" "um_sn_size h = sn_field_length e" "payload \<noteq> []"
  shows "um_handle_pdu (um_header_bytes h @ payload) e = Inr (e\<lparr>delivered := delivered e @ [payload]\<rparr>)"
proof -
  define h' where "h' = h\<lparr>um_sn := 0, um_so := 0\<rparr>"
  have bytes: "um_header_bytes h = um_header_bytes h'"
    using assms(1) by (simp add: um_header_bytes_def h'_def)
  have "um_header_wf h'"
    using assms(1) by (simp add: um_header_wf_def h'_def cardinality_def)
  from um_header_read_back [OF this, of payload]
  show ?thesis
    unfolding bytes using assms by (simp add: um_handle_pdu_def packed_length_bytes h'_def)
qed

subsection \<open>Reachable states\<close>

datatype um_rx_event = Pdu "byte list" | Expiry

inductive um_rx_step :: "rlc_rx_um_entity \<Rightarrow> um_rx_event \<Rightarrow> rlc_rx_um_entity \<Rightarrow> bool" where
  pdu: "um_handle_pdu buf e = Inr e' \<Longrightarrow> um_rx_step e (Pdu buf) e'"
| expiry: "reassembly_timer e \<Longrightarrow> on_expired_reassembly_timer (e\<lparr>reassembly_timer := False\<rparr>) = Inr e' \<Longrightarrow>
    um_rx_step e Expiry e'"

inductive_simps um_rx_step_pdu: "um_rx_step e (Pdu buf) e'"

inductive um_rx_reach :: "rlc_um_sn_size \<Rightarrow> rlc_rx_um_entity \<Rightarrow> bool" for sz where
  start: "um_rx_reach sz (rlc_rx_um_entity_new sz)"
| step: "um_rx_reach sz e \<Longrightarrow> um_rx_step e ev e' \<Longrightarrow> um_rx_reach sz e'"

lemma um_rx_inv_timer: "um_rx_inv e \<Longrightarrow> um_rx_inv (e\<lparr>reassembly_timer := b\<rparr>)"
  by (simp add: um_rx_inv_def)

lemma um_rx_reach_inv: "um_rx_reach sz e \<Longrightarrow> um_rx_inv e \<and> sn_field_length e = sz"
proof (induction rule: um_rx_reach.induct)
  case start
  then show ?case using um_rx_inv_new [of sz] by (simp add: rlc_rx_um_entity_new_def)
next
  case (step e ev e')
  from step.hyps(2) show ?case
  proof (cases rule: um_rx_step.cases)
    case (pdu buf)
    then show ?thesis using um_handle_pdu_ok [of e buf] step.IH by simp
  next
    case expiry
    then show ?thesis using on_expired_ok [OF um_rx_inv_timer, of e False] step.IH by simp
  qed
qed

subsection \<open>Properties\<close>

text \<open>C4. Whatever bytes arrive and whenever the timer expires, the receiving entity runs on: in every
  reachable state no handler violates an assertion of the window, the loops over the window end, the
  state variables stay below the modulus and at most a window of SDUs is buffered.\<close>

theorem um_rx_never_fails:
  assumes "um_rx_reach sz e"
  shows "(\<exists>e'. um_handle_pdu buf e = Inr e') \<and> (\<exists>e'. on_expired_reassembly_timer e = Inr e') \<and>
    rx_next_reassembly e < um_mod sz \<and> rx_next_highest e < um_mod sz \<and> rx_timer_trigger e < um_mod sz \<and>
    cm_count (rx_window e) \<le> window_size (um_sn_size_to_number sz)"
proof -
  have e: "um_rx_inv e" "sn_field_length e = sz"
    using um_rx_reach_inv [OF assms] by simp_all
  then show ?thesis
    using succeedsD [OF um_handle_pdu_ok [OF e(1), of buf]] succeedsD [OF on_expired_ok [OF e(1)]]
      cm_count_le [of "rx_window e"]
    by (auto simp: um_rx_inv_def)
qed

theorem um_rx_never_fails_witness:
  "\<exists>e'. um_handle_pdu [0x40, 1] (rlc_rx_um_entity_new size6bits) = Inr e'"
  using um_rx_never_fails [OF um_rx_reach.start] by blast

text \<open>C34. The specification starts the reassembly timer when the only SDU in the window has a missing
  segment. The code looks for the gap at the upper edge of the window, where there is never an SDU:
  whatever is stored for the SDU, the timer is not started.\<close>

theorem um_gap_starts_no_timer:
  assumes "um_rx_inv e" "rx_next_reassembly e = n" "rx_next_highest e = sn_next (sn_field_length e) n"
    and "cm_lookup (rx_window e) = [unat n \<mapsto> info]" "has_gap info" "\<not> reassembly_timer e"
  shows "um_restart_timer e = Inr e"
proof (rule timers_partial(2) [OF assms(6,2,3)])
  have "unat (sn_next (sn_field_length e) n) \<noteq> unat n"
    using sn_next_neq [of n "sn_field_length e"] assms(1,2) by (auto simp: um_rx_inv_def word_unat_eq_iff)
  then show "cm_lookup (rx_window e) (unat (sn_next (sn_field_length e) n)) = None"
    using assms(4) by simp
qed

theorem um_gap_starts_no_timer_witness:
  "um_restart_timer ((rlc_rx_um_entity_new size6bits)\<lparr>rx_next_highest := 1, rx_window :=
     cm_overwrite 0 \<lparr>fully_received = False, has_gap = True, segments = []\<rparr> (create_rx_window size6bits)\<rparr>) =
   Inr ((rlc_rx_um_entity_new size6bits)\<lparr>rx_next_highest := 1, rx_window :=
     cm_overwrite 0 \<lparr>fully_received = False, has_gap = True, segments = []\<rparr> (create_rx_window size6bits)\<rparr>)"
proof -
  let ?w = "cm_overwrite 0 \<lparr>fully_received = False, has_gap = True, segments = []\<rparr> (create_rx_window size6bits)"
  let ?e = "(rlc_rx_um_entity_new size6bits)\<lparr>rx_next_highest := 1, rx_window := ?w\<rparr>"
  have new: "cm_inv (create_rx_window size6bits)" "cm_size (create_rx_window size6bits) = 32"
    "cm_lookup (create_rx_window size6bits) = Map.empty"
    by (simp_all add: create_rx_window_def window_size_def cardinality_def cm_new_inv cm_lookup_new)
  have "um_rx_inv ?e" "cm_lookup ?w = [unat (0::u32) \<mapsto> \<lparr>fully_received = False, has_gap = True, segments = []\<rparr>]"
    using cm_overwrite_spec [OF new(1), of 0] new(2,3)
    by (auto simp: um_rx_inv_def rlc_rx_um_entity_new_def um_mod_power window_size_def cardinality_def)
  then show ?thesis
    using um_gap_starts_no_timer [of ?e 0] by (simp add: rlc_rx_um_entity_new_def sn_next_def um_mod_power)
qed


end
