(* ===== verification/Rlc_Sdu_Queue.thy ===== *)
theory Rlc_Sdu_Queue
  imports Prelude
begin

text \<open>
  The queue of SDUs waiting for transmission: \<^verbatim>\<open>lib/rlc/rlc_sdu_queue_lockfree.h\<close> on the
  single-producer single-consumer queue of \<^verbatim>\<open>include/srsran/adt/spsc_queue.h\<close>. One table holds for every
  slot \<open>PDCP SN % capacity\<close> the number queued there, or that it is free or discarded; discarded SDUs
  stay in the queue until they are read. The numbers of SDUs and bytes are packed into one 64-bit
  word. The operations of the two threads interleave as wholes. Abstractly the queue is the list of
  the SDUs that are not discarded.
\<close>

subsection \<open>Operations\<close>

record rlc_sdu =
  sdu_buf :: "byte list"
  sdu_pdcp_sn :: "u32 option"

definition rlc_sdu_none :: rlc_sdu where
  "rlc_sdu_none = \<lparr>sdu_buf = [], sdu_pdcp_sn = None\<rparr>"

record sdu_queue =
  q_capacity :: nat
  q_byte_limit :: nat
  q_queue :: "rlc_sdu list"
  q_states :: "u32 list"
  q_sizes :: "nat list"
  q_state :: u64

definition STATE_FREE :: u32 where
  "STATE_FREE = 0xffffffff"

definition STATE_DISCARDED :: u32 where
  "STATE_DISCARDED = 0xfffffffe"

definition sdu_queue_new :: "nat \<Rightarrow> nat \<Rightarrow> sdu_queue" where
  "sdu_queue_new capacity byte_limit =
     \<lparr>q_capacity = capacity, q_byte_limit = byte_limit, q_queue = [], q_states = replicate capacity STATE_FREE,
      q_sizes = replicate capacity 0, q_state = 0\<rparr>"

definition spsc_try_push :: "nat \<Rightarrow> 'a \<Rightarrow> 'a list \<Rightarrow> 'a list option" where
  "spsc_try_push capacity x xs = (if length xs < capacity then Some (xs @ [x]) else None)"

fun spsc_try_pop :: "'a list \<Rightarrow> ('a \<times> 'a list) option" where
  "spsc_try_pop [] = None"
| "spsc_try_pop (x # xs) = Some (x, xs)"

definition state_change :: "nat \<Rightarrow> u64" where
  "state_change sdu_size = push_bit 32 1 OR ucast (of_nat sdu_size :: u32)"

definition state_add :: "nat \<Rightarrow> sdu_queue \<Rightarrow> sdu_queue" where
  "state_add sdu_size q = q\<lparr>q_state := q_state q + state_change sdu_size\<rparr>"

definition state_sub :: "nat \<Rightarrow> sdu_queue \<Rightarrow> sdu_queue" where
  "state_sub sdu_size q = q\<lparr>q_state := q_state q - state_change sdu_size\<rparr>"

text \<open>The number of SDUs and the number of bytes.\<close>

definition q_get_state :: "sdu_queue \<Rightarrow> u32 \<times> u32" where
  "q_get_state q = (ucast (drop_bit 32 (q_state q)), ucast (q_state q AND 0xffffffff))"

definition q_slot :: "sdu_queue \<Rightarrow> u32 \<Rightarrow> nat" where
  "q_slot q pdcp_sn = unat pdcp_sn mod q_capacity q"

definition q_write :: "rlc_sdu \<Rightarrow> sdu_queue \<Rightarrow> bool \<times> sdu_queue" where
  "q_write sdu q =
     (let size = length (sdu_buf sdu)
      in if size + unat (snd (q_get_state q)) \<ge> q_byte_limit q then (False, q)
         else case sdu_pdcp_sn sdu of
                None \<Rightarrow>
                  (case spsc_try_push (q_capacity q) sdu (q_queue q) of
                     None \<Rightarrow> (False, q)
                   | Some xs \<Rightarrow> (True, state_add size (q\<lparr>q_queue := xs\<rparr>)))
              | Some pdcp_sn \<Rightarrow>
                  let slot = q_slot q pdcp_sn
                  in if q_states q ! slot \<noteq> STATE_FREE then (False, q)
                     else let q1 = q\<lparr>q_sizes := (q_sizes q)[slot := size], q_states := (q_states q)[slot := pdcp_sn]\<rparr>
                          in case spsc_try_push (q_capacity q) sdu (q_queue q) of
                               None \<Rightarrow> (False, q1\<lparr>q_states := (q_states q1)[slot := STATE_FREE]\<rparr>)
                             | Some xs \<Rightarrow> (True, state_add size (q1\<lparr>q_queue := xs\<rparr>)))"

definition q_try_discard :: "u32 \<Rightarrow> sdu_queue \<Rightarrow> bool \<times> sdu_queue" where
  "q_try_discard pdcp_sn q =
     (let slot = q_slot q pdcp_sn; sdu_size = q_sizes q ! slot
      in if q_states q ! slot = pdcp_sn
         then (True, state_sub sdu_size (q\<lparr>q_states := (q_states q)[slot := STATE_DISCARDED]\<rparr>))
         else (False, q))"

definition q_check_and_release :: "u32 \<Rightarrow> sdu_queue \<Rightarrow> bool \<times> sdu_queue" where
  "q_check_and_release pdcp_sn q =
     (let slot = q_slot q pdcp_sn; sdu_size = q_sizes q ! slot; old_state = q_states q ! slot;
          q1 = q\<lparr>q_states := (q_states q)[slot := STATE_FREE]\<rparr>
      in if old_state = pdcp_sn then (True, state_sub sdu_size q1)
         else if old_state = STATE_DISCARDED then (False, q1)
         else (False, state_sub sdu_size q1))"

text \<open>What is done with an SDU that was popped: its slot is released, and the totals are updated.\<close>

definition q_pop :: "sdu_queue \<Rightarrow> rlc_sdu \<Rightarrow> rlc_sdu list \<Rightarrow> bool \<times> sdu_queue" where
  "q_pop q sdu' xs =
     (case sdu_pdcp_sn sdu' of
        Some pdcp_sn \<Rightarrow> q_check_and_release pdcp_sn (q\<lparr>q_queue := xs\<rparr>)
      | None \<Rightarrow> (True, state_sub (length (sdu_buf sdu')) (q\<lparr>q_queue := xs\<rparr>)))"

text \<open>
  Every round pops an SDU into the variable of the caller and drops it if it was discarded. When
  the queue is exhausted, the variable still holds what was popped last.
\<close>

function q_read :: "rlc_sdu \<Rightarrow> sdu_queue \<Rightarrow> bool \<times> rlc_sdu \<times> sdu_queue" where
  "q_read sdu q =
     (case spsc_try_pop (q_queue q) of
        None \<Rightarrow> (False, sdu, q)
      | Some (sdu', xs) \<Rightarrow>
          let (sdu_is_valid, q') = q_pop q sdu' xs
          in if sdu_is_valid then (True, sdu', q') else q_read sdu' q')"
  by auto
termination
proof (relation "measure (\<lambda>(sdu, q). length (q_queue q))")
  fix q sdu' xs x p valid q' sdu
  assume a: "spsc_try_pop (q_queue q) = Some p" "(sdu', xs) = p" "x = q_pop q sdu' xs" "(valid, q') = x"
  have "q_queue q' = xs"
    using a(3,4) by (auto simp: q_pop_def state_sub_def q_check_and_release_def Let_def split: option.splits if_splits)
  then show "((sdu', q'), sdu, q) \<in> measure (\<lambda>(sdu, q). length (q_queue q))"
    using a(1,2) by (cases "q_queue q") auto
qed simp

declare q_read.simps [simp del]

definition q_is_empty :: "sdu_queue \<Rightarrow> bool" where
  "q_is_empty q \<longleftrightarrow> q_queue q = []"

definition q_is_full :: "sdu_queue \<Rightarrow> bool" where
  "q_is_full q \<longleftrightarrow> length (q_queue q) \<ge> q_capacity q"

subsection \<open>Abstraction\<close>

definition q_valid :: "sdu_queue \<Rightarrow> rlc_sdu \<Rightarrow> bool" where
  "q_valid q s \<longleftrightarrow> (case sdu_pdcp_sn s of None \<Rightarrow> True | Some p \<Rightarrow> q_states q ! q_slot q p = p)"

definition pending :: "sdu_queue \<Rightarrow> rlc_sdu list" where
  "pending q = filter (q_valid q) (q_queue q)"

definition total_bytes :: "rlc_sdu list \<Rightarrow> nat" where
  "total_bytes sdus = sum_list (map (\<lambda>s. length (sdu_buf s)) sdus)"

definition slots_of :: "nat \<Rightarrow> rlc_sdu list \<Rightarrow> nat list" where
  "slots_of cap sdus = concat (map (\<lambda>s. case sdu_pdcp_sn s of None \<Rightarrow> [] | Some p \<Rightarrow> [unat p mod cap]) sdus)"

definition counts :: "rlc_sdu list \<Rightarrow> u64" where
  "counts sdus = of_nat (4294967296 * length sdus + total_bytes sdus)"

definition q_slots_ok :: "sdu_queue \<Rightarrow> rlc_sdu list \<Rightarrow> bool" where
  "q_slots_ok q sdus \<longleftrightarrow>
     distinct (slots_of (q_capacity q) sdus) \<and>
     (\<forall>s\<in>set sdus. \<forall>p. sdu_pdcp_sn s = Some p \<longrightarrow> p < STATE_DISCARDED \<and>
        q_states q ! q_slot q p \<in> {p, STATE_DISCARDED} \<and> q_sizes q ! q_slot q p = length (sdu_buf s)) \<and>
     (\<forall>i < q_capacity q. i \<notin> set (slots_of (q_capacity q) sdus) \<longrightarrow> q_states q ! i = STATE_FREE)"

definition q_inv :: "sdu_queue \<Rightarrow> bool" where
  "q_inv q \<longleftrightarrow>
     0 < q_capacity q \<and> q_capacity q < 65536 \<and> q_byte_limit q < 4294967296 \<and>
     length (q_states q) = q_capacity q \<and> length (q_sizes q) = q_capacity q \<and> length (q_queue q) \<le> q_capacity q \<and>
     q_slots_ok q (q_queue q) \<and> q_state q = counts (pending q) \<and> total_bytes (pending q) < 4294967296"

lemma states_less: "p < STATE_DISCARDED \<Longrightarrow> p \<noteq> STATE_DISCARDED \<and> p \<noteq> STATE_FREE" "STATE_DISCARDED \<noteq> STATE_FREE"
  by (auto simp: STATE_DISCARDED_def STATE_FREE_def)

lemma slots_of_simps [simp]:
  "slots_of cap [] = []"
  "slots_of cap (s # ss) = (case sdu_pdcp_sn s of None \<Rightarrow> [] | Some p \<Rightarrow> [unat p mod cap]) @ slots_of cap ss"
  "slots_of cap (xs @ ys) = slots_of cap xs @ slots_of cap ys"
  by (simp_all add: slots_of_def)

lemma slots_of_mem: "s \<in> set sdus \<Longrightarrow> sdu_pdcp_sn s = Some p \<Longrightarrow> unat p mod cap \<in> set (slots_of cap sdus)"
  by (force simp: slots_of_def)

lemma slots_ofE:
  assumes "i \<in> set (slots_of cap sdus)"
  obtains s p where "s \<in> set sdus" "sdu_pdcp_sn s = Some p" "i = unat p mod cap"
proof -
  obtain s where "s \<in> set sdus" "i \<in> set (case sdu_pdcp_sn s of None \<Rightarrow> [] | Some p \<Rightarrow> [unat p mod cap])"
    using assms by (auto simp: slots_of_def)
  then show thesis
    by (cases "sdu_pdcp_sn s") (auto intro: that)
qed

lemma total_bytes_simps [simp]:
  "total_bytes [] = 0" "total_bytes (s # ss) = length (sdu_buf s) + total_bytes ss"
  "total_bytes (xs @ ys) = total_bytes xs + total_bytes ys"
  by (simp_all add: total_bytes_def)

lemma state_change_eq: "n < 4294967296 \<Longrightarrow> state_change n = of_nat (4294967296 + n)"
proof -
  assume n: "n < 4294967296"
  have u: "ucast (of_nat n :: u32) = (of_nat n :: u64)"
    using n by (intro unsigned_word_eqI) (simp add: unsigned_of_nat unsigned_ucast_eq take_bit_nat_eq_self)
  have "state_change n = push_bit 32 1 + ucast (of_nat n :: u32)"
    unfolding state_change_def
    by (rule disjunctive_add_eq_or [symmetric])
      (rule bit_word_eqI, auto simp: bit_simps simp del: push_bit_of_1 push_bit_numeral)
  then show ?thesis
    unfolding u by simp
qed

lemma counts_add: "length (sdu_buf s) < 4294967296 \<Longrightarrow> counts sdus + state_change (length (sdu_buf s)) = counts (sdus @ [s])"
  by (simp add: counts_def state_change_eq algebra_simps)

lemma counts_sub:
  "length (sdu_buf s) < 4294967296 \<Longrightarrow> counts (xs @ s # ys) - state_change (length (sdu_buf s)) = counts (xs @ ys)"
  by (simp add: counts_def state_change_eq algebra_simps)

lemma q_get_state_eq:
  assumes "q_inv q"
  shows "q_get_state q = (of_nat (length (pending q)), of_nat (total_bytes (pending q)))"
proof -
  have k: "length (pending q) < 65536" and t: "total_bytes (pending q) < 4294967296"
    using assms le_less_trans [OF length_filter_le [of "q_valid q" "q_queue q"], of 65536]
    by (auto simp: q_inv_def pending_def)
  have u: "unat (q_state q) = 4294967296 * length (pending q) + total_bytes (pending q)"
  proof -
    define N where "N = 4294967296 * length (pending q) + total_bytes (pending q)"
    have "N < 2 ^ 64"
      using k t by (simp add: N_def)
    moreover have "q_state q = of_nat N"
      using assms by (simp only: q_inv_def counts_def N_def)
    ultimately show ?thesis
      unfolding N_def [symmetric] by (simp add: unsigned_of_nat take_bit_nat_eq_self)
  qed
  have m: "(0xffffffff :: u64) = mask 32"
    by (simp add: mask_eq_exp_minus_1)
  have "unat (ucast (drop_bit 32 (q_state q)) :: u32) = length (pending q)"
    using k t u by (simp add: unsigned_ucast_eq drop_bit_eq_div unat_div_distrib take_bit_nat_eq_self)
  moreover have "unat (ucast (q_state q AND 0xffffffff) :: u32) = total_bytes (pending q)"
    unfolding m take_bit_eq_mask [symmetric] using k t u
    by (simp add: unsigned_ucast_eq take_bit_eq_mod unat_mod_distrib)
  ultimately show ?thesis
    using k t by (auto simp: q_get_state_def word_unat_eq_iff unsigned_of_nat take_bit_nat_eq_self)
qed

lemma q_valid_update:
  assumes "i \<notin> set (slots_of (q_capacity q) sdus)" "s \<in> set sdus"
  shows "q_valid (q\<lparr>q_states := (q_states q)[i := x]\<rparr>) s = q_valid q s"
proof (cases "sdu_pdcp_sn s")
  case (Some p)
  then have "i \<noteq> unat p mod q_capacity q"
    using slots_of_mem [OF assms(2) Some, of "q_capacity q"] assms(1) by auto
  then show ?thesis
    using Some by (simp add: q_valid_def q_slot_def)
qed (simp add: q_valid_def)

lemma filter_valid_update:
  assumes "i \<notin> set (slots_of (q_capacity q) sdus)"
  shows "filter (q_valid (q\<lparr>q_states := (q_states q)[i := x]\<rparr>)) sdus = filter (q_valid q) sdus"
  using q_valid_update [OF assms] by (intro filter_cong) auto

lemma q_valid_cong [simp]:
  "q_valid (q\<lparr>q_queue := xs\<rparr>) = q_valid q" "q_valid (q\<lparr>q_sizes := ys\<rparr>) = q_valid q" "q_valid (q\<lparr>q_state := w\<rparr>) = q_valid q"
  "q_valid (q\<lparr>q_queue := xs, q_states := zs\<rparr>) = q_valid (q\<lparr>q_states := zs\<rparr>)"
  "q_valid (q\<lparr>q_sizes := ys, q_states := zs\<rparr>) = q_valid (q\<lparr>q_states := zs\<rparr>)"
  by (auto simp: fun_eq_iff q_valid_def q_slot_def split: option.splits)

lemma q_pop_spec:
  assumes "q_inv q" "q_queue q = s # xs"
  shows "fst (q_pop q s xs) = q_valid q s" "q_queue (snd (q_pop q s xs)) = xs" "q_inv (snd (q_pop q s xs))"
    "pending q = (if q_valid q s then s # pending (snd (q_pop q s xs)) else pending (snd (q_pop q s xs)))"
    "q_capacity (snd (q_pop q s xs)) = q_capacity q" "q_byte_limit (snd (q_pop q s xs)) = q_byte_limit q"
proof -
  have inv: "q_slots_ok q (s # xs)" "q_state q = counts (pending q)" "total_bytes (pending q) < 4294967296"
    using assms by (simp_all add: q_inv_def)
  have pend: "pending q = (if q_valid q s then s # filter (q_valid q) xs else filter (q_valid q) xs)"
    using assms(2) by (simp add: pending_def)
  have size: "q_valid q s \<Longrightarrow> length (sdu_buf s) < 4294967296"
    using inv(3) by (simp add: pend)
  have sub: "q_valid q s \<Longrightarrow> q_state q - state_change (length (sdu_buf s)) = counts (filter (q_valid q) xs)"
    using counts_sub [of s "[]" "filter (q_valid q) xs"] size inv(2) by (simp add: pend)
  show "fst (q_pop q s xs) = q_valid q s"
    using inv(1) states_less
    by (auto simp: q_pop_def q_valid_def q_check_and_release_def Let_def q_slot_def q_slots_ok_def split: option.splits)
  show "q_queue (snd (q_pop q s xs)) = xs" "q_capacity (snd (q_pop q s xs)) = q_capacity q"
    "q_byte_limit (snd (q_pop q s xs)) = q_byte_limit q"
    by (auto simp: q_pop_def q_check_and_release_def Let_def state_sub_def split: option.splits)
  have "q_inv (snd (q_pop q s xs)) \<and> pending (snd (q_pop q s xs)) = filter (q_valid q) xs"
  proof (cases "sdu_pdcp_sn s")
    case None
    then have v: "q_valid q s"
      by (simp add: q_valid_def)
    have "pending (snd (q_pop q s xs)) = filter (q_valid q) xs"
      using None by (simp add: q_pop_def state_sub_def pending_def)
    moreover have "q_slots_ok (snd (q_pop q s xs)) xs"
      using inv(1) None by (simp add: q_slots_ok_def q_pop_def state_sub_def q_slot_def)
    ultimately show ?thesis
      using assms None sub [OF v] inv(3) v pend by (simp add: q_inv_def q_pop_def state_sub_def)
  next
    case (Some p)
    let ?i = "unat p mod q_capacity q"
    let ?q1 = "q\<lparr>q_queue := xs, q_states := (q_states q)[?i := STATE_FREE]\<rparr>"
    have slots: "distinct (slots_of (q_capacity q) xs)" "?i \<notin> set (slots_of (q_capacity q) xs)"
      and st: "p < STATE_DISCARDED" "q_states q ! ?i \<in> {p, STATE_DISCARDED}" "q_sizes q ! ?i = length (sdu_buf s)"
      using inv(1) Some by (auto simp: q_slots_ok_def q_slot_def)
    have sz: "snd (q_pop q s xs) = (if q_valid q s then state_sub (length (sdu_buf s)) ?q1 else ?q1)"
      using st states_less Some by (auto simp: q_pop_def q_check_and_release_def q_valid_def q_slot_def Let_def)
    have ok: "q_slots_ok ?q1 xs"
      unfolding q_slots_ok_def
    proof (intro conjI ballI allI impI)
      fix t p'
      assume t: "t \<in> set xs" "sdu_pdcp_sn t = Some p'"
      then have "unat p' mod q_capacity q \<noteq> ?i"
        using slots_of_mem [of t xs p' "q_capacity q"] slots(2) by auto
      then show "p' < STATE_DISCARDED" "q_states ?q1 ! q_slot ?q1 p' \<in> {p', STATE_DISCARDED}"
        "q_sizes ?q1 ! q_slot ?q1 p' = length (sdu_buf t)"
        using inv(1) t by (auto simp: q_slots_ok_def q_slot_def)
    next
      fix j
      assume "j < q_capacity ?q1" "j \<notin> set (slots_of (q_capacity ?q1) xs)"
      then show "q_states ?q1 ! j = STATE_FREE"
        using inv(1) Some assms(1) by (cases "j = ?i") (auto simp: q_slots_ok_def q_inv_def)
    qed (use slots(1) in simp)
    have "q_slots_ok (snd (q_pop q s xs)) xs"
      using ok unfolding sz by (simp add: state_sub_def q_slots_ok_def q_slot_def)
    moreover have "pending (snd (q_pop q s xs)) = filter (q_valid q) xs"
      using filter_valid_update [OF slots(2), of STATE_FREE] q_valid_cong(1) [where q = "q\<lparr>q_states := (q_states q)[?i := STATE_FREE]\<rparr>" and xs = xs]
      unfolding sz by (simp add: pending_def state_sub_def)
    ultimately show ?thesis
      using assms sub inv(3) pend inv(2) unfolding sz by (auto simp: q_inv_def state_sub_def)
  qed
  then show "q_inv (snd (q_pop q s xs))"
    "pending q = (if q_valid q s then s # pending (snd (q_pop q s xs)) else pending (snd (q_pop q s xs)))"
    using pend by simp_all
qed

lemma q_read_Cons:
  "q_queue q = s # xs \<Longrightarrow> q_read sdu q =
     (if fst (q_pop q s xs) then (True, s, snd (q_pop q s xs)) else q_read s (snd (q_pop q s xs)))"
  by (subst q_read.simps) (simp add: split_beta)

lemma q_read_spec:
  assumes "q_inv q"
  shows "case q_read sdu q of (ok, sdu', q') \<Rightarrow>
    q_inv q' \<and> q_capacity q' = q_capacity q \<and> q_byte_limit q' = q_byte_limit q \<and>
    (case pending q of [] \<Rightarrow> \<not> ok \<and> pending q' = [] | s # ss \<Rightarrow> ok \<and> sdu' = s \<and> pending q' = ss)"
  using assms
proof (induction "length (q_queue q)" arbitrary: q sdu)
  case 0
  then show ?case
    by (subst q_read.simps) (simp add: pending_def)
next
  case (Suc n)
  then obtain s xs where q: "q_queue q = s # xs" "length xs = n"
    by (cases "q_queue q") auto
  note pop = q_pop_spec [OF Suc.prems q(1)]
  show ?case
  proof (cases "q_valid q s")
    case True
    then show ?thesis
      using pop by (simp add: q_read_Cons [OF q(1)])
  next
    case False
    then show ?thesis
      using Suc.hyps(1) [of "snd (q_pop q s xs)" s] pop q(2)
      by (auto simp: q_read_Cons [OF q(1)] split: prod.splits list.splits)
  qed
qed

lemma slots_free:
  assumes "q_inv q" "q_states q ! q_slot q p = STATE_FREE"
  shows "q_slot q p \<notin> set (slots_of (q_capacity q) (q_queue q))"
proof
  assume "q_slot q p \<in> set (slots_of (q_capacity q) (q_queue q))"
  then obtain s p' where s: "s \<in> set (q_queue q)" "sdu_pdcp_sn s = Some p'" "q_slot q p = q_slot q p'"
    by (auto simp: q_slot_def elim: slots_ofE)
  then have "p' < STATE_DISCARDED" "q_states q ! q_slot q p \<in> {p', STATE_DISCARDED}"
    using assms(1) by (auto simp: q_inv_def q_slots_ok_def)
  then show False
    using states_less assms(2) by auto
qed

definition sdu_ok :: "rlc_sdu \<Rightarrow> bool" where
  "sdu_ok s \<longleftrightarrow> (\<forall>p. sdu_pdcp_sn s = Some p \<longrightarrow> p < STATE_DISCARDED)"

text \<open>The conditions under which an SDU is accepted, and the queue with it appended.\<close>

definition q_accepts :: "rlc_sdu \<Rightarrow> sdu_queue \<Rightarrow> bool" where
  "q_accepts s q \<longleftrightarrow> length (sdu_buf s) + total_bytes (pending q) < q_byte_limit q \<and>
     length (q_queue q) < q_capacity q \<and> (\<forall>p. sdu_pdcp_sn s = Some p \<longrightarrow> q_states q ! q_slot q p = STATE_FREE)"

definition q_append :: "rlc_sdu \<Rightarrow> sdu_queue \<Rightarrow> sdu_queue" where
  "q_append s q =
     (case sdu_pdcp_sn s of
        None \<Rightarrow> state_add (length (sdu_buf s)) (q\<lparr>q_queue := q_queue q @ [s]\<rparr>)
      | Some p \<Rightarrow> state_add (length (sdu_buf s)) (q\<lparr>q_sizes := (q_sizes q)[q_slot q p := length (sdu_buf s)],
          q_states := (q_states q)[q_slot q p := p], q_queue := q_queue q @ [s]\<rparr>))"

definition q_touch :: "rlc_sdu \<Rightarrow> sdu_queue \<Rightarrow> sdu_queue" where
  "q_touch s q =
     (case sdu_pdcp_sn s of
        None \<Rightarrow> q
      | Some p \<Rightarrow> if q_states q ! q_slot q p = STATE_FREE \<and> length (sdu_buf s) + total_bytes (pending q) < q_byte_limit q
                  then q\<lparr>q_sizes := (q_sizes q)[q_slot q p := length (sdu_buf s)]\<rparr> else q)"

lemma q_write_cases:
  assumes "q_inv q"
  shows "q_write s q = (if q_accepts s q then (True, q_append s q) else (False, q_touch s q))"
proof -
  have t: "unat (snd (q_get_state q)) = total_bytes (pending q)"
    using assms by (simp add: q_get_state_eq q_inv_def unsigned_of_nat take_bit_nat_eq_self)
  have free: "q_states q ! i = STATE_FREE \<Longrightarrow> (q_states q)[i := STATE_FREE] = q_states q" for i
    by (metis list_update_id)
  show ?thesis
    unfolding q_write_def t q_accepts_def q_append_def q_touch_def
    by (auto simp: Let_def spsc_try_push_def free split: option.splits)
qed

lemma q_touch_spec:
  assumes "q_inv q"
  shows "q_inv (q_touch s q)" "pending (q_touch s q) = pending q"
    "q_capacity (q_touch s q) = q_capacity q" "q_byte_limit (q_touch s q) = q_byte_limit q"
proof -
  have "q_slots_ok (q\<lparr>q_sizes := (q_sizes q)[q_slot q p := n]\<rparr>) (q_queue q)" if "q_states q ! q_slot q p = STATE_FREE" for p n
  proof -
    have "q_slot q p \<noteq> q_slot q p'" if "t \<in> set (q_queue q)" "sdu_pdcp_sn t = Some p'" for t p'
      using slots_free [OF assms \<open>q_states q ! q_slot q p = STATE_FREE\<close>] slots_of_mem [OF that, of "q_capacity q"]
      by (auto simp: q_slot_def)
    then show ?thesis
      using assms by (auto simp: q_inv_def q_slots_ok_def q_slot_def)
  qed
  then show "q_inv (q_touch s q)" "pending (q_touch s q) = pending q"
    "q_capacity (q_touch s q) = q_capacity q" "q_byte_limit (q_touch s q) = q_byte_limit q"
    using assms by (auto simp: q_touch_def q_inv_def pending_def split: option.splits)
qed

lemma q_append_spec:
  assumes "q_inv q" "q_accepts s q" "sdu_ok s"
  shows "q_inv (q_append s q)" "pending (q_append s q) = pending q @ [s]"
    "q_capacity (q_append s q) = q_capacity q" "q_byte_limit (q_append s q) = q_byte_limit q"
proof -
  let ?q = "q_append s q"
  show c: "q_capacity ?q = q_capacity q" "q_byte_limit ?q = q_byte_limit q"
    by (auto simp: q_append_def state_add_def split: option.splits)
  have qq: "q_queue ?q = q_queue q @ [s]" "q_state ?q = q_state q + state_change (length (sdu_buf s))"
    by (auto simp: q_append_def state_add_def split: option.splits)
  have pend: "pending ?q = pending q @ [s] \<and> q_slots_ok ?q (q_queue q @ [s])"
  proof (cases "sdu_pdcp_sn s")
    case None
    then show ?thesis
      using assms(1) by (auto simp: q_append_def state_add_def pending_def q_valid_def [of q s] q_inv_def q_slots_ok_def q_slot_def)
  next
    case (Some p)
    let ?i = "q_slot q p"
    have i: "?i \<notin> set (slots_of (q_capacity q) (q_queue q))" "?i < length (q_states q)" "?i < length (q_sizes q)"
      using slots_free [OF assms(1)] assms(1,2) Some by (auto simp: q_accepts_def q_inv_def q_slot_def)
    have "q_valid (q\<lparr>q_states := (q_states q)[?i := p]\<rparr>) s"
      using Some i by (simp add: q_valid_def q_slot_def)
    then have "pending ?q = pending q @ [s]"
      using filter_valid_update [OF i(1), of p] Some by (simp add: pending_def q_append_def state_add_def)
    moreover have "q_slots_ok ?q (q_queue q @ [s])"
      unfolding q_slots_ok_def
    proof (intro conjI ballI allI impI)
      show "distinct (slots_of (q_capacity ?q) (q_queue q @ [s]))"
        using i(1) assms(1) Some c by (simp add: q_inv_def q_slots_ok_def q_slot_def)
    next
      fix t p'
      assume t: "t \<in> set (q_queue q @ [s])" "sdu_pdcp_sn t = Some p'"
      show "p' < STATE_DISCARDED" "q_states ?q ! q_slot ?q p' \<in> {p', STATE_DISCARDED}"
        "q_sizes ?q ! q_slot ?q p' = length (sdu_buf t)"
      proof -
        have "p' < STATE_DISCARDED \<and> q_states ?q ! q_slot ?q p' \<in> {p', STATE_DISCARDED} \<and> q_sizes ?q ! q_slot ?q p' = length (sdu_buf t)"
        proof (cases "t = s")
          case True
          then show ?thesis
            using t(2) Some i assms(3) by (simp add: sdu_ok_def q_append_def state_add_def q_slot_def)
        next
          case False
          then have t': "t \<in> set (q_queue q)"
            using t(1) by simp
          then have "q_slot q p' \<noteq> ?i"
            using slots_of_mem [OF t' t(2), of "q_capacity q"] i(1) by (auto simp: q_slot_def)
          then show ?thesis
            using assms(1) t' t(2) Some by (auto simp: q_inv_def q_slots_ok_def q_append_def state_add_def q_slot_def)
        qed
        then show "p' < STATE_DISCARDED" "q_states ?q ! q_slot ?q p' \<in> {p', STATE_DISCARDED}"
          "q_sizes ?q ! q_slot ?q p' = length (sdu_buf t)"
          by blast+
      qed
    next
      fix j
      assume "j < q_capacity ?q" "j \<notin> set (slots_of (q_capacity ?q) (q_queue q @ [s]))"
      then show "q_states ?q ! j = STATE_FREE"
        using assms(1) Some c by (auto simp: q_inv_def q_slots_ok_def q_slot_def q_append_def state_add_def)
    qed
    ultimately show ?thesis ..
  qed
  then show "pending ?q = pending q @ [s]" ..
  have lt: "length (sdu_buf s) + total_bytes (pending q) < 4294967296"
    using assms(1,2) by (simp add: q_inv_def q_accepts_def)
  have "q_state ?q = counts (pending q @ [s])"
    using counts_add [of s "pending q"] lt qq(2) assms(1) by (simp add: q_inv_def)
  moreover have "length (q_states ?q) = q_capacity q" "length (q_sizes ?q) = q_capacity q"
    using assms(1) by (auto simp: q_append_def state_add_def q_inv_def split: option.splits)
  ultimately show "q_inv ?q"
    using pend lt qq(1) assms c by (simp add: q_inv_def q_accepts_def)
qed

lemma q_write_spec:
  assumes "q_inv q" "sdu_ok s"
  shows "q_inv (snd (q_write s q))" "q_capacity (snd (q_write s q)) = q_capacity q"
    "q_byte_limit (snd (q_write s q)) = q_byte_limit q"
    "pending (snd (q_write s q)) = (if fst (q_write s q) then pending q @ [s] else pending q)"
    "fst (q_write s q) \<longleftrightarrow> q_accepts s q"
  using q_write_cases [OF assms(1)] q_touch_spec [OF assms(1)] q_append_spec [OF assms(1) _ assms(2)] by auto

lemma valid_slot:
  assumes "q_inv q" "q_states q ! q_slot q p = p" "p < STATE_DISCARDED"
  obtains s where "s \<in> set (q_queue q)" "sdu_pdcp_sn s = Some p"
proof -
  have i: "q_slot q p < q_capacity q" "p \<noteq> STATE_FREE" "p \<noteq> STATE_DISCARDED"
    using assms states_less by (auto simp: q_inv_def q_slot_def)
  then have "q_slot q p \<in> set (slots_of (q_capacity q) (q_queue q))"
    using assms by (auto simp: q_inv_def q_slots_ok_def)
  then obtain s p' where s: "s \<in> set (q_queue q)" "sdu_pdcp_sn s = Some p'" "q_slot q p = q_slot q p'"
    by (auto simp: q_slot_def elim: slots_ofE)
  then have "q_states q ! q_slot q p \<in> {p', STATE_DISCARDED}"
    using assms(1) by (auto simp: q_inv_def q_slots_ok_def)
  then have "p' = p"
    using assms(2) i by auto
  then show thesis
    using s that by blast
qed

lemma q_try_discard_spec:
  assumes "q_inv q" "p < STATE_DISCARDED"
  shows "q_inv (snd (q_try_discard p q))" "q_capacity (snd (q_try_discard p q)) = q_capacity q"
    "q_byte_limit (snd (q_try_discard p q)) = q_byte_limit q"
    "pending (snd (q_try_discard p q)) = filter (\<lambda>s. sdu_pdcp_sn s \<noteq> Some p) (pending q)"
    "fst (q_try_discard p q) \<longleftrightarrow> (\<exists>s\<in>set (pending q). sdu_pdcp_sn s = Some p)"
proof -
  let ?i = "q_slot q p" and ?q = "snd (q_try_discard p q)"
  show c: "q_capacity ?q = q_capacity q" "q_byte_limit ?q = q_byte_limit q"
    by (simp_all add: q_try_discard_def Let_def state_sub_def)
  have "q_inv ?q \<and> pending ?q = filter (\<lambda>s. sdu_pdcp_sn s \<noteq> Some p) (pending q) \<and>
    (fst (q_try_discard p q) \<longleftrightarrow> (\<exists>s\<in>set (pending q). sdu_pdcp_sn s = Some p))"
  proof (cases "q_states q ! ?i = p")
    case False
    then have "sdu_pdcp_sn s \<noteq> Some p" if "s \<in> set (pending q)" for s
      using that by (auto simp: pending_def q_valid_def)
    then show ?thesis
      using False assms(1) by (auto simp: q_try_discard_def Let_def intro: filter_True [symmetric])
  next
    case True
    obtain s where s: "s \<in> set (q_queue q)" "sdu_pdcp_sn s = Some p"
      using valid_slot [OF assms(1) True assms(2)] .
    then obtain xs ys where q: "q_queue q = xs @ s # ys"
      by (meson split_list)
    have ok: "q_slots_ok q (xs @ s # ys)" "q_state q = counts (pending q)" "total_bytes (pending q) < 4294967296"
      using assms(1) by (simp_all add: q_inv_def flip: q)
    have slots: "?i \<notin> set (slots_of (q_capacity q) xs)" "?i \<notin> set (slots_of (q_capacity q) ys)"
      using ok(1) s(2) by (auto simp: q_slots_ok_def q_slot_def)
    have lens: "?i < length (q_states q)" "p \<noteq> STATE_DISCARDED" "q_sizes q ! ?i = length (sdu_buf s)"
      using assms states_less ok(1) s(2) by (auto simp: q_inv_def q_slot_def q_slots_ok_def)
    let ?f = "filter (q_valid q)"
    have pq: "pending q = ?f xs @ s # ?f ys"
      using True s(2) by (simp add: pending_def q q_valid_def [of q s])
    have other: "sdu_pdcp_sn t \<noteq> Some p" if "t \<in> set xs \<union> set ys" for t
      using that slots slots_of_mem [of t _ p "q_capacity q"] by (auto simp: q_slot_def)
    have q1: "q_try_discard p q = (True, state_sub (length (sdu_buf s)) (q\<lparr>q_states := (q_states q)[?i := STATE_DISCARDED]\<rparr>))"
      using True lens(3) by (simp add: q_try_discard_def Let_def)
    have "\<not> q_valid (q\<lparr>q_states := (q_states q)[?i := STATE_DISCARDED]\<rparr>) s"
      using s(2) lens by (simp add: q_valid_def q_slot_def)
    then have p1: "pending ?q = ?f xs @ ?f ys"
      using filter_valid_update [OF slots(1)] filter_valid_update [OF slots(2)] by (simp add: q1 pending_def q state_sub_def)
    have "q_state ?q = counts (?f xs @ ?f ys)"
      using counts_sub [of s "?f xs" "?f ys"] ok(2,3) by (simp add: q1 state_sub_def pq)
    moreover have "q_slots_ok ?q (q_queue ?q)"
      using ok(1) lens(1,2) s(2) by (auto simp: q1 state_sub_def q_slots_ok_def q_slot_def q nth_list_update)
    ultimately have "q_inv ?q"
      using assms(1) ok(3) p1 pq by (simp add: q_inv_def q1 state_sub_def)
    moreover have "filter (\<lambda>s. sdu_pdcp_sn s \<noteq> Some p) (pending q) = ?f xs @ ?f ys"
    proof -
      have "filter (\<lambda>s. sdu_pdcp_sn s \<noteq> Some p) (?f xs) = ?f xs" "filter (\<lambda>s. sdu_pdcp_sn s \<noteq> Some p) (?f ys) = ?f ys"
        using other by (auto simp del: filter_filter intro!: filter_True)
      then show ?thesis
        unfolding pq using s(2) by (simp del: filter_filter)
    qed
    ultimately show ?thesis
      using p1 q1 pq s(2) by auto
  qed
  then show "q_inv ?q" "pending ?q = filter (\<lambda>s. sdu_pdcp_sn s \<noteq> Some p) (pending q)"
    "fst (q_try_discard p q) \<longleftrightarrow> (\<exists>s\<in>set (pending q). sdu_pdcp_sn s = Some p)"
    by blast+
qed

lemma q_new_inv:
  "0 < cap \<Longrightarrow> cap < 65536 \<Longrightarrow> limit < 4294967296 \<Longrightarrow> q_inv (sdu_queue_new cap limit)"
  "pending (sdu_queue_new cap limit) = []"
  by (simp_all add: q_inv_def sdu_queue_new_def pending_def q_slots_ok_def counts_def)

subsection \<open>The contract of a queue of SDUs\<close>

text \<open>What the transmitting entities rely on: a first-in first-out queue with deletion.\<close>

locale sdu_fifo =
  fixes inv :: "'q \<Rightarrow> bool"
    and content :: "'q \<Rightarrow> rlc_sdu list"
    and admissible :: "rlc_sdu \<Rightarrow> bool"
    and enq :: "rlc_sdu \<Rightarrow> 'q \<Rightarrow> bool \<times> 'q"
    and del :: "u32 \<Rightarrow> 'q \<Rightarrow> bool \<times> 'q"
    and deq :: "rlc_sdu \<Rightarrow> 'q \<Rightarrow> bool \<times> rlc_sdu \<times> 'q"
  assumes enq_inv: "inv q \<Longrightarrow> admissible s \<Longrightarrow> inv (snd (enq s q))"
    and enq_content: "inv q \<Longrightarrow> admissible s \<Longrightarrow>
      content (snd (enq s q)) = (if fst (enq s q) then content q @ [s] else content q)"
    and del_inv: "inv q \<Longrightarrow> p < STATE_DISCARDED \<Longrightarrow> inv (snd (del p q))"
    and del_content: "inv q \<Longrightarrow> p < STATE_DISCARDED \<Longrightarrow>
      content (snd (del p q)) = filter (\<lambda>s. sdu_pdcp_sn s \<noteq> Some p) (content q)"
    and deq_inv: "inv q \<Longrightarrow> inv (snd (snd (deq v q)))"
    and deq_some: "inv q \<Longrightarrow> content q = s # ss \<Longrightarrow>
      \<exists>q'. deq v q = (True, s, q') \<and> content q' = ss"
    and deq_none: "inv q \<Longrightarrow> content q = [] \<Longrightarrow> \<not> fst (deq v q) \<and> content (snd (snd (deq v q))) = []"
begin

fun deq_all :: "nat \<Rightarrow> 'q \<Rightarrow> rlc_sdu list" where
  "deq_all 0 q = []"
| "deq_all (Suc n) q = (case deq rlc_sdu_none q of (ok, s, q') \<Rightarrow> if ok then s # deq_all n q' else [])"

lemma deq_all_content: "inv q \<Longrightarrow> length (content q) \<le> n \<Longrightarrow> deq_all n q = content q"
proof (induction n arbitrary: q)
  case (Suc n)
  show ?case
  proof (cases "content q")
    case Nil
    then show ?thesis using deq_none [OF Suc.prems(1), of rlc_sdu_none] by (auto split: prod.splits)
  next
    case (Cons s ss)
    then obtain q' where "deq rlc_sdu_none q = (True, s, q')" "content q' = ss"
      using deq_some [OF Suc.prems(1)] by blast
    moreover have "inv q'"
      using deq_inv [OF Suc.prems(1), of rlc_sdu_none] calculation by simp
    ultimately show ?thesis
      using Suc Cons by simp
  qed
qed simp

end

interpretation lfq: sdu_fifo q_inv pending sdu_ok q_write q_try_discard q_read
proof
  show "q_inv (snd (snd (q_read v q)))" if "q_inv q" for q v
    using q_read_spec [OF that, of v] by (auto split: prod.splits)
  show "\<exists>q'. q_read v q = (True, s, q') \<and> pending q' = ss" if "q_inv q" "pending q = s # ss" for q s ss v
    using q_read_spec [OF that(1), of v] that(2) by (auto split: prod.splits)
  show "\<not> fst (q_read v q) \<and> pending (snd (snd (q_read v q))) = []" if "q_inv q" "pending q = []" for q v
    using q_read_spec [OF that(1), of v] that(2) by (auto split: prod.splits)
qed (simp_all add: q_write_spec q_try_discard_spec)

subsection \<open>Properties\<close>

text \<open>C13. The lock-free SDU queue refines a first-in first-out list with deletion. A write appends the SDU
  exactly if it is accepted, a discard removes exactly the SDU with that PDCP number, a read returns the
  oldest SDU that was not discarded, the invariant is kept, and the packed counters are the number
  and the total size of the SDUs that are not discarded.\<close>

theorem sdu_queue_refines_fifo:
  assumes "q_inv q" "sdu_ok s" "p < STATE_DISCARDED"
  shows "q_inv (snd (q_write s q)) \<and> q_inv (snd (q_try_discard p q)) \<and> q_inv (snd (snd (q_read v q))) \<and>
    pending (snd (q_write s q)) = (if fst (q_write s q) then pending q @ [s] else pending q) \<and>
    pending (snd (q_try_discard p q)) = filter (\<lambda>s. sdu_pdcp_sn s \<noteq> Some p) (pending q) \<and>
    (case pending q of
       [] \<Rightarrow> \<not> fst (q_read v q)
     | x # xs \<Rightarrow> fst (q_read v q) \<and> fst (snd (q_read v q)) = x \<and> pending (snd (snd (q_read v q))) = xs) \<and>
    q_get_state q = (of_nat (length (pending q)), of_nat (total_bytes (pending q)))"
proof -
  have "case pending q of
       [] \<Rightarrow> \<not> fst (q_read v q)
     | x # xs \<Rightarrow> fst (q_read v q) \<and> fst (snd (q_read v q)) = x \<and> pending (snd (snd (q_read v q))) = xs"
  proof (cases "pending q")
    case (Cons x xs)
    with lfq.deq_some [OF assms(1) Cons, of v] show ?thesis by auto
  qed (use lfq.deq_none [OF assms(1), of v] in simp)
  then show ?thesis
    using lfq.enq_inv [OF assms(1,2)] lfq.enq_content [OF assms(1,2)] lfq.del_inv [OF assms(1,3)]
      lfq.del_content [OF assms(1,3)] lfq.deq_inv [OF assms(1), of v] q_get_state_eq [OF assms(1)] by simp
qed

theorem sdu_queue_refines_fifo_witness:
  "pending (snd (q_write \<lparr>sdu_buf = [1, 2], sdu_pdcp_sn = Some 7\<rparr> (sdu_queue_new 16 100))) =
    (if fst (q_write \<lparr>sdu_buf = [1, 2], sdu_pdcp_sn = Some 7\<rparr> (sdu_queue_new 16 100))
     then [\<lparr>sdu_buf = [1, 2], sdu_pdcp_sn = Some 7\<rparr>] else [])"
  using sdu_queue_refines_fifo [OF q_new_inv(1), of 16 100 "\<lparr>sdu_buf = [1, 2], sdu_pdcp_sn = Some 7\<rparr>" 7]
  by (simp add: sdu_ok_def STATE_DISCARDED_def q_new_inv(2))

end
