(* ===== verification/Bit_Encoding.thy ===== *)
theory Bit_Encoding
  imports Prelude
begin

text \<open>
  The bit encoder and decoder of \<^verbatim>\<open>include/srsran/support/bit_encoding.h\<close> and
  \<^verbatim>\<open>lib/support/bit_encoding.cpp\<close>, with which the protocol layers write and read header fields. The
  byte buffer below the encoder is a list of bytes; appending to it always succeeds. Against the
  abstract view of a buffer as a list of bits, most significant first, packing appends the bits of a
  number and unpacking takes them off again.
\<close>

subsection \<open>The encoder\<close>

record bit_encoder =
  enc_bytes :: "byte list"
  enc_offset :: nat

definition enc_new :: bit_encoder where
  "enc_new = \<lparr>enc_bytes = [], enc_offset = 0\<rparr>"

definition enc_nof_bits :: "bit_encoder \<Rightarrow> nat" where
  "enc_nof_bits e = 8 * (length (enc_bytes e) - (if enc_offset e = 0 then 0 else 1)) + enc_offset e"

definition add_to_back :: "byte \<Rightarrow> byte list \<Rightarrow> byte list" where
  "add_to_back b bytes = butlast bytes @ [last bytes + b]"

function pack_loop :: "u64 \<Rightarrow> nat \<Rightarrow> bit_encoder \<Rightarrow> bit_encoder" where
  "pack_loop val n_bits e =
     (if n_bits > 0
      then let offset = enc_offset e;
               bytes = (if offset = 0 then enc_bytes e @ [0] else enc_bytes e);
               val' = (if n_bits < 64 then val AND mask n_bits else val)
           in if 8 - offset > n_bits
              then \<lparr>enc_bytes = add_to_back (ucast (push_bit (8 - offset - n_bits) val')) bytes,
                    enc_offset = offset + n_bits\<rparr>
              else pack_loop val' (n_bits - (8 - offset))
                     \<lparr>enc_bytes = add_to_back (ucast (drop_bit (n_bits - (8 - offset)) val')) bytes, enc_offset = 0\<rparr>
      else e)"
  by auto
termination
  by (relation "measure (\<lambda>(val, n, e). n + (if enc_offset e = 0 then 0 else 1))") auto

definition pack :: "u64 \<Rightarrow> nat \<Rightarrow> bit_encoder \<Rightarrow> bit_encoder result" where
  "pack val n_bits e = (if n_bits \<le> 64 then Inr (pack_loop val n_bits e) else Inl Assertion_Failed)"

fun pack_each :: "byte list \<Rightarrow> bit_encoder \<Rightarrow> bit_encoder result" where
  "pack_each [] e = Inr e"
| "pack_each (b # bs) e = rbind (pack (ucast b) 8 e) (pack_each bs)"

definition enc_pack_bytes :: "byte list \<Rightarrow> bit_encoder \<Rightarrow> bit_encoder result" where
  "enc_pack_bytes bytes e =
     (if bytes = [] then Inr e
      else if enc_offset e = 0 then Inr (e\<lparr>enc_bytes := enc_bytes e @ bytes\<rparr>)
      else pack_each bytes e)"

definition align_bytes_zero :: "bit_encoder \<Rightarrow> bit_encoder" where
  "align_bytes_zero e = e\<lparr>enc_offset := 0\<rparr>"

subsection \<open>The decoder\<close>

record bit_decoder =
  dec_buffer :: "byte list"
  dec_it :: nat
  dec_offset :: nat

definition dec_new :: "byte list \<Rightarrow> bit_decoder" where
  "dec_new buffer = \<lparr>dec_buffer = buffer, dec_it = 0, dec_offset = 0\<rparr>"

definition dec_nof_bytes :: "bit_decoder \<Rightarrow> nat" where
  "dec_nof_bytes d = dec_it d + (if dec_offset d \<noteq> 0 then 1 else 0)"

definition dec_nof_bits :: "bit_decoder \<Rightarrow> nat" where
  "dec_nof_bits d = dec_offset d + 8 * dec_it d"

definition advance_bits :: "nat \<Rightarrow> bit_decoder \<Rightarrow> bool \<times> bit_decoder" where
  "advance_bits n_bits d =
     (let extra_bits = (dec_offset d + n_bits) mod 8;
          bytes_required = (dec_offset d + n_bits + 7) div 8;
          bytes_offset = (dec_offset d + n_bits) div 8
      in if bytes_required > length (dec_buffer d) - dec_it d then (False, d)
         else (True, d\<lparr>dec_it := dec_it d + bytes_offset, dec_offset := extra_bits\<rparr>))"

function unpack_bits_loop :: "'a::len word \<Rightarrow> nat \<Rightarrow> bit_decoder \<Rightarrow> bool \<times> 'a word \<times> bit_decoder" where
  "unpack_bits_loop val n_bits d =
     (if n_bits > 0
      then let offset = dec_offset d
           in if dec_it d = length (dec_buffer d) then (False, val, d)
              else if 8 - offset > n_bits
              then let m = push_bit (8 - offset) 1 - push_bit (8 - offset - n_bits) 1;
                       part = drop_bit (8 - offset - n_bits) (dec_buffer d ! dec_it d AND m)
                   in (True, val + ucast part, d\<lparr>dec_offset := offset + n_bits\<rparr>)
              else let m = push_bit (8 - offset) 1 - 1;
                       part = push_bit (n_bits - (8 - offset)) (ucast (dec_buffer d ! dec_it d AND m))
                   in unpack_bits_loop (val + part) (n_bits - (8 - offset)) (d\<lparr>dec_offset := 0, dec_it := dec_it d + 1\<rparr>)
      else (True, val, d))"
  by auto
termination
  by (relation "measure (\<lambda>(val, n, d). n + (if dec_offset d = 0 then 0 else 1))") auto

declare pack_loop.simps [simp del] unpack_bits_loop.simps [simp del]

definition unpack :: "nat \<Rightarrow> bit_decoder \<Rightarrow> (bool \<times> 'a::len word \<times> bit_decoder) result" where
  "unpack n_bits d =
     (if n_bits \<le> LENGTH('a) then Inr (unpack_bits_loop 0 n_bits d) else Inl Assertion_Failed)"

fun unpack_each :: "nat \<Rightarrow> bit_decoder \<Rightarrow> (bool \<times> byte list \<times> bit_decoder) result" where
  "unpack_each 0 d = Inr (True, [], d)"
| "unpack_each (Suc n) d =
     rbind (unpack 8 d) (\<lambda>(ok, b, d').
     if \<not> ok then Inr (False, [b], d')
     else rbind (unpack_each n d') (\<lambda>(ok', bs, d''). Inr (ok', b # bs, d'')))"

definition unpack_bytes :: "nat \<Rightarrow> bit_decoder \<Rightarrow> (bool \<times> byte list \<times> bit_decoder) result" where
  "unpack_bytes n d =
     (if n = 0 then Inr (True, [], d)
      else if n > length (dec_buffer d) - dec_it d then Inr (False, [], d)
      else if dec_offset d = 0 then Inr (True, take n (drop (dec_it d) (dec_buffer d)), d\<lparr>dec_it := dec_it d + n\<rparr>)
      else unpack_each n d)"

definition align_bytes :: "bit_decoder \<Rightarrow> bit_decoder result" where
  "align_bytes d =
     (if dec_offset d \<noteq> 0
      then if dec_it d = length (dec_buffer d) then Inl Assertion_Failed
           else Inr (d\<lparr>dec_it := dec_it d + 1, dec_offset := 0\<rparr>)
      else Inr d)"

definition unpack_aligned_bytes :: "nat \<Rightarrow> bit_decoder \<Rightarrow> (byte list \<times> bit_decoder) result" where
  "unpack_aligned_bytes n_bytes d =
     rbind (align_bytes d) (\<lambda>d'.
     Inr (if n_bytes = 0 \<or> n_bytes > length (dec_buffer d') - dec_it d' then ([], d')
          else (take n_bytes (drop (dec_it d') (dec_buffer d')), d'\<lparr>dec_it := dec_it d' + n_bytes\<rparr>)))"

subsection \<open>Bits, most significant first\<close>

definition word_bits :: "nat \<Rightarrow> 'a::len word \<Rightarrow> bool list" where
  "word_bits n w = map (\<lambda>i. bit w (n - 1 - i)) [0..<n]"

definition bits_of_bytes :: "byte list \<Rightarrow> bool list" where
  "bits_of_bytes bs = concat (map (word_bits 8) bs)"

definition bits_num :: "bool list \<Rightarrow> 'a::len word" where
  "bits_num bs = foldl (\<lambda>v b. 2 * v + of_bool b) 0 bs"

lemma length_word_bits [simp]: "length (word_bits n w) = n"
  by (simp add: word_bits_def)

lemma nth_word_bits [simp]: "i < n \<Longrightarrow> word_bits n w ! i = bit w (n - 1 - i)"
  by (simp add: word_bits_def)

lemma word_bits_0 [simp]: "word_bits 0 w = []"
  by (simp add: word_bits_def)

lemma word_bits_drop: "drop m (word_bits n w) = word_bits (n - m) w"
  by (rule nth_equalityI) (auto simp: diff_diff_eq add.commute)

lemma word_bits_take: "m \<le> n \<Longrightarrow> take m (word_bits n w) = word_bits m (drop_bit (n - m) w)"
  by (rule nth_equalityI) (auto simp: bit_simps)

lemma word_bits_split: "m \<le> n \<Longrightarrow> word_bits n w = word_bits m (drop_bit (n - m) w) @ word_bits (n - m) w"
  using append_take_drop_id [of m "word_bits n w"] by (simp add: word_bits_take word_bits_drop)

lemma word_bits_Suc: "word_bits (Suc n) w = word_bits n (drop_bit 1 w) @ [bit w 0]"
  using word_bits_split [of n "Suc n" w] by (simp add: word_bits_def)

lemma word_bits_mask [simp]: "word_bits n (w AND mask n) = word_bits n w"
  by (rule nth_equalityI) (auto simp: bit_simps dest: bit_imp_le_length)

lemma bits_num_append: "bits_num (xs @ ys) = (bits_num xs * 2 ^ length ys + bits_num ys :: 'a::len word)"
proof (induction ys rule: rev_induct)
  case Nil
  then show ?case by (simp add: bits_num_def)
next
  case (snoc y ys)
  have "bits_num (xs @ ys @ [y]) = (2 * bits_num (xs @ ys) + of_bool y :: 'a word)"
    by (simp add: bits_num_def)
  moreover have "bits_num (ys @ [y]) = (2 * bits_num ys + of_bool y :: 'a word)"
    by (simp add: bits_num_def)
  ultimately show ?case
    using snoc.IH by (simp add: algebra_simps)
qed

lemma bits_num_word_bits: "bits_num (word_bits n w) = (ucast (take_bit n w) :: 'b::len word)" for w :: "'a::len word"
proof (induction n arbitrary: w)
  case 0
  then show ?case by (simp add: bits_num_def)
next
  case (Suc n)
  have "bits_num (word_bits (Suc n) w) = (2 * bits_num (word_bits n (drop_bit 1 w)) + of_bool (bit w 0) :: 'b word)"
    by (simp add: word_bits_Suc bits_num_append) (simp add: bits_num_def)
  also have "\<dots> = 2 * ucast (take_bit n (drop_bit 1 w)) + of_bool (bit w 0)"
    by (simp only: Suc.IH)
  also have "\<dots> = 2 * ucast (take_bit n (drop_bit 1 w)) OR of_bool (bit w 0)"
    by (rule disjunctive_add_eq_or) (rule bit_word_eqI, auto simp: bit_simps)
  also have "\<dots> = ucast (take_bit (Suc n) w)"
    by (rule bit_word_eqI) (auto simp: bit_simps not_less_eq less_Suc_eq_0_disj gr0_conv_Suc)
  finally show ?case .
qed

lemma length_bits_of_bytes [simp]: "length (bits_of_bytes bs) = 8 * length bs"
  by (induction bs) (simp_all add: bits_of_bytes_def)

lemma bits_of_bytes_append [simp]: "bits_of_bytes (xs @ ys) = bits_of_bytes xs @ bits_of_bytes ys"
  by (simp add: bits_of_bytes_def)

lemma bits_of_bytes_single [simp]: "bits_of_bytes [b] = word_bits 8 b" "bits_of_bytes [] = []"
  by (simp_all add: bits_of_bytes_def)

subsection \<open>Packing appends bits\<close>

definition enc_repr :: "bit_encoder \<Rightarrow> bool list \<Rightarrow> bool" where
  "enc_repr e bits \<longleftrightarrow>
     enc_offset e < 8 \<and> length bits mod 8 = enc_offset e \<and>
     bits_of_bytes (enc_bytes e) = bits @ replicate ((8 - enc_offset e) mod 8) False"

lemma add_to_back_bits:
  assumes "bits_of_bytes bytes = bits @ replicate k False" "0 < k" "k \<le> 8" "\<And>i. bit b i \<Longrightarrow> i < k"
  shows "bits_of_bytes (add_to_back b bytes) = bits @ word_bits k b"
proof -
  have "bytes \<noteq> []"
    using assms(1,2) by auto
  then obtain pre x where bytes: "bytes = pre @ [x]"
    by (metis append_butlast_last_id)
  have len: "length bits = 8 * length pre + 8 - k"
    using arg_cong [OF assms(1), of length] assms(2) by (simp add: bytes)
  have x: "word_bits 8 x = drop (8 * length pre) (bits @ replicate k False)"
    using arg_cong [OF assms(1), of "drop (8 * length pre)"] by (simp add: bytes)
  have pre: "bits_of_bytes pre = take (8 * length pre) bits"
    using arg_cong [OF assms(1), of "take (8 * length pre)"] len assms(3) by (simp add: bytes)
  have low: "\<not> bit x i" if "i < k" for i
  proof -
    have "word_bits 8 x ! (7 - i) = (bits @ replicate k False) ! (8 * length pre + (7 - i))"
      unfolding x using that len assms(3) by (intro nth_drop) simp
    also have "\<dots> = False"
    proof -
      have "\<not> 8 * length pre + (7 - i) < length bits" "8 * length pre + (7 - i) - length bits < k"
        using that len assms(3) by linarith+
      then show ?thesis by (simp add: nth_append)
    qed
    finally show ?thesis
      using that assms(3) by simp
  qed
  have sum: "x + b = x OR b"
    by (rule disjunctive_add_eq_or) (rule bit_word_eqI, use low assms(4) in \<open>auto simp: bit_simps\<close>)
  have "word_bits 8 (x + b) = take (8 - k) (word_bits 8 x) @ word_bits k b"
    unfolding sum
    by (rule nth_equalityI) (use low assms(3) in \<open>auto simp: nth_append bit_simps dest!: assms(4)\<close>)
  also have "take (8 - k) (word_bits 8 x) = drop (8 * length pre) bits"
    unfolding x using len assms(3) by simp
  finally show ?thesis
    by (simp add: add_to_back_def bytes pre)
qed

lemma pack_loop_spec:
  "enc_repr e bits \<Longrightarrow> n \<le> 64 \<Longrightarrow> enc_repr (pack_loop v n e) (bits @ word_bits n v)"
proof (induction v n e arbitrary: bits rule: pack_loop.induct)
  case (1 v n e)
  define off where "off = enc_offset e"
  define k where "k = 8 - off"
  define bytes where "bytes = (if off = 0 then enc_bytes e @ [0] else enc_bytes e)"
  define v' where "v' = (if n < 64 then v AND mask n else v)"
  have off: "off < 8" "length bits mod 8 = off" and k: "0 < k" "k \<le> 8"
    using "1.prems"(1) by (auto simp: enc_repr_def off_def k_def)
  have zero: "word_bits 8 (0 :: byte) = replicate 8 False"
    by (rule nth_equalityI) auto
  have room: "bits_of_bytes bytes = bits @ replicate k False"
    using "1.prems"(1) off by (auto simp: enc_repr_def bytes_def off_def k_def zero)
  have v': "bit v' i \<longleftrightarrow> bit v i \<and> i < n" for i
    using "1.prems"(2) bit_imp_le_length [of v i] by (auto simp: v'_def bit_simps)
  show ?case
  proof (cases "n = 0")
    case True
    then show ?thesis using "1.prems" by (subst pack_loop.simps) simp
  next
    case False
    show ?thesis
    proof (cases "k > n")
      case True
      define b where "b = (ucast (push_bit (k - n) v') :: byte)"
      have "bits_of_bytes (add_to_back b bytes) = bits @ word_bits k b"
        by (rule add_to_back_bits [OF room k]) (use True in \<open>auto simp: b_def bit_simps v'\<close>)
      moreover have "word_bits k b = word_bits n v @ replicate (k - n) False"
        by (rule nth_equalityI) (use True k in \<open>auto simp: b_def bit_simps v' nth_append\<close>)
      moreover have "pack_loop v n e = \<lparr>enc_bytes = add_to_back b bytes, enc_offset = off + n\<rparr>"
        using False True by (subst pack_loop.simps) (simp add: Let_def b_def v'_def off_def k_def bytes_def)
      ultimately show ?thesis
        using True False off mod_add_left_eq [of "length bits" 8 n] by (simp add: enc_repr_def k_def)
    next
      case le: False
      define b where "b = (ucast (drop_bit (n - k) v') :: byte)"
      define e' where "e' = \<lparr>enc_bytes = add_to_back b bytes, enc_offset = 0\<rparr>"
      have "bits_of_bytes (add_to_back b bytes) = bits @ word_bits k b"
        by (rule add_to_back_bits [OF room k]) (use le in \<open>auto simp: b_def bit_simps v'\<close>)
      moreover have "word_bits k b = word_bits k (drop_bit (n - k) v)"
        by (rule nth_equalityI) (use le k in \<open>auto simp: b_def bit_simps v'\<close>)
      moreover have "(length bits + k) mod 8 = 0"
        using off mod_add_left_eq [of "length bits" 8 k] by (simp add: k_def)
      ultimately have "enc_repr e' (bits @ word_bits k (drop_bit (n - k) v))"
        by (simp add: enc_repr_def e'_def)
      note IH = "1.IH" [OF _ off_def bytes_def v'_def, folded k_def, folded b_def e'_def, OF _ _ this]
      have "enc_repr (pack_loop v' (n - k) e') ((bits @ word_bits k (drop_bit (n - k) v)) @ word_bits (n - k) v')"
        using IH False le "1.prems"(2) by simp
      moreover have "word_bits (n - k) v' = word_bits (n - k) v"
        by (rule nth_equalityI) (auto simp: v')
      moreover have "pack_loop v n e = pack_loop v' (n - k) e'"
        using False le by (subst pack_loop.simps) (simp add: Let_def e'_def b_def v'_def off_def k_def bytes_def)
      ultimately show ?thesis
        using word_bits_split [of k n v] le by simp
    qed
  qed
qed

subsection \<open>Unpacking takes bits off\<close>

definition dec_inv :: "bit_decoder \<Rightarrow> bool" where
  "dec_inv d \<longleftrightarrow> dec_it d \<le> length (dec_buffer d) \<and> dec_offset d < 8 \<and>
     (dec_offset d \<noteq> 0 \<longrightarrow> dec_it d < length (dec_buffer d))"

definition dec_bits :: "bit_decoder \<Rightarrow> bool list" where
  "dec_bits d = drop (dec_nof_bits d) (bits_of_bytes (dec_buffer d))"

lemma drop_bits_of_bytes: "drop (8 * i) (bits_of_bytes bs) = bits_of_bytes (drop i bs)"
proof (induction i arbitrary: bs)
  case (Suc i)
  then show ?case by (cases bs) (simp_all add: bits_of_bytes_def)
qed simp

lemma dec_bits_byte:
  assumes "dec_it d < length (dec_buffer d)" "dec_offset d < 8"
  shows "dec_bits d = word_bits (8 - dec_offset d) (dec_buffer d ! dec_it d) @
    dec_bits (d\<lparr>dec_offset := 0, dec_it := dec_it d + 1\<rparr>)"
proof -
  have "dec_bits d = drop (dec_offset d) (bits_of_bytes (drop (dec_it d) (dec_buffer d)))"
    by (simp add: dec_bits_def dec_nof_bits_def flip: drop_bits_of_bytes drop_drop)
  also have "drop (dec_it d) (dec_buffer d) = [dec_buffer d ! dec_it d] @ drop (dec_it d + 1) (dec_buffer d)"
    using assms(1) by (simp add: Cons_nth_drop_Suc)
  also have "drop (dec_offset d) (bits_of_bytes \<dots>) =
      word_bits (8 - dec_offset d) (dec_buffer d ! dec_it d) @ bits_of_bytes (drop (dec_it d + 1) (dec_buffer d))"
    using assms(2) unfolding bits_of_bytes_append by (simp add: word_bits_drop)
  also have "bits_of_bytes (drop (dec_it d + 1) (dec_buffer d)) = dec_bits (d\<lparr>dec_offset := 0, dec_it := dec_it d + 1\<rparr>)"
    unfolding dec_bits_def dec_nof_bits_def drop_bits_of_bytes [symmetric] by simp
  finally show ?thesis .
qed

lemma dec_bits_end: "dec_inv d \<Longrightarrow> dec_it d = length (dec_buffer d) \<Longrightarrow> dec_bits d = []"
  by (auto simp: dec_inv_def dec_bits_def dec_nof_bits_def)

lemma field_mask:
  assumes "n \<le> k"
  shows "push_bit k 1 - push_bit (k - n) 1 = (push_bit (k - n) (mask n) :: 'a::len word)"
  using assms by (simp add: push_bit_eq_mult mask_eq_exp_minus_1 left_diff_distrib flip: power_add)

lemma unpack_bits_loop_spec:
  fixes v :: "'a::len word"
  assumes "dec_inv d"
  shows "case unpack_bits_loop v n d of (ok, v', d') \<Rightarrow>
    dec_inv d' \<and> dec_buffer d' = dec_buffer d \<and> (ok \<longleftrightarrow> n \<le> length (dec_bits d)) \<and>
    (ok \<longrightarrow> v' = v + bits_num (take n (dec_bits d)) \<and> dec_bits d' = drop n (dec_bits d))"
  using assms
proof (induction v n d rule: unpack_bits_loop.induct)
  case (1 v n d)
  define k where "k = 8 - dec_offset d"
  define b where "b = dec_buffer d ! dec_it d"
  have k: "0 < k" "k \<le> 8"
    using "1.prems" by (auto simp: dec_inv_def k_def)
  consider (zero) "n = 0" | (eob) "0 < n" "dec_it d = length (dec_buffer d)"
    | (last) "0 < n" "dec_it d < length (dec_buffer d)" "n < k"
    | (more) "0 < n" "dec_it d < length (dec_buffer d)" "k \<le> n"
    using "1.prems" by (fastforce simp: dec_inv_def)
  then show ?case
  proof cases
    case zero
    then show ?thesis using "1.prems" by (subst unpack_bits_loop.simps) (simp add: bits_num_def)
  next
    case eob
    then show ?thesis using "1.prems" dec_bits_end [of d] by (subst unpack_bits_loop.simps) simp
  next
    case last
    have bits: "dec_bits d = word_bits k b @ dec_bits (d\<lparr>dec_offset := 0, dec_it := dec_it d + 1\<rparr>)"
      using dec_bits_byte [of d] last "1.prems" by (simp add: k_def b_def dec_inv_def)
    have "take n (dec_bits d) = word_bits n (drop_bit (k - n) b)"
      using last by (simp add: bits word_bits_take)
    moreover have "drop_bit (k - n) (b AND push_bit (k - n) (mask n)) = take_bit n (drop_bit (k - n) b)"
      by (rule bit_word_eqI) (auto simp: bit_simps dest: bit_imp_le_length)
    moreover have "dec_bits (d\<lparr>dec_offset := dec_offset d + n\<rparr>) = drop n (dec_bits d)"
      by (simp add: dec_bits_def dec_nof_bits_def ac_simps)
    moreover have "unpack_bits_loop v n d = (True, v + ucast (drop_bit (k - n) (b AND push_bit (k - n) (mask n))),
        d\<lparr>dec_offset := dec_offset d + n\<rparr>)"
      using last field_mask [of n k, where 'a = 8] by (subst unpack_bits_loop.simps) (simp add: Let_def k_def b_def)
    ultimately show ?thesis
      using last "1.prems" by (simp add: bits_num_word_bits bits) (auto simp: dec_inv_def k_def)
  next
    case more
    define d' where "d' = d\<lparr>dec_offset := 0, dec_it := dec_it d + 1\<rparr>"
    define v' where "v' = v + push_bit (n - k) (ucast (b AND mask k))"
    have bits: "dec_bits d = word_bits k b @ dec_bits d'"
      using dec_bits_byte [of d] more "1.prems" by (simp add: k_def b_def dec_inv_def d'_def)
    have step: "unpack_bits_loop v n d = unpack_bits_loop v' (n - k) d'"
      using more by (subst unpack_bits_loop.simps) (simp add: Let_def k_def b_def v'_def d'_def mask_eq_exp_minus_1 push_bit_eq_mult)
    have "dec_inv d'"
      using more "1.prems" by (auto simp: dec_inv_def d'_def)
    then have IH: "case unpack_bits_loop v' (n - k) d' of (ok, v'', d'') \<Rightarrow>
        dec_inv d'' \<and> dec_buffer d'' = dec_buffer d' \<and> (ok \<longleftrightarrow> n - k \<le> length (dec_bits d')) \<and>
        (ok \<longrightarrow> v'' = v' + bits_num (take (n - k) (dec_bits d')) \<and> dec_bits d'' = drop (n - k) (dec_bits d'))"
      using "1.IH" [OF more(1) refl _ _ refl refl] more
      by (simp add: k_def b_def v'_def d'_def mask_eq_exp_minus_1 push_bit_eq_mult)
    have "dec_buffer d' = dec_buffer d" "n - k \<le> length (dec_bits d') \<longleftrightarrow> n \<le> length (dec_bits d)"
      "drop n (dec_bits d) = drop (n - k) (dec_bits d')"
      using more by (auto simp: bits) (simp_all add: d'_def)
    moreover have "v' + bits_num (take (n - k) (dec_bits d')) = v + bits_num (take n (dec_bits d))"
      if "n - k \<le> length (dec_bits d')"
      using more that by (simp add: bits v'_def bits_num_append bits_num_word_bits push_bit_eq_mult take_bit_eq_mask)
    ultimately show ?thesis
      unfolding step using IH by (auto split: prod.splits)
  qed
qed

lemma pack_repr: "enc_repr e bits \<Longrightarrow> n \<le> 64 \<Longrightarrow> succeeds (pack v n e) (\<lambda>e'. enc_repr e' (bits @ word_bits n v))"
  by (simp add: pack_def pack_loop_spec)

lemma pack_each_repr: "enc_repr e bits \<Longrightarrow> succeeds (pack_each bs e) (\<lambda>e'. enc_repr e' (bits @ bits_of_bytes bs))"
proof (induction bs arbitrary: e bits)
  case (Cons b bs)
  have "word_bits 8 (ucast b :: u64) = word_bits 8 b"
    by (rule nth_equalityI) (auto simp: bit_simps)
  with pack_repr [OF Cons.prems, of 8 "ucast b"]
  have "succeeds (pack (ucast b) 8 e) (\<lambda>e'. enc_repr e' (bits @ word_bits 8 b))"
    by simp
  then show ?case
    unfolding pack_each.simps succeeds_simps
    by (rule succeeds_mono) (drule Cons.IH, simp add: bits_of_bytes_def)
qed simp

lemma enc_pack_bytes_repr:
  assumes "enc_repr e bits"
  shows "succeeds (enc_pack_bytes bs e) (\<lambda>e'. enc_repr e' (bits @ bits_of_bytes bs))"
  using assms pack_each_repr [OF assms, of bs] by (auto simp: enc_pack_bytes_def enc_repr_def)

lemma enc_repr_new: "enc_repr enc_new []"
  by (simp add: enc_repr_def enc_new_def)

lemma dec_new_inv [simp]: "dec_inv (dec_new bs)" "dec_bits (dec_new bs) = bits_of_bytes bs"
  by (simp_all add: dec_inv_def dec_new_def dec_bits_def dec_nof_bits_def)

lemma unpack_spec:
  assumes "dec_inv d" "n \<le> LENGTH('a)"
  shows "succeeds (unpack n d) (\<lambda>(ok, v :: 'a::len word, d').
    dec_inv d' \<and> dec_buffer d' = dec_buffer d \<and> (ok \<longleftrightarrow> n \<le> length (dec_bits d)) \<and>
    (ok \<longrightarrow> v = bits_num (take n (dec_bits d)) \<and> dec_bits d' = drop n (dec_bits d)))"
  using unpack_bits_loop_spec [OF assms(1), where v = 0 and n = n] assms(2) by (simp add: unpack_def split_beta)

lemma length_dec_bits: "length (dec_bits d) = 8 * length (dec_buffer d) - dec_nof_bits d"
  by (simp add: dec_bits_def)

lemma advance_bits_spec:
  assumes "dec_inv d"
  shows "fst (advance_bits n d) \<longleftrightarrow> n \<le> length (dec_bits d)"
    "fst (advance_bits n d) \<Longrightarrow> dec_inv (snd (advance_bits n d)) \<and> dec_bits (snd (advance_bits n d)) = drop n (dec_bits d)"
proof -
  let ?a = "dec_offset d + n" and ?m = "length (dec_buffer d) - dec_it d"
  have d: "dec_it d \<le> length (dec_buffer d)" "dec_offset d < 8" "dec_offset d \<noteq> 0 \<Longrightarrow> dec_it d < length (dec_buffer d)"
    using assms by (auto simp: dec_inv_def)
  have ceil: "(?a + 7) div 8 \<le> ?m \<longleftrightarrow> ?a \<le> 8 * ?m"
    by linarith
  have len: "?a \<le> 8 * ?m \<longleftrightarrow> n \<le> length (dec_bits d)"
    using d by (cases "dec_offset d = 0") (auto simp: length_dec_bits dec_nof_bits_def)
  have adv: "advance_bits n d = (if ?a \<le> 8 * ?m
      then (True, d\<lparr>dec_it := dec_it d + ?a div 8, dec_offset := ?a mod 8\<rparr>) else (False, d))"
    using ceil by (auto simp: advance_bits_def Let_def not_less)
  then show "fst (advance_bits n d) \<longleftrightarrow> n \<le> length (dec_bits d)"
    using len by simp
  assume "fst (advance_bits n d)"
  then have le: "?a \<le> 8 * ?m"
    by (simp add: adv split: if_splits)
  have eq: "8 * (?a div 8) + ?a mod 8 = ?a"
    by simp
  have "dec_it d + ?a div 8 \<le> length (dec_buffer d)" "?a mod 8 \<noteq> 0 \<Longrightarrow> dec_it d + ?a div 8 < length (dec_buffer d)"
    using le eq d(1) by linarith+
  then have "dec_inv (snd (advance_bits n d))"
    using le by (simp add: adv dec_inv_def)
  moreover have "dec_nof_bits (snd (advance_bits n d)) = dec_nof_bits d + n"
    unfolding adv using le eq by (simp add: dec_nof_bits_def)
  ultimately show "dec_inv (snd (advance_bits n d)) \<and> dec_bits (snd (advance_bits n d)) = drop n (dec_bits d)"
    by (simp add: dec_bits_def adv add.commute)
qed

lemma bit_bits_num:
  "bit (bits_num bs :: 'a::len word) i \<longleftrightarrow> i < length bs \<and> i < LENGTH('a) \<and> bs ! (length bs - 1 - i)"
proof (induction bs arbitrary: i rule: rev_induct)
  case Nil
  then show ?case by (simp add: bits_num_def)
next
  case (snoc b bs)
  have "(bits_num (bs @ [b]) :: 'a word) = 2 * bits_num bs + of_bool b"
    by (simp add: bits_num_def)
  also have "\<dots> = 2 * bits_num bs OR of_bool b"
    by (rule disjunctive_add_eq_or) (rule bit_word_eqI, auto simp: bit_simps)
  finally show ?case
    by (cases i) (auto simp: bit_simps snoc.IH nth_append dest: bit_imp_le_length)
qed

lemma word_bits_bits_num: "length bs \<le> LENGTH('a) \<Longrightarrow> word_bits (length bs) (bits_num bs :: 'a::len word) = bs"
  by (rule nth_equalityI) (auto simp: bit_bits_num)

lemma unpack_each_spec:
  assumes "dec_inv d"
  shows "succeeds (unpack_each n d) (\<lambda>(ok, bs, d'). dec_inv d' \<and> (ok \<longleftrightarrow> 8 * n \<le> length (dec_bits d)) \<and>
    (ok \<longrightarrow> bits_of_bytes bs = take (8 * n) (dec_bits d) \<and> dec_bits d' = drop (8 * n) (dec_bits d)))"
  using assms
proof (induction n arbitrary: d)
  case (Suc n)
  have "succeeds (unpack 8 d) (\<lambda>(ok, v :: byte, d'). dec_inv d' \<and> (ok \<longleftrightarrow> 8 \<le> length (dec_bits d)) \<and>
      (ok \<longrightarrow> v = bits_num (take 8 (dec_bits d)) \<and> dec_bits d' = drop 8 (dec_bits d)))"
    by (rule succeeds_mono [OF unpack_spec [OF Suc.prems]]) auto
  then show ?case
    unfolding unpack_each.simps succeeds_simps succeeds_prod
  proof (rule succeeds_mono)
    fix a :: "bool \<times> byte \<times> bit_decoder"
    obtain ok v d' where a: "a = (ok, v, d')" by (cases a)
    assume "case a of (ok, v, d') \<Rightarrow> dec_inv d' \<and> (ok \<longleftrightarrow> 8 \<le> length (dec_bits d)) \<and>
      (ok \<longrightarrow> v = bits_num (take 8 (dec_bits d)) \<and> dec_bits d' = drop 8 (dec_bits d))"
    then have d': "dec_inv d'" "ok \<longleftrightarrow> 8 \<le> length (dec_bits d)"
      "ok \<Longrightarrow> word_bits 8 v = take 8 (dec_bits d)" "ok \<Longrightarrow> dec_bits d' = drop 8 (dec_bits d)"
      using word_bits_bits_num [of "take 8 (dec_bits d)", where 'a = 8] by (auto simp: a)
    have t: "take (8 * Suc n) xs = take 8 xs @ take (8 * n) (drop 8 xs)" "drop (8 * Suc n) xs = drop (8 * n) (drop 8 xs)" for xs :: "bool list"
      by (simp_all add: take_add flip: add.commute)
    show "case a of (ok, b, d') \<Rightarrow> succeeds (if \<not> ok then Inr (False, [b], d')
        else rbind (unpack_each n d') (\<lambda>(ok', bs, d''). Inr (ok', b # bs, d'')))
        (\<lambda>(ok, bs, d'). dec_inv d' \<and> (ok \<longleftrightarrow> 8 * Suc n \<le> length (dec_bits d)) \<and>
          (ok \<longrightarrow> bits_of_bytes bs = take (8 * Suc n) (dec_bits d) \<and> dec_bits d' = drop (8 * Suc n) (dec_bits d)))"
      using d' Suc.IH [OF d'(1)] unfolding a t
      by (cases ok) (auto elim!: succeeds_mono simp: bits_of_bytes_def)
  qed
qed simp

lemma unpack_bytes_spec:
  assumes "dec_inv d"
  shows "succeeds (unpack_bytes n d) (\<lambda>(ok, bs, d'). dec_inv d' \<and> (ok \<longleftrightarrow> 8 * n \<le> length (dec_bits d)) \<and>
    (ok \<longrightarrow> bits_of_bytes bs = take (8 * n) (dec_bits d) \<and> dec_bits d' = drop (8 * n) (dec_bits d)))"
proof -
  have "8 * n \<le> length (dec_bits d) \<longleftrightarrow> n \<le> length (dec_buffer d) - dec_it d" if "dec_offset d = 0"
    using that assms by (auto simp: length_dec_bits dec_nof_bits_def dec_inv_def)
  moreover have "n \<le> length (dec_buffer d) - dec_it d" if "8 * n \<le> length (dec_bits d)"
    using that assms by (auto simp: length_dec_bits dec_nof_bits_def dec_inv_def)
  moreover have "bits_of_bytes (take n (drop (dec_it d) (dec_buffer d))) = take (8 * n) (dec_bits d)"
    "dec_bits (d\<lparr>dec_it := dec_it d + n\<rparr>) = drop (8 * n) (dec_bits d)" if "dec_offset d = 0"
  proof -
    have "bits_of_bytes (take n xs) = take (8 * n) (bits_of_bytes xs)" for xs :: "byte list"
      using bits_of_bytes_append [of "take n xs" "drop n xs"] drop_bits_of_bytes [of n xs]
      by (metis append_take_drop_id same_append_eq append_same_eq)
    then show "bits_of_bytes (take n (drop (dec_it d) (dec_buffer d))) = take (8 * n) (dec_bits d)"
      "dec_bits (d\<lparr>dec_it := dec_it d + n\<rparr>) = drop (8 * n) (dec_bits d)"
      using that by (simp_all add: dec_bits_def dec_nof_bits_def add.commute add_mult_distrib2 flip: drop_bits_of_bytes)
  qed
  ultimately show ?thesis
    using assms unpack_each_spec [OF assms, of n]
    by (auto simp: unpack_bytes_def dec_inv_def bits_of_bytes_def [of "[]"])
qed

subsection \<open>Fields\<close>

fun put_fields :: "(u64 \<Rightarrow> nat \<Rightarrow> 'e \<Rightarrow> 'e result) \<Rightarrow> (nat \<times> u64) list \<Rightarrow> 'e \<Rightarrow> 'e result" where
  "put_fields put [] e = Inr e"
| "put_fields put ((n, v) # fs) e = rbind (put v n e) (put_fields put fs)"

fun get_fields :: "(nat \<Rightarrow> 'd \<Rightarrow> (bool \<times> u64 \<times> 'd) result) \<Rightarrow> nat list \<Rightarrow> 'd \<Rightarrow> (bool \<times> u64 list \<times> 'd) result" where
  "get_fields get [] d = Inr (True, [], d)"
| "get_fields get (n # ns) d =
     rbind (get n d) (\<lambda>(ok, v, d'). if \<not> ok then Inr (False, [], d')
       else rbind (get_fields get ns d') (\<lambda>(ok', vs, d''). Inr (ok', v # vs, d'')))"


text \<open>
  What a codec of header fields relies on: fields are appended and taken off as lists of bits.
\<close>

locale bit_codec =
  fixes put :: "u64 \<Rightarrow> nat \<Rightarrow> 'e \<Rightarrow> 'e result"
    and get :: "nat \<Rightarrow> 'd \<Rightarrow> (bool \<times> u64 \<times> 'd) result"
    and repr :: "'e \<Rightarrow> bool list \<Rightarrow> bool"
    and content :: "'d \<Rightarrow> bool list \<Rightarrow> bool"
  assumes put_repr: "repr e bits \<Longrightarrow> n \<le> 64 \<Longrightarrow> succeeds (put v n e) (\<lambda>e'. repr e' (bits @ word_bits n v))"
    and get_content: "content d bits \<Longrightarrow> n \<le> 64 \<Longrightarrow>
      succeeds (get n d) (\<lambda>(ok, v, d'). (ok \<longleftrightarrow> n \<le> length bits) \<and> (ok \<longrightarrow> v = bits_num (take n bits) \<and> content d' (drop n bits)))"
begin

lemma put_fields_repr:
  "repr e bits \<Longrightarrow> \<forall>(n, v)\<in>set fs. n \<le> 64 \<Longrightarrow>
     succeeds (put_fields put fs e) (\<lambda>e'. repr e' (bits @ concat (map (\<lambda>(n, v). word_bits n v) fs)))"
proof (induction fs arbitrary: e bits)
  case (Cons f fs)
  obtain n v where f: "f = (n, v)" by (cases f)
  with Cons.prems have n: "n \<le> 64" "\<forall>(n, v)\<in>set fs. n \<le> 64" by auto
  show ?case
    unfolding f put_fields.simps succeeds_simps
    by (rule succeeds_mono [OF put_repr [OF Cons.prems(1) n(1)]]) (use Cons.IH n(2) in fastforce)
qed simp

lemma get_fields_content:
  "content d (concat (map (\<lambda>(n, v). word_bits n v) fs) @ rest) \<Longrightarrow> \<forall>(n, v)\<in>set fs. n \<le> 64 \<Longrightarrow>
     succeeds (get_fields get (map fst fs) d) (\<lambda>(ok, vs, d'). ok \<and> vs = map (\<lambda>(n, v). take_bit n v) fs \<and> content d' rest)"
proof (induction fs arbitrary: d)
  case (Cons f fs)
  obtain n v where f: "f = (n, v)" by (cases f)
  with Cons.prems have n: "n \<le> 64" "\<forall>(n, v)\<in>set fs. n \<le> 64" by auto
  have c: "content d (word_bits n v @ concat (map (\<lambda>(n, v). word_bits n v) fs) @ rest)"
    using Cons.prems(1) by (simp add: f)
  have "(bits_num (word_bits n v) :: u64) = take_bit n v"
    by (simp add: bits_num_word_bits)
  then show ?case
    unfolding f list.map fst_conv get_fields.simps succeeds_simps succeeds_prod
    by (intro succeeds_mono [OF get_content [OF c n(1)]])
      (use Cons.IH n(2) in \<open>fastforce elim!: succeeds_mono\<close>)
qed simp

end

interpretation bits: bit_codec pack unpack enc_repr "\<lambda>d bs. dec_inv d \<and> dec_bits d = bs"
proof
  show "succeeds (pack v n e) (\<lambda>e'. enc_repr e' (bits @ word_bits n v))" if "enc_repr e bits" "n \<le> 64" for e bits n v
    using that by (rule pack_repr)
  show "succeeds (unpack n d) (\<lambda>(ok, v :: u64, d'). (ok \<longleftrightarrow> n \<le> length bs) \<and>
      (ok \<longrightarrow> v = bits_num (take n bs) \<and> dec_inv d' \<and> dec_bits d' = drop n bs))"
    if "dec_inv d \<and> dec_bits d = bs" "n \<le> 64" for d bs n
    using unpack_spec [of d n, where 'a = 64] that by (auto elim!: succeeds_mono)
qed

subsection \<open>Properties\<close>

text \<open>C20. Fields of at most 64 bits written one after the other with the bit encoder are read back by the
  bit decoder: the bytes of the buffer, given to a decoder, yield for the same widths exactly the low
  bits of the values, in order, and no field fails.\<close>

theorem bit_fields_roundtrip:
  assumes "\<forall>(n, v)\<in>set fs. n \<le> 64"
  shows "\<exists>e d. put_fields pack fs enc_new = Inr e \<and>
    get_fields unpack (map fst fs) (dec_new (enc_bytes e)) = Inr (True, map (\<lambda>(n, v). take_bit n v) fs, d)"
proof -
  let ?bits = "concat (map (\<lambda>(n, v). word_bits n v) fs)"
  obtain e where e: "put_fields pack fs enc_new = Inr e" "enc_repr e ?bits"
    using succeedsD [OF bits.put_fields_repr [OF enc_repr_new assms]] by auto
  define pad where "pad = replicate ((8 - enc_offset e) mod 8) False"
  have "dec_inv (dec_new (enc_bytes e)) \<and> dec_bits (dec_new (enc_bytes e)) = ?bits @ pad"
    using e(2) by (simp add: enc_repr_def pad_def)
  from succeedsD [OF bits.get_fields_content [OF this assms]] e(1) show ?thesis
    by auto
qed

theorem bit_fields_roundtrip_witness:
  "\<exists>e d. put_fields pack [(1, 1), (3, 0), (12, 0xABC)] enc_new = Inr e \<and>
    get_fields unpack [1, 3, 12] (dec_new (enc_bytes e)) = Inr (True, [1, 0, 0xABC], d)"
  using bit_fields_roundtrip [of "[(1, 1), (3, 0), (12, 0xABC)]"] by (simp add: take_bit_eq_mod)

text \<open>Every operation of the bit decoder refines one on lists of bits: advancing drops bits, reading
  whole bytes at any bit offset takes eight bits per byte, and each fails exactly if too few are left.\<close>

theorem bit_decoder_refines:
  assumes "dec_inv d"
  shows "(fst (advance_bits n d) \<longleftrightarrow> n \<le> length (dec_bits d)) \<and>
    (fst (advance_bits n d) \<longrightarrow> dec_bits (snd (advance_bits n d)) = drop n (dec_bits d)) \<and>
    succeeds (unpack_bytes m d) (\<lambda>(ok, bs, d'). (ok \<longleftrightarrow> 8 * m \<le> length (dec_bits d)) \<and>
      (ok \<longrightarrow> bits_of_bytes bs = take (8 * m) (dec_bits d) \<and> dec_bits d' = drop (8 * m) (dec_bits d)))"
  using advance_bits_spec [OF assms, of n] unpack_bytes_spec [OF assms, of m] by (auto elim!: succeeds_mono)

theorem bit_decoder_refines_witness:
  "fst (advance_bits 4 (dec_new [1, 2])) \<and> \<not> fst (advance_bits 17 (dec_new [1, 2]))"
  using bit_decoder_refines [of "dec_new [1, 2]" 4] bit_decoder_refines [of "dec_new [1, 2]" 17] by simp

end
