(* ===== verification/Pdcp_Pdu.thy ===== *)
theory Pdcp_Pdu
  imports Bit_Encoding
begin

text \<open>
  PDCP PDU headers: the field types of \<^verbatim>\<open>lib/pdcp/pdcp_pdu.h\<close> and \<^verbatim>\<open>include/srsran/pdcp/pdcp_sn_size.h\<close>,
  the data header written by \<^verbatim>\<open>lib/pdcp/pdcp_entity_tx.cpp\<close> and read by \<^verbatim>\<open>lib/pdcp/pdcp_entity_rx.cpp\<close>,
  and the reader of the sequence number that RLC uses (\<^verbatim>\<open>include/srsran/pdcp/pdcp_sn_util.h\<close>). Reserving
  room in front of a buffer always succeeds.
\<close>

subsection \<open>Field types\<close>

datatype pdcp_sn_size = pdcp_size12bits | pdcp_size18bits | pdcp_size_invalid

definition pdcp_sn_size_from_uint :: "nat \<Rightarrow> pdcp_sn_size option" where
  "pdcp_sn_size_from_uint num =
     (if num = 12 then Some pdcp_size12bits else if num = 18 then Some pdcp_size18bits else None)"

fun pdcp_sn_size_to_uint :: "pdcp_sn_size \<Rightarrow> nat" where
  "pdcp_sn_size_to_uint pdcp_size12bits = 12"
| "pdcp_sn_size_to_uint pdcp_size18bits = 18"
| "pdcp_sn_size_to_uint pdcp_size_invalid = 19"

datatype pdcp_dc_field = dc_control | dc_data

definition pdcp_pdu_get_dc :: "byte \<Rightarrow> pdcp_dc_field" where
  "pdcp_pdu_get_dc first_byte = (if drop_bit 7 first_byte AND 0x01 = 0 then dc_control else dc_data)"

datatype pdcp_control_pdu_type = status_report | interspersed_rohc_feedback | ehc_feedback | cpt_reserved byte

definition pdcp_control_pdu_get_cpt :: "byte \<Rightarrow> pdcp_control_pdu_type" where
  "pdcp_control_pdu_get_cpt first_byte =
     (let x = drop_bit 4 first_byte AND 0x07
      in if x = 0 then status_report else if x = 1 then interspersed_rohc_feedback
         else if x = 2 then ehc_feedback else cpt_reserved x)"

subsection \<open>Data PDU headers\<close>

definition pdcp_hdr_len :: "pdcp_sn_size \<Rightarrow> nat" where
  "pdcp_hdr_len sz = (if sz = pdcp_size12bits then 2 else 3)"

definition pdcp_header_bytes :: "bool \<Rightarrow> pdcp_sn_size \<Rightarrow> u32 \<Rightarrow> byte list" where
  "pdcp_header_bytes is_srb sz sn =
     (let dc = (if is_srb then 0x00 else 0x80)
      in case sz of
           pdcp_size12bits \<Rightarrow> [dc OR ucast (drop_bit 8 (sn AND 0x00000f00)), ucast (sn AND 0x000000ff)]
         | pdcp_size18bits \<Rightarrow> [dc OR ucast (drop_bit 16 (sn AND 0x00030000)), ucast (drop_bit 8 (sn AND 0x0000ff00)),
                               ucast (sn AND 0x000000ff)]
         | pdcp_size_invalid \<Rightarrow> [dc, 0, 0])"

definition pdcp_write_data_pdu_header :: "bool \<Rightarrow> pdcp_sn_size \<Rightarrow> u32 \<Rightarrow> byte list \<Rightarrow> (bool \<times> byte list) result" where
  "pdcp_write_data_pdu_header is_srb sz sn buf =
     (if is_srb \<and> sz = pdcp_size18bits then Inl Assertion_Failed
      else Inr (sz \<noteq> pdcp_size_invalid, pdcp_header_bytes is_srb sz sn @ buf))"

definition pdcp_read_data_pdu_header :: "pdcp_sn_size \<Rightarrow> byte list \<Rightarrow> u32 option" where
  "pdcp_read_data_pdu_header sz buf =
     (if length buf \<le> pdcp_hdr_len sz then None
      else case sz of
             pdcp_size12bits \<Rightarrow> Some (push_bit 8 (ucast (buf ! 0 AND 0x0f)) OR ucast (buf ! 1))
           | pdcp_size18bits \<Rightarrow>
               Some (push_bit 16 (ucast (buf ! 0 AND 0x03)) OR push_bit 8 (ucast (buf ! 1)) OR ucast (buf ! 2))
           | pdcp_size_invalid \<Rightarrow> None)"

subsection \<open>The number as RLC reads it\<close>

definition pdcp_read_fields :: "nat \<Rightarrow> nat \<Rightarrow> bit_decoder \<Rightarrow> (bool \<times> byte \<times> u32) result" where
  "pdcp_read_fields reserved_bits sn_bits d =
     rbind (unpack reserved_bits d) (\<lambda>(ok1, reserved, d1).
     rbind (unpack sn_bits d1) (\<lambda>(ok2, sn, d2). Inr (ok1 \<and> ok2, reserved, sn)))"

definition get_pdcp_sn :: "byte list \<Rightarrow> pdcp_sn_size \<Rightarrow> bool \<Rightarrow> u32 option result" where
  "get_pdcp_sn pdu sn_len is_srb =
     (if pdu = [] then Inr None
      else if is_srb \<and> sn_len \<noteq> pdcp_size12bits then Inr None
      else rbind (unpack 1 (dec_new pdu)) (\<lambda>(read_ok, dc_field :: byte, d).
           if \<not> read_ok then Inr None
           else if \<not> is_srb \<and> dc_field = 0 then Inr None
           else if is_srb \<and> dc_field = 1 then Inr None
           else if sn_len = pdcp_size_invalid then Inr None
           else rbind (if sn_len = pdcp_size12bits then pdcp_read_fields 3 12 d else pdcp_read_fields 5 18 d)
                  (\<lambda>(ok, reserved, sn). Inr (if \<not> ok then None else if reserved \<noteq> 0 then None else Some sn))))"

subsection \<open>What is written is read\<close>

text \<open>The reader of RLC on the bits of the PDU.\<close>

lemma unpack_bits_eq:
  assumes "dec_inv d" "n \<le> LENGTH('a)" "n \<le> length (dec_bits d)"
  obtains d' where "unpack n d = Inr (True, bits_num (take n (dec_bits d)) :: 'a::len word, d')" "dec_inv d'"
    "dec_bits d' = drop n (dec_bits d)"
proof -
  obtain a where "unpack n d = Inr a" "case a of (ok, v :: 'a word, d') \<Rightarrow> dec_inv d' \<and> dec_buffer d' = dec_buffer d \<and>
      (ok \<longleftrightarrow> n \<le> length (dec_bits d)) \<and> (ok \<longrightarrow> v = bits_num (take n (dec_bits d)) \<and> dec_bits d' = drop n (dec_bits d))"
    using succeedsD [OF unpack_spec [OF assms(1,2)]] by blast
  then show thesis
    using assms(3) by (cases a) (auto intro: that)
qed

lemma get_pdcp_sn_bits:
  assumes "dec_inv d" "r + n \<le> length (dec_bits d)" "r \<le> 8" "n \<le> 32"
  shows "pdcp_read_fields r n d = Inr (True, bits_num (take r (dec_bits d)), bits_num (take n (drop r (dec_bits d))))"
proof -
  obtain d1 where d1: "unpack r d = Inr (True, bits_num (take r (dec_bits d)) :: byte, d1)" "dec_inv d1"
      "dec_bits d1 = drop r (dec_bits d)"
    using unpack_bits_eq [OF assms(1), of r, where 'a = 8] assms by auto
  obtain d2 where "unpack n d1 = Inr (True, bits_num (take n (dec_bits d1)) :: u32, d2)"
    by (rule unpack_bits_eq [OF d1(2), of n, where 'a = 32]) (use assms d1(3) in simp_all)
  with d1 show ?thesis
    by (simp add: pdcp_read_fields_def)
qed

lemma get_pdcp_sn_eq:
  assumes "sn_len \<noteq> pdcp_size_invalid" "\<not> (is_srb \<and> sn_len = pdcp_size18bits)" "pdcp_hdr_len sn_len \<le> length pdu"
    and r: "r = (if sn_len = pdcp_size12bits then 3 else 5)"
    and bs: "bits_of_bytes pdu = b # res @ num @ rest" "length res = r" "length num = pdcp_sn_size_to_uint sn_len"
  shows "get_pdcp_sn pdu sn_len is_srb =
    Inr (if b = is_srb \<or> (bits_num res :: byte) \<noteq> 0 then None else Some (bits_num num))"
proof -
  have ne: "pdu \<noteq> []"
    using bs(1) by auto
  obtain d where d: "unpack 1 (dec_new pdu) = Inr (True, bits_num [b] :: byte, d)" "dec_inv d" "dec_bits d = res @ num @ rest"
    using unpack_bits_eq [of "dec_new pdu" 1, where 'a = 8] bs(1) by auto
  have "pdcp_read_fields r (pdcp_sn_size_to_uint sn_len) d = Inr (True, bits_num res, bits_num num)"
    using get_pdcp_sn_bits [OF d(2), of r "pdcp_sn_size_to_uint sn_len"] bs(2,3) d(3) r assms(1) by (cases sn_len) auto
  then show ?thesis
    using assms(1,2) ne d r by (cases sn_len) (auto simp: get_pdcp_sn_def bits_num_def)
qed

lemma upt_8: "[0..<8] = [0, 1, 2, 3, 4, 5, 6, 7]"
  by (simp add: upt_rec)

lemma word_bits_8:
  "word_bits 8 w = [bit w 7, bit w 6, bit w 5, bit w 4, bit w 3, bit w 2, bit w 1, bit w 0]"
  by (simp add: word_bits_def upt_8)

lemma word_bits_12:
  "word_bits 12 w = [bit w 11, bit w 10, bit w 9, bit w 8] @ word_bits 8 w"
  by (simp add: word_bits_def upt_8) (simp add: upt_rec)

lemma word_bits_18:
  "word_bits 18 w = [bit w 17, bit w 16] @ word_bits 8 (drop_bit 8 w) @ word_bits 8 w"
  by (simp add: word_bits_def upt_8 bit_simps) (simp add: upt_rec)

lemma header_bits_12:
  "bits_of_bytes (pdcp_header_bytes is_srb pdcp_size12bits sn @ buf) =
     (\<not> is_srb) # replicate 3 False @ word_bits 12 sn @ bits_of_bytes buf"
  by (cases is_srb) (simp_all add: pdcp_header_bytes_def bits_of_bytes_def word_bits_8 word_bits_12 bit_simps numeral_3_eq_3)

lemma replicate_5: "replicate 5 x = [x, x, x, x, x]"
  by (simp add: numeral_eq_Suc)

lemma header_bits_18:
  "bits_of_bytes (pdcp_header_bytes False pdcp_size18bits sn @ buf) =
     True # replicate 5 False @ word_bits 18 sn @ bits_of_bytes buf"
  by (simp add: pdcp_header_bytes_def bits_of_bytes_def word_bits_8 word_bits_18 bit_simps replicate_5)

lemma bits_num_replicate_False [simp]: "bits_num (replicate n False) = 0"
  by (induction n) (simp_all add: bits_num_def)

lemma pdcp_header_roundtrip_rlc:
  assumes "sz \<noteq> pdcp_size_invalid" "\<not> (is_srb \<and> sz = pdcp_size18bits)" "unat sn < 2 ^ pdcp_sn_size_to_uint sz"
  shows "get_pdcp_sn (pdcp_header_bytes is_srb sz sn @ buf) sz is_srb = Inr (Some sn)"
proof -
  define n where "n = pdcp_sn_size_to_uint sz"
  have "bits_of_bytes (pdcp_header_bytes is_srb sz sn @ buf) =
      (\<not> is_srb) # replicate (if sz = pdcp_size12bits then 3 else 5) False @ word_bits n sn @ bits_of_bytes buf"
    unfolding n_def using assms(1,2) header_bits_12 [of is_srb sn buf] header_bits_18 [of sn buf] by (cases sz) auto
  moreover have "bits_num (word_bits n sn) = sn"
    using small_masked [OF assms(3)] by (simp add: bits_num_word_bits n_def take_bit_eq_mask)
  ultimately show ?thesis
    using get_pdcp_sn_eq [OF assms(1,2), where pdu = "pdcp_header_bytes is_srb sz sn @ buf"]
    by (simp add: n_def pdcp_hdr_len_def pdcp_header_bytes_def split: pdcp_sn_size.splits)
qed

lemma pdcp_sn12_bytes:
  fixes sn :: u32
  assumes "unat sn < 2 ^ 12" "dc AND 0x0f = (0 :: byte)"
  shows "push_bit 8 (ucast ((dc OR ucast (drop_bit 8 (sn AND 0xf00))) AND 0x0f)) OR
      ucast (ucast (sn AND 0xff) :: byte) = sn"
proof -
  have m: "(0x0F :: byte) = mask 4" "(0xFF :: u32) = mask 8" "drop_bit 8 (sn AND 0xf00) = drop_bit 8 sn AND mask 4"
    by (simp_all add: mask_eq_exp_minus_1 drop_bit_and)
  have dc: "bit dc i \<Longrightarrow> 4 \<le> i" for i
    using assms(2) unfolding m by (metis bit_and_iff bit_mask_iff bit_0_eq bot_apply bot_bool_def not_le impossible_bit)
  show ?thesis
    unfolding m by (rule bit_word_eqI) (use dc bit_small [OF assms(1)] in \<open>fastforce simp: bit_simps\<close>)
qed

lemma pdcp_sn18_bytes:
  fixes sn :: u32
  assumes "unat sn < 2 ^ 18" "dc AND 0x03 = (0 :: byte)"
  shows "push_bit 16 (ucast ((dc OR ucast (drop_bit 16 (sn AND 0x30000))) AND 0x03)) OR
      push_bit 8 (ucast (ucast (drop_bit 8 (sn AND 0xff00)) :: byte)) OR ucast (ucast (sn AND 0xff) :: byte) = sn"
proof -
  have m: "(0x03 :: byte) = mask 2" "(0xFF :: u32) = mask 8" "drop_bit 16 (sn AND 0x30000) = drop_bit 16 sn AND mask 2"
      "drop_bit 8 (sn AND 0xff00) = drop_bit 8 sn AND mask 8"
    by (simp_all add: mask_eq_exp_minus_1 drop_bit_and)
  have dc: "bit dc i \<Longrightarrow> 2 \<le> i" for i
    using assms(2) unfolding m by (metis bit_and_iff bit_mask_iff bit_0_eq bot_apply bot_bool_def not_le impossible_bit)
  show ?thesis
  proof (rule bit_word_eqI)
    fix i :: nat assume "i < LENGTH(32)"
    consider "i < 8" | "8 \<le> i" "i < 16" | "16 \<le> i" "i < 18" | "18 \<le> i"
      by linarith
    then show "bit (push_bit 16 (ucast ((dc OR ucast (drop_bit 16 (sn AND 0x30000))) AND 0x03)) OR
        push_bit 8 (ucast (ucast (drop_bit 8 (sn AND 0xff00)) :: byte)) OR ucast (ucast (sn AND 0xff) :: byte) :: u32) i = bit sn i"
      unfolding m using dc [of "i - 16"] bit_small [OF assms(1), of i] \<open>i < LENGTH(32)\<close>
      by cases (auto simp: bit_simps)
  qed
qed

lemma pdcp_read_bytes:
  "rest \<noteq> [] \<Longrightarrow> pdcp_read_data_pdu_header pdcp_size12bits ([a, b] @ rest) =
     Some (push_bit 8 (ucast (a AND 0x0f)) OR ucast b)"
  "rest \<noteq> [] \<Longrightarrow> pdcp_read_data_pdu_header pdcp_size18bits ([a, b, c] @ rest) =
     Some (push_bit 16 (ucast (a AND 0x03)) OR push_bit 8 (ucast b) OR ucast c)"
  by (simp_all add: pdcp_read_data_pdu_header_def pdcp_hdr_len_def)

lemma pdcp_read_header_bytes:
  assumes "buf \<noteq> []" "sz \<noteq> pdcp_size_invalid" "unat sn < 2 ^ pdcp_sn_size_to_uint sz"
  shows "pdcp_read_data_pdu_header sz (pdcp_header_bytes is_srb sz sn @ buf) = Some sn"
proof -
  define dc :: byte where "dc = (if is_srb then 0 else 0x80)"
  have dc: "dc AND 0x0f = 0" "dc AND 0x03 = 0"
    by (simp_all add: dc_def)
  have bytes: "pdcp_header_bytes is_srb sz sn = (case sz of
       pdcp_size12bits \<Rightarrow> [dc OR ucast (drop_bit 8 (sn AND 0xf00)), ucast (sn AND 0xff)]
     | pdcp_size18bits \<Rightarrow> [dc OR ucast (drop_bit 16 (sn AND 0x30000)), ucast (drop_bit 8 (sn AND 0xff00)), ucast (sn AND 0xff)]
     | pdcp_size_invalid \<Rightarrow> [dc, 0, 0])"
    unfolding pdcp_header_bytes_def dc_def Let_def ..
  show ?thesis
  proof (cases sz)
    case pdcp_size12bits
    then have "unat sn < 2 ^ 12"
      using assms(3) by simp
    from pdcp_sn12_bytes [OF this dc(1)] show ?thesis
      unfolding pdcp_size12bits bytes [unfolded pdcp_size12bits pdcp_sn_size.case] pdcp_read_bytes(1) [OF assms(1)] by (rule arg_cong)
  next
    case pdcp_size18bits
    then have "unat sn < 2 ^ 18"
      using assms(3) by simp
    from pdcp_sn18_bytes [OF this dc(2)] show ?thesis
      unfolding pdcp_size18bits bytes [unfolded pdcp_size18bits pdcp_sn_size.case] pdcp_read_bytes(2) [OF assms(1)] by (rule arg_cong)
  qed (use assms(2) in simp)
qed

lemma pdcp_header_bytes_shape:
  assumes "sz \<noteq> pdcp_size_invalid" "\<not> (is_srb \<and> sz = pdcp_size18bits)"
  shows "length (pdcp_header_bytes is_srb sz sn) = pdcp_hdr_len sz" "pdcp_header_bytes is_srb sz sn \<noteq> []"
    "pdcp_pdu_get_dc (hd (pdcp_header_bytes is_srb sz sn)) = (if is_srb then dc_control else dc_data)"
proof -
  show "length (pdcp_header_bytes is_srb sz sn) = pdcp_hdr_len sz" "pdcp_header_bytes is_srb sz sn \<noteq> []"
    by (cases sz; simp add: pdcp_header_bytes_def pdcp_hdr_len_def Let_def)+
  have one: "(1 :: byte) = mask 1"
    by simp
  have top: "drop_bit 7 ((if is_srb then 0 else 0x80) OR ucast (drop_bit k (sn AND m) :: u32)) AND (0x01 :: byte) =
      (if is_srb then 0 else 1)" if "drop_bit k m = mask n" "n < 7" for k n and m :: u32
    using that unfolding one by (intro bit_word_eqI) (auto simp: bit_simps drop_bit_and)
  have "drop_bit 8 (0xf00 :: u32) = mask 4" "drop_bit 16 (0x30000 :: u32) = mask 2"
    by (simp_all add: mask_eq_exp_minus_1)
  note top [OF this(1)] top [OF this(2)]
  then show "pdcp_pdu_get_dc (hd (pdcp_header_bytes is_srb sz sn)) = (if is_srb then dc_control else dc_data)"
    using assms(1) unfolding pdcp_pdu_get_dc_def pdcp_header_bytes_def Let_def
    by (cases sz) (simp_all only: pdcp_sn_size.case list.sel if_True if_False split: if_split, simp_all)
qed

text \<open>The reader never fails, whatever the bytes, and its numbers have at most 18 bits.\<close>

lemma bits_num_less: "length bs \<le> n \<Longrightarrow> unat (bits_num bs :: 'a::len word) < 2 ^ n"
proof -
  assume "length bs \<le> n"
  then have "take_bit n (bits_num bs :: 'a word) = bits_num bs"
    by (intro bit_word_eqI) (auto simp: bit_simps bit_bits_num)
  then show ?thesis
    by (metis take_bit_nat_less_exp unsigned_take_bit_eq)
qed

lemma pdcp_read_fields_ok:
  assumes "dec_inv d" "r \<le> 8" "n \<le> 32"
  shows "succeeds (pdcp_read_fields r n d) (\<lambda>(ok, reserved, sn). ok \<longrightarrow> unat sn < 2 ^ n)"
  unfolding pdcp_read_fields_def succeeds_simps
proof (rule succeeds_mono [OF unpack_spec [OF assms(1)]])
  fix a :: "bool \<times> byte \<times> bit_decoder"
  assume "case a of (ok, v, d') \<Rightarrow> dec_inv d' \<and> dec_buffer d' = dec_buffer d \<and> (ok \<longleftrightarrow> r \<le> length (dec_bits d)) \<and>
    (ok \<longrightarrow> v = bits_num (take r (dec_bits d)) \<and> dec_bits d' = drop r (dec_bits d))"
  then have "dec_inv (snd (snd a))"
    by (auto split: prod.splits)
  then have "succeeds (unpack n (snd (snd a))) (\<lambda>(ok, sn :: u32, d2). ok \<longrightarrow> unat sn < 2 ^ n)"
    by (rule succeeds_mono [OF unpack_spec]) (use assms(3) in \<open>auto intro: bits_num_less\<close>)
  then show "succeeds (case a of (ok1, reserved, d1) \<Rightarrow> rbind (unpack n d1) (\<lambda>(ok2, sn :: u32, d2). Inr (ok1 \<and> ok2, reserved, sn)))
      (\<lambda>(ok, reserved, sn). ok \<longrightarrow> unat sn < 2 ^ n)"
    by (cases a) (simp, erule succeeds_mono, auto)
qed (use assms(2) in simp)

lemma get_pdcp_sn_ok: "succeeds (get_pdcp_sn pdu sz is_srb) (\<lambda>r. \<forall>sn. r = Some sn \<longrightarrow> unat sn < 2 ^ 18)"
proof -
  define n :: nat where "n = (if sz = pdcp_size12bits then 12 else 18)"
  define r :: nat where "r = (if sz = pdcp_size12bits then 3 else 5)"
  have "succeeds (unpack 1 (dec_new pdu)) (\<lambda>(ok, v :: byte, d). dec_inv d)"
    by (rule succeeds_mono [OF unpack_spec]) auto
  then have "succeeds (unpack 1 (dec_new pdu)) (\<lambda>(ok, v :: byte, d).
      succeeds (pdcp_read_fields r n d) (\<lambda>(ok, reserved, sn). ok \<longrightarrow> unat sn < 2 ^ 18))"
    by (rule succeeds_mono) (auto intro!: succeeds_mono [OF pdcp_read_fields_ok] simp: r_def n_def)
  moreover have "(if sz = pdcp_size12bits then pdcp_read_fields 3 12 d else pdcp_read_fields 5 18 d) = pdcp_read_fields r n d" for d
    by (simp add: r_def n_def)
  ultimately show ?thesis
    by (auto simp: get_pdcp_sn_def elim!: succeeds_mono)
qed

text \<open>C21. A data PDU header written for a sequence number of the configured size is read back as that number,
  both by the receiving entity and by the reader RLC uses; the reader of the entity needs a payload behind it.\<close>

theorem pdcp_header_roundtrip:
  assumes "sz \<noteq> pdcp_size_invalid" "\<not> (is_srb \<and> sz = pdcp_size18bits)" "unat sn < 2 ^ pdcp_sn_size_to_uint sz"
    and "sdu \<noteq> []"
  shows "\<exists>pdu. pdcp_write_data_pdu_header is_srb sz sn sdu = Inr (True, pdu) \<and>
    pdcp_read_data_pdu_header sz pdu = Some sn \<and> drop (pdcp_hdr_len sz) pdu = sdu \<and>
    get_pdcp_sn pdu sz is_srb = Inr (Some sn) \<and>
    pdcp_pdu_get_dc (hd pdu) = (if is_srb then dc_control else dc_data)"
  using assms pdcp_header_bytes_shape [OF assms(1,2), of sn] pdcp_read_header_bytes [OF assms(4,1,3)]
    pdcp_header_roundtrip_rlc [OF assms(1-3), of sdu]
  by (simp add: pdcp_write_data_pdu_header_def)

theorem pdcp_header_roundtrip_witness:
  "\<exists>pdu. pdcp_write_data_pdu_header False pdcp_size18bits 0x2ABCD [1, 2] = Inr (True, pdu) \<and>
    pdcp_read_data_pdu_header pdcp_size18bits pdu = Some 0x2ABCD \<and> drop (pdcp_hdr_len pdcp_size18bits) pdu = [1, 2] \<and>
    get_pdcp_sn pdu pdcp_size18bits False = Inr (Some 0x2ABCD) \<and>
    pdcp_pdu_get_dc (hd pdu) = (if False then dc_control else dc_data)"
  by (rule pdcp_header_roundtrip) simp_all

end
