(* ===== verification/Rlc_Um_Tx.thy ===== *)
theory Rlc_Um_Tx
  imports Rlc_Um_Rx Rlc_Sdu_Queue Pdcp_Pdu
begin

text \<open>
  The transmitting RLC entity in unacknowledged mode, \<^verbatim>\<open>lib/rlc/rlc_tx_um_entity.h\<close> and \<^verbatim>\<open>.cpp\<close>.
  The notifications to the upper and the lower layer are recorded in the state, and so is the number
  of tasks handed to the executor of the primary cell. Assertions are checked, the sanity checks of
  debug builds are not. The operations on the entity interleave as wholes: the code holds its mutex
  where it reads or changes the SDU under transmission.
\<close>

subsection \<open>State\<close>

record rlc_tx_um_config =
  tx_sn_field_length :: rlc_um_sn_size
  tx_pdcp_sn_len :: pdcp_sn_size
  tx_queue_size :: u32
  tx_queue_size_bytes :: u32

record rlc_tx_um_entity =
  tx_cfg :: rlc_tx_um_config
  tx_next :: u32
  tx_sdu_queue :: sdu_queue
  tx_sdu :: rlc_sdu
  next_so :: u32
  prev_buffer_state :: u32
  pending_buffer_state :: bool
  transmitted_sdus :: "(u32 \<times> u32) list"
  buffer_state_updates :: "u32 list"
  deferred_updates :: nat

definition rlc_tx_um_entity_new :: "rlc_tx_um_config \<Rightarrow> rlc_tx_um_entity result" where
  "rlc_tx_um_entity_new cfg =
     (if tx_pdcp_sn_len cfg = pdcp_size12bits \<or> tx_pdcp_sn_len cfg = pdcp_size18bits
      then Inr \<lparr>tx_cfg = cfg, tx_next = 0,
                tx_sdu_queue = sdu_queue_new (unat (ucast (tx_queue_size cfg) :: u16)) (unat (tx_queue_size_bytes cfg)),
                tx_sdu = rlc_sdu_none, next_so = 0, prev_buffer_state = 0, pending_buffer_state = False,
                transmitted_sdus = [], buffer_state_updates = [], deferred_updates = 0\<rparr>
      else Inl Assertion_Failed)"

text \<open>Header sizes.\<close>

definition head_len_full :: u32 where
  "head_len_full = of_nat rlc_um_pdu_header_size_complete_sdu"

definition head_len_first :: "rlc_tx_um_entity \<Rightarrow> u32" where
  "head_len_first t = of_nat (rlc_um_pdu_header_size_no_so (tx_sn_field_length (tx_cfg t)))"

definition head_len_not_first :: "rlc_tx_um_entity \<Rightarrow> u32" where
  "head_len_not_first t = of_nat (rlc_um_pdu_header_size_with_so (tx_sn_field_length (tx_cfg t)))"

subsection \<open>Buffer state\<close>

definition um_tx_get_buffer_state :: "rlc_tx_um_entity \<Rightarrow> u32" where
  "um_tx_get_buffer_state t =
     (let (n_sdus, n_bytes) = q_get_state (tx_sdu_queue t);
          queue_bytes = n_bytes + n_sdus * head_len_full;
          segment_bytes = (if sdu_buf (tx_sdu t) = [] then 0
                           else of_nat (length (sdu_buf (tx_sdu t))) - next_so t + head_len_not_first t)
      in queue_bytes + segment_bytes)"

definition MAX_DL_PDU_LENGTH :: u32 where
  "MAX_DL_PDU_LENGTH = 171600"

text \<open>An update is queued unless one is queued already; \<open>defer_ok\<close> says whether the executor takes the task.\<close>

definition handle_changed_buffer_state :: "bool \<Rightarrow> rlc_tx_um_entity \<Rightarrow> rlc_tx_um_entity" where
  "handle_changed_buffer_state defer_ok t =
     (if pending_buffer_state t then t
      else let t1 = t\<lparr>pending_buffer_state := True\<rparr>
           in if defer_ok then t1\<lparr>deferred_updates := deferred_updates t1 + 1\<rparr> else t1)"

definition update_mac_buffer_state :: "rlc_tx_um_entity \<Rightarrow> rlc_tx_um_entity" where
  "update_mac_buffer_state t =
     (let t1 = t\<lparr>pending_buffer_state := False\<rparr>;
          bs = um_tx_get_buffer_state t1;
          t2 = (if \<not> (bs > MAX_DL_PDU_LENGTH \<and> prev_buffer_state t1 > MAX_DL_PDU_LENGTH)
                then t1\<lparr>buffer_state_updates := buffer_state_updates t1 @ [bs]\<rparr> else t1)
      in t2\<lparr>prev_buffer_state := bs\<rparr>)"

text \<open>The executor runs one queued task.\<close>

definition run_deferred_update :: "rlc_tx_um_entity \<Rightarrow> rlc_tx_um_entity" where
  "run_deferred_update t =
     (if deferred_updates t = 0 then t
      else update_mac_buffer_state (t\<lparr>deferred_updates := deferred_updates t - 1\<rparr>))"

subsection \<open>Upper layer\<close>

definition um_tx_handle_sdu :: "bool \<Rightarrow> byte list \<Rightarrow> rlc_tx_um_entity \<Rightarrow> rlc_tx_um_entity result" where
  "um_tx_handle_sdu defer_ok buf t =
     rbind (get_pdcp_sn buf (tx_pdcp_sn_len (tx_cfg t)) False) (\<lambda>pdcp_sn.
       let (ok, q) = q_write \<lparr>sdu_buf = buf, sdu_pdcp_sn = pdcp_sn\<rparr> (tx_sdu_queue t);
           t1 = t\<lparr>tx_sdu_queue := q\<rparr>
       in Inr (if ok then handle_changed_buffer_state defer_ok t1 else t1))"

definition um_tx_discard_sdu :: "bool \<Rightarrow> u32 \<Rightarrow> rlc_tx_um_entity \<Rightarrow> rlc_tx_um_entity" where
  "um_tx_discard_sdu defer_ok pdcp_sn t =
     (let (ok, q) = q_try_discard pdcp_sn (tx_sdu_queue t);
          t1 = t\<lparr>tx_sdu_queue := q\<rparr>
      in if ok then handle_changed_buffer_state defer_ok t1 else t1)"

subsection \<open>Lower layer\<close>

text \<open>The segmentation info of the next PDU and the header size expected for it; none if no payload fits.\<close>

definition get_si_and_expected_header_size ::
  "rlc_tx_um_entity \<Rightarrow> u32 \<Rightarrow> u32 \<Rightarrow> u32 \<Rightarrow> (rlc_si_field \<times> u32) option" where
  "get_si_and_expected_header_size t so sdu_len grant_len =
     (if so = 0
      then if sdu_len \<le> grant_len - head_len_full then Some (full_sdu, head_len_full)
           else if grant_len \<le> head_len_first t then None
           else Some (first_segment, head_len_first t)
      else if grant_len \<le> head_len_not_first t then None
      else if sdu_len - next_so t \<le> grant_len - head_len_not_first t then Some (last_segment, head_len_not_first t)
      else Some (middle_segment, head_len_not_first t))"

text \<open>The next SDU is read if none is under transmission; the flag says whether there is one.\<close>

definition um_tx_next_sdu :: "rlc_tx_um_entity \<Rightarrow> bool \<times> rlc_tx_um_entity" where
  "um_tx_next_sdu t =
     (if sdu_buf (tx_sdu t) \<noteq> [] then (True, t)
      else let (ok, s, q) = q_read (tx_sdu t) (tx_sdu_queue t);
               t1 = t\<lparr>tx_sdu := s, tx_sdu_queue := q\<rparr>
           in if \<not> ok then (False, t1)
              else (True, case sdu_pdcp_sn s of
                            None \<Rightarrow> t1
                          | Some p \<Rightarrow> t1\<lparr>transmitted_sdus := transmitted_sdus t1 @ [(p, tx_queue_size_bytes (tx_cfg t1))]\<rparr>))"

text \<open>The PDU is written to the front of the grant. The result is the grant and the size of the PDU.\<close>

definition um_tx_assemble :: "byte list \<Rightarrow> rlc_tx_um_entity \<Rightarrow> (byte list \<times> nat \<times> rlc_tx_um_entity) result" where
  "um_tx_assemble grant t =
     (let grant_len = of_nat (length grant);
          buf = sdu_buf (tx_sdu t)
      in case get_si_and_expected_header_size t (next_so t) (of_nat (length buf)) grant_len of
           None \<Rightarrow> Inr (grant, 0, t)
         | Some (si, expected_hdr_len) \<Rightarrow>
             let header = \<lparr>um_si = si, um_sn_size = tx_sn_field_length (tx_cfg t), um_sn = ucast (tx_next t),
                           um_so = ucast (next_so t)\<rparr>
             in rbind (rlc_um_write_data_pdu_header grant header) (\<lambda>(grant1, header_len).
                  let space = grant_len - of_nat header_len;
                      rest = length buf - unat (next_so t);
                      payload_len = (if unat space \<ge> rest then of_nat rest else space) :: u32;
                      payload = take (unat payload_len) (drop (unat (next_so t)) buf);
                      nwritten = min (length payload) (length grant1 - header_len);
                      grant2 = take header_len grant1 @ take nwritten payload @ drop (header_len + nwritten) grant1
                  in if nwritten = 0 \<or> nwritten \<noteq> unat payload_len then Inr (grant2, 0, t)
                     else let t1 = (if si = full_sdu \<or> si = last_segment
                                    then t\<lparr>tx_sdu := (tx_sdu t)\<lparr>sdu_buf := []\<rparr>, next_so := 0\<rparr>
                                    else t\<lparr>next_so := next_so t + payload_len\<rparr>);
                              t2 = (if si = last_segment
                                    then t1\<lparr>tx_next := (tx_next t1 + 1) mod um_mod (tx_sn_field_length (tx_cfg t1))\<rparr>
                                    else t1)
                          in Inr (grant2, header_len + nwritten, t2)))"

definition um_tx_pull_pdu :: "byte list \<Rightarrow> rlc_tx_um_entity \<Rightarrow> (byte list \<times> nat \<times> rlc_tx_um_entity) result" where
  "um_tx_pull_pdu grant t =
     (if (of_nat (length grant) :: u32) \<le> head_len_full then Inr (grant, 0, t)
      else case um_tx_next_sdu t of
             (False, t1) \<Rightarrow> Inr (grant, 0, t1)
           | (True, t1) \<Rightarrow> um_tx_assemble grant t1)"

subsection \<open>The PDUs of an SDU\<close>

text \<open>An SDU under transmission of which \<open>k\<close> bytes are sent.\<close>

definition um_sending :: "byte list \<Rightarrow> nat \<Rightarrow> rlc_tx_um_entity \<Rightarrow> bool" where
  "um_sending sdu k t \<longleftrightarrow> sdu_buf (tx_sdu t) = sdu \<and> k < length sdu \<and> length sdu \<le> 65536 \<and> unat (next_so t) = k \<and>
     tx_next t < um_mod (tx_sn_field_length (tx_cfg t))"

text \<open>The segmentation info of a PDU with the bytes \<open>k..k + j\<close> of an SDU, and the entity once it is sent.\<close>

definition um_part_si :: "nat \<Rightarrow> nat \<Rightarrow> nat \<Rightarrow> rlc_si_field" where
  "um_part_si len k j =
     (if k = 0 then if j = len then full_sdu else first_segment else if k + j = len then last_segment else middle_segment)"

definition um_part_sent :: "nat \<Rightarrow> nat \<Rightarrow> nat \<Rightarrow> rlc_tx_um_entity \<Rightarrow> rlc_tx_um_entity" where
  "um_part_sent len k j t =
     (if k + j < len then t\<lparr>next_so := of_nat (k + j)\<rparr>
      else t\<lparr>tx_sdu := (tx_sdu t)\<lparr>sdu_buf := []\<rparr>, next_so := 0,
             tx_next := (if k = 0 then tx_next t else sn_next (tx_sn_field_length (tx_cfg t)) (tx_next t))\<rparr>)"

definition um_part_header :: "rlc_tx_um_entity \<Rightarrow> nat \<Rightarrow> nat \<Rightarrow> nat \<Rightarrow> rlc_um_pdu_header" where
  "um_part_header t len k j = \<lparr>um_si = um_part_si len k j, um_sn_size = tx_sn_field_length (tx_cfg t),
     um_sn = ucast (tx_next t), um_so = of_nat k\<rparr>"

lemma head_len_nat:
  "unat head_len_full = 1"
  "unat (head_len_first t) = rlc_um_pdu_header_size_no_so (tx_sn_field_length (tx_cfg t))"
  "unat (head_len_not_first t) = rlc_um_pdu_header_size_with_so (tx_sn_field_length (tx_cfg t))"
  by (cases "tx_sn_field_length (tx_cfg t)";
      simp add: head_len_full_def head_len_first_def head_len_not_first_def rlc_um_pdu_header_size_complete_sdu_def)+

lemma unat_sub_u32: "unat (b :: u32) \<le> unat a \<Longrightarrow> unat (a - b) = unat a - unat b"
  by (simp add: unat_sub word_le_nat_alt)

lemma um_part_header_size:
  assumes "k < 65536"
  shows "length (um_header_bytes (um_part_header t len k j)) =
    (if k = 0 then if j = len then 1 else rlc_um_pdu_header_size_no_so (tx_sn_field_length (tx_cfg t))
     else rlc_um_pdu_header_size_with_so (tx_sn_field_length (tx_cfg t)))"
proof -
  have "(of_nat k :: u16) = 0 \<longleftrightarrow> k = 0"
    using assms by (simp add: word_unat_eq_iff unsigned_of_nat take_bit_nat_eq_self)
  then show ?thesis
    by (cases "tx_sn_field_length (tx_cfg t)") (auto simp: um_header_bytes_def um_part_header_def um_part_si_def Let_def)
qed

text \<open>The payload of the next PDU.\<close>

definition um_part_len :: "rlc_tx_um_entity \<Rightarrow> nat \<Rightarrow> nat \<Rightarrow> nat \<Rightarrow> nat" where
  "um_part_len t len k g =
     (if k = 0 then if len \<le> g - 1 then len else g - rlc_um_pdu_header_size_no_so (tx_sn_field_length (tx_cfg t))
      else min (len - k) (g - rlc_um_pdu_header_size_with_so (tx_sn_field_length (tx_cfg t))))"

lemma get_si_spec:
  assumes "um_sending sdu k t" "1 < g" "g < 4294967296"
  defines "j \<equiv> um_part_len t (length sdu) k g"
  shows "get_si_and_expected_header_size t (next_so t) (of_nat (length sdu)) (of_nat g) =
      (if j = 0 then None
       else Some (um_part_si (length sdu) k j, of_nat (length (um_header_bytes (um_part_header t (length sdu) k j)))))"
    "j = 0 \<Longrightarrow> g \<le> 4" "k + j \<le> length sdu"
proof -
  let ?sz = "tx_sn_field_length (tx_cfg t)" and ?len = "length sdu"
  have t: "k < ?len" "?len \<le> 65536" "unat (next_so t) = k"
    using assms(1) by (simp_all add: um_sending_def)
  show bounds: "k + j \<le> ?len" "j = 0 \<Longrightarrow> g \<le> 4"
    using t assms(2) by (cases ?sz; auto simp: j_def um_part_len_def split: if_splits)+
  have nat: "unat (of_nat ?len :: u32) = ?len" "unat (of_nat g :: u32) = g" "next_so t = 0 \<longleftrightarrow> k = 0"
    using t assms(3) by (auto simp: unsigned_of_nat take_bit_nat_eq_self unat_eq_0)
  have rest: "unat (of_nat ?len - next_so t) = ?len - k"
    using unat_sub_u32 [of "next_so t" "of_nat ?len"] t nat by simp
  have hdr: "(of_nat (length (um_header_bytes (um_part_header t ?len k j))) :: u32) =
      (if k = 0 then if j = ?len then head_len_full else head_len_first t else head_len_not_first t)"
    using um_part_header_size [of k t ?len j] t bounds(1)
    by (simp add: head_len_full_def head_len_first_def head_len_not_first_def rlc_um_pdu_header_size_complete_sdu_def)
  have g1: "unat (of_nat g - head_len_full) = g - 1"
    using unat_sub_u32 [of head_len_full "of_nat g"] nat assms(2) by (simp add: head_len_nat)
  have g2: "unat (of_nat g - head_len_not_first t) = g - rlc_um_pdu_header_size_with_so ?sz"
      if "rlc_um_pdu_header_size_with_so ?sz < g"
    using unat_sub_u32 [of "head_len_not_first t" "of_nat g"] nat that by (simp add: head_len_nat)
  have cmp: "of_nat ?len \<le> of_nat g - head_len_full \<longleftrightarrow> ?len \<le> g - 1"
      "of_nat g \<le> head_len_first t \<longleftrightarrow> g \<le> rlc_um_pdu_header_size_no_so ?sz"
      "of_nat g \<le> head_len_not_first t \<longleftrightarrow> g \<le> rlc_um_pdu_header_size_with_so ?sz"
    unfolding word_le_nat_alt g1 nat head_len_nat by simp_all
  have cmp2: "of_nat ?len - next_so t \<le> of_nat g - head_len_not_first t \<longleftrightarrow>
      ?len - k \<le> g - rlc_um_pdu_header_size_with_so ?sz" if "rlc_um_pdu_header_size_with_so ?sz < g"
    unfolding word_le_nat_alt rest g2 [OF that] ..
  have first: "1 \<le> rlc_um_pdu_header_size_no_so ?sz"
    by (cases ?sz) simp_all
  show "get_si_and_expected_header_size t (next_so t) (of_nat ?len) (of_nat g) =
      (if j = 0 then None
       else Some (um_part_si ?len k j, of_nat (length (um_header_bytes (um_part_header t ?len k j)))))"
  proof (cases "k = 0")
    case True
    then show ?thesis
      using t(1) first unfolding hdr get_si_and_expected_header_size_def cmp nat(3)
      by (auto simp: j_def um_part_len_def um_part_si_def)
  next
    case False
    then show ?thesis
      using t(1) cmp2 unfolding hdr get_si_and_expected_header_size_def cmp nat(3)
      by (auto simp: j_def um_part_len_def um_part_si_def min_def)
  qed
qed

lemma um_tx_assemble_spec:
  assumes "um_sending sdu k t" "1 < length grant" "length grant < 4294967296"
  defines "j \<equiv> um_part_len t (length sdu) k (length grant)"
  defines "pdu \<equiv> um_header_bytes (um_part_header t (length sdu) k j) @ take j (drop k sdu)"
  shows "um_tx_assemble grant t =
    (if j = 0 then Inr (grant, 0, t)
     else Inr (pdu @ drop (length pdu) grant, length pdu, um_part_sent (length sdu) k j t))"
    "j \<noteq> 0 \<Longrightarrow> length pdu \<le> length grant"
proof -
  let ?len = "length sdu" and ?g = "length grant" and ?h = "um_part_header t (length sdu) k j"
  let ?hl = "length (um_header_bytes ?h)"
  have t: "k < ?len" "?len \<le> 65536" "unat (next_so t) = k" "sdu_buf (tx_sdu t) = sdu"
    using assms(1) by (simp_all add: um_sending_def)
  note si = get_si_spec [OF assms(1-3), folded j_def]
  have hl: "?hl < ?g \<and> j = min (?len - k) (?g - ?hl)" if "j \<noteq> 0"
    using that t um_part_header_size [of k t ?len j] si(3) assms(2)
    by (cases "tx_sn_field_length (tx_cfg t)") (auto simp: j_def um_part_len_def min_def split: if_splits)
  show "j \<noteq> 0 \<Longrightarrow> length pdu \<le> ?g"
    using hl by (auto simp: pdu_def)
  show "um_tx_assemble grant t = (if j = 0 then Inr (grant, 0, t)
     else Inr (pdu @ drop (length pdu) grant, length pdu, um_part_sent ?len k j t))"
  proof (cases "j = 0")
    case True
    then show ?thesis
      using si(1) t(4) by (simp add: um_tx_assemble_def)
  next
    case False
    note hl = hl [OF this]
    have so: "(ucast (next_so t) :: u16) = of_nat k"
      using t(3) by (metis of_nat_unat)
    have rest: "unat (of_nat (?len - k) :: u32) = ?len - k"
      using t(2) by (simp add: unsigned_of_nat take_bit_nat_eq_self del: of_nat_diff)
    have "unat (of_nat ?g - of_nat ?hl :: u32) = ?g - ?hl"
      using hl assms(3) unat_sub_u32 [of "of_nat ?hl" "of_nat ?g"] by (simp add: unsigned_of_nat take_bit_nat_eq_self)
    then have pl: "unat (if ?len - k \<le> unat (of_nat ?g - of_nat ?hl :: u32) then of_nat (?len - k) else of_nat ?g - of_nat ?hl :: u32) = j"
      using hl rest by (auto simp: min_def simp del: of_nat_diff)
    define P :: u32 where "P = (if ?len - k \<le> unat (of_nat ?g - of_nat ?hl :: u32) then of_nat (?len - k) else of_nat ?g - of_nat ?hl)"
    have "unat P = j"
      using pl by (simp only: P_def)
    then have P: "unat P = j" "P = of_nat j" "next_so t = of_nat k"
      using t(3) by auto
    have hdr: "\<lparr>um_si = um_part_si ?len k j, um_sn_size = tx_sn_field_length (tx_cfg t), um_sn = ucast (tx_next t),
        um_so = ucast (next_so t)\<rparr> = ?h"
      unfolding so um_part_header_def ..
    have wr: "rlc_um_write_data_pdu_header grant ?h = Inr (um_header_bytes ?h @ drop ?hl grant, ?hl)"
      using hl by (simp add: rlc_um_write_data_pdu_header_def Let_def)
    have len: "length (take j (drop k sdu)) = j" "length pdu = ?hl + j"
      using si(3) by (simp_all add: pdu_def)
    have nw: "min (length (take j (drop k sdu))) (length (um_header_bytes ?h @ drop ?hl grant) - ?hl) = j"
      using hl unfolding len by auto
    have sent: "(let t1 = (if um_part_si ?len k j = full_sdu \<or> um_part_si ?len k j = last_segment
          then t\<lparr>tx_sdu := (tx_sdu t)\<lparr>sdu_buf := []\<rparr>, next_so := 0\<rparr> else t\<lparr>next_so := next_so t + P\<rparr>)
        in if um_part_si ?len k j = last_segment
           then t1\<lparr>tx_next := (tx_next t1 + 1) mod um_mod (tx_sn_field_length (tx_cfg t1))\<rparr> else t1) = um_part_sent ?len k j t"
      using si(3) t(1) False by (auto simp: um_part_sent_def um_part_si_def P(2,3) sn_next_def Let_def)
    have "take ?hl (um_header_bytes ?h @ drop ?hl grant) @ take j (take j (drop k sdu)) @
        drop (?hl + j) (um_header_bytes ?h @ drop ?hl grant) = pdu @ drop (length pdu) grant"
      unfolding len by (simp add: pdu_def add.commute)
    moreover have "?hl < ?g" "min j (?g - ?hl) = j"
      using hl by auto
    ultimately show ?thesis
      using False unfolding um_tx_assemble_def Let_def t(4) si(1) if_not_P [OF False] option.case prod.case hdr wr rbind_simps
        t(3) P_def [symmetric] P(1) nw sent [unfolded Let_def] len by simp
  qed
qed

subsection \<open>Invariant\<close>

definition um_sdu_ok :: "rlc_sdu \<Rightarrow> bool" where
  "um_sdu_ok s \<longleftrightarrow> sdu_buf s \<noteq> [] \<and> length (sdu_buf s) \<le> 65536"

definition um_tx_inv :: "rlc_tx_um_entity \<Rightarrow> bool" where
  "um_tx_inv t \<longleftrightarrow>
     q_inv (tx_sdu_queue t) \<and> (\<forall>s\<in>set (q_queue (tx_sdu_queue t)). um_sdu_ok s) \<and>
     tx_next t < um_mod (tx_sn_field_length (tx_cfg t)) \<and> tx_pdcp_sn_len (tx_cfg t) \<noteq> pdcp_size_invalid \<and>
     (if sdu_buf (tx_sdu t) = [] then next_so t = 0 else um_sending (sdu_buf (tx_sdu t)) (unat (next_so t)) t)"

text \<open>What is read from the queue, discarded or not, was in it.\<close>

lemma q_read_origin:
  assumes "q_inv q"
  shows "case q_read sdu q of (ok, sdu', q') \<Rightarrow> sdu' \<in> insert sdu (set (q_queue q)) \<and>
    (ok \<longrightarrow> sdu' \<in> set (q_queue q)) \<and>
    (q_queue q = [] \<longrightarrow> sdu' = sdu \<and> q' = q) \<and> set (q_queue q') \<subseteq> set (q_queue q)"
  using assms
proof (induction "length (q_queue q)" arbitrary: q sdu)
  case 0
  then show ?case
    by (subst q_read.simps) simp
next
  case (Suc n)
  then obtain s xs where q: "q_queue q = s # xs" "length xs = n"
    by (cases "q_queue q") auto
  note pop = q_pop_spec [OF Suc.prems q(1)]
  have "n = length (q_queue (snd (q_pop q s xs)))"
    using pop(2) q(2) by simp
  from Suc.hyps(1) [OF this pop(3), of s] show ?case
    using pop(2) q by (auto simp: q_read_Cons [OF q(1)] split: prod.splits)
qed

lemma q_read_undiscarded:
  assumes "q_inv q" "pending q = q_queue q" "q_queue q = s # xs"
  obtains q' where "q_read sdu q = (True, s, q')" "q_inv q'" "q_queue q' = xs" "pending q' = xs"
proof -
  have "q_valid q s"
    using assms(2,3) filter_eq_Cons_iff [of "q_valid q" "s # xs" s xs] by (metis filter_id_conv list.set_intros(1) pending_def)
  then show thesis
    using q_pop_spec [OF assms(1,3)] q_read_Cons [OF assms(3), of sdu] assms(2,3) that by auto
qed

lemma um_tx_next_sdu_inv:
  assumes "um_tx_inv t" "um_tx_next_sdu t = (ok, t')"
  shows "um_tx_inv t'" "tx_cfg t' = tx_cfg t" "tx_next t' = tx_next t" "ok \<Longrightarrow> sdu_buf (tx_sdu t') \<noteq> []"
proof -
  have *: "um_tx_inv t' \<and> tx_cfg t' = tx_cfg t \<and> tx_next t' = tx_next t \<and> (ok \<longrightarrow> sdu_buf (tx_sdu t') \<noteq> [])"
  proof (cases "sdu_buf (tx_sdu t) = []")
    case False
    then show ?thesis
      using assms by (simp add: um_tx_next_sdu_def)
  next
    case True
    obtain r s q where read: "q_read (tx_sdu t) (tx_sdu_queue t) = (r, s, q)"
      by (cases "q_read (tx_sdu t) (tx_sdu_queue t)")
    have inv: "q_inv (tx_sdu_queue t)" "next_so t = 0"
      using assms(1) True by (simp_all add: um_tx_inv_def)
    have q: "q_inv q" "s = tx_sdu t \<or> s \<in> set (q_queue (tx_sdu_queue t))" "set (q_queue q) \<subseteq> set (q_queue (tx_sdu_queue t))"
        "r \<Longrightarrow> s \<in> set (q_queue (tx_sdu_queue t))"
      using q_read_spec [OF inv(1), of "tx_sdu t"] q_read_origin [OF inv(1), of "tx_sdu t"] read
      by simp_all
    obtain l where t': "t' = t\<lparr>tx_sdu := s, tx_sdu_queue := q, transmitted_sdus := l\<rparr>" "ok = r"
    proof
      show "t' = t\<lparr>tx_sdu := s, tx_sdu_queue := q, transmitted_sdus := transmitted_sdus t'\<rparr>" "ok = r"
        using assms(2) True read by (auto simp: um_tx_next_sdu_def Let_def split: option.splits if_splits)
    qed
    show ?thesis
      using q assms(1) True inv(2) unfolding t'
      by (auto simp: um_tx_inv_def um_sending_def um_sdu_ok_def subset_iff split: if_splits)
  qed
  then show "um_tx_inv t'" "tx_cfg t' = tx_cfg t" "tx_next t' = tx_next t" "ok \<Longrightarrow> sdu_buf (tx_sdu t') \<noteq> []"
    by simp_all
qed

lemma um_part_sent_inv:
  assumes "um_tx_inv t" "um_sending sdu k t" "0 < j" "k + j \<le> length sdu"
  shows "um_tx_inv (um_part_sent (length sdu) k j t)"
proof -
  have "unat (of_nat (k + j) :: u32) = k + j"
    using assms(2,4) by (simp add: um_sending_def unsigned_of_nat take_bit_nat_eq_self del: of_nat_add)
  then show ?thesis
    using assms sn_next_less by (auto simp: um_part_sent_def um_tx_inv_def um_sending_def simp del: of_nat_add)
qed

lemma um_tx_pull_cases:
  assumes "um_tx_inv t" "length grant < 4294967296"
  obtains (nothing) t' where "um_tx_pull_pdu grant t = Inr (grant, 0, t')" "um_tx_inv t'" "tx_cfg t' = tx_cfg t" "tx_next t' = tx_next t"
    "t' = t \<and> length grant \<le> 1 \<or> t' = snd (um_tx_next_sdu t) \<and> (length grant \<le> 4 \<or> \<not> fst (um_tx_next_sdu t))"
  | (pdu) t1 sdu k j pdu where "um_tx_next_sdu t = (True, t1)" "um_tx_inv t1" "tx_cfg t1 = tx_cfg t" "tx_next t1 = tx_next t"
    "um_sending sdu k t1" "0 < j" "k + j \<le> length sdu"
    "pdu = um_header_bytes (um_part_header t1 (length sdu) k j) @ take j (drop k sdu)" "length pdu \<le> length grant"
    "um_tx_pull_pdu grant t = Inr (pdu @ drop (length pdu) grant, length pdu, um_part_sent (length sdu) k j t1)"
proof (cases "length grant \<le> 1")
  case True
  have g: "(of_nat (length grant) :: u32) \<le> head_len_full"
    using True assms(2) by (simp add: word_le_nat_alt head_len_nat unsigned_of_nat take_bit_nat_eq_self)
  then have "um_tx_pull_pdu grant t = Inr (grant, 0, t)"
    by (simp add: um_tx_pull_pdu_def)
  then show thesis
    by (rule nothing) (use assms(1) True in auto)
next
  case False
  then have g: "1 < length grant" "\<not> (of_nat (length grant) :: u32) \<le> head_len_full"
    using assms(2) by (simp_all add: word_le_nat_alt head_len_nat unsigned_of_nat take_bit_nat_eq_self)
  obtain ok t1 where n: "um_tx_next_sdu t = (ok, t1)"
    by (cases "um_tx_next_sdu t")
  note t1 = um_tx_next_sdu_inv [OF assms(1) n]
  show thesis
  proof (cases ok)
    case False
    then have "um_tx_pull_pdu grant t = Inr (grant, 0, t1)"
      using n g(2) by (simp add: um_tx_pull_pdu_def)
    then show thesis
      by (rule nothing) (use t1 n False in auto)
  next
    case True
    let ?sdu = "sdu_buf (tx_sdu t1)" and ?k = "unat (next_so t1)"
    have s: "um_sending ?sdu ?k t1"
      using t1(1,4) True by (simp add: um_tx_inv_def)
    have pull: "um_tx_pull_pdu grant t = um_tx_assemble grant t1"
      using n True g(2) by (simp add: um_tx_pull_pdu_def)
    note a = um_tx_assemble_spec [OF s g(1) assms(2), folded pull] and si = get_si_spec(2,3) [OF s g(1) assms(2)]
    show thesis
    proof (cases "um_part_len t1 (length ?sdu) ?k (length grant) = 0")
      case True
      then have "um_tx_pull_pdu grant t = Inr (grant, 0, t1)"
        using a(1) by simp
      then show thesis
        by (rule nothing) (use t1 n si(1) True in auto)
    next
      case False
      then show thesis
        by (intro pdu [OF _ t1(1-3) s _ si(2) refl]) (use n a True in auto)
    qed
  qed
qed

lemma q_write_queue: "set (q_queue (snd (q_write s q))) \<subseteq> insert s (set (q_queue q))"
  by (auto simp: q_write_def Let_def spsc_try_push_def state_add_def split: option.splits if_splits)

lemma q_try_discard_queue [simp]: "q_queue (snd (q_try_discard p q)) = q_queue q"
  by (simp add: q_try_discard_def Let_def state_sub_def)

lemma handle_changed_buffer_state_inv [simp]: "um_tx_inv (handle_changed_buffer_state d t) = um_tx_inv t"
  by (simp add: handle_changed_buffer_state_def um_tx_inv_def um_sending_def Let_def)

lemma run_deferred_update_inv [simp]: "um_tx_inv (run_deferred_update t) = um_tx_inv t"
  by (simp add: run_deferred_update_def update_mac_buffer_state_def um_tx_inv_def um_sending_def Let_def)

lemma um_tx_queue_inv:
  "um_tx_inv t \<Longrightarrow> q_inv q \<Longrightarrow> \<forall>s\<in>set (q_queue q). um_sdu_ok s \<Longrightarrow> um_tx_inv (t\<lparr>tx_sdu_queue := q\<rparr>)"
  by (auto simp: um_tx_inv_def um_sending_def split: if_splits)

lemma get_pdcp_sn_slot: "succeeds (get_pdcp_sn pdu sz srb) (\<lambda>r. \<forall>sn. r = Some sn \<longrightarrow> sn < STATE_DISCARDED)"
  by (rule succeeds_mono [OF get_pdcp_sn_ok]) (auto simp: word_less_nat_alt STATE_DISCARDED_def)

lemma um_tx_handle_sdu_inv:
  assumes "um_tx_inv t" "buf \<noteq> []" "length buf \<le> 65536"
  shows "succeeds (um_tx_handle_sdu d buf t) (\<lambda>t'. um_tx_inv t')"
proof -
  have "um_tx_inv (t\<lparr>tx_sdu_queue := snd (q_write \<lparr>sdu_buf = buf, sdu_pdcp_sn = r\<rparr> (tx_sdu_queue t))\<rparr>)"
    if "\<forall>sn. r = Some sn \<longrightarrow> sn < STATE_DISCARDED" for r
    using assms that q_write_spec(1) [of "tx_sdu_queue t" "\<lparr>sdu_buf = buf, sdu_pdcp_sn = r\<rparr>"]
      q_write_queue [of "\<lparr>sdu_buf = buf, sdu_pdcp_sn = r\<rparr>" "tx_sdu_queue t"]
    by (intro um_tx_queue_inv) (auto simp: um_tx_inv_def sdu_ok_def um_sdu_ok_def)
  then show ?thesis
    unfolding um_tx_handle_sdu_def succeeds_simps
    by (intro succeeds_mono [OF get_pdcp_sn_slot]) (simp add: split_beta Let_def)
qed

lemma um_tx_discard_sdu_inv:
  assumes "um_tx_inv t" "p < STATE_DISCARDED"
  shows "um_tx_inv (um_tx_discard_sdu d p t)"
proof -
  have "um_tx_inv (t\<lparr>tx_sdu_queue := snd (q_try_discard p (tx_sdu_queue t))\<rparr>)"
    using q_try_discard_spec(1) [of "tx_sdu_queue t" p] assms by (intro um_tx_queue_inv) (simp_all add: um_tx_inv_def)
  then show ?thesis
    by (simp add: um_tx_discard_sdu_def split_beta Let_def)
qed

lemma um_tx_pull_inv:
  assumes "um_tx_inv t" "length grant < 4294967296"
  shows "succeeds (um_tx_pull_pdu grant t) (\<lambda>(_, _, t'). um_tx_inv t')"
  by (rule um_tx_pull_cases [OF assms]) (simp_all add: um_part_sent_inv)

subsection \<open>Reachable states\<close>

inductive um_tx_step :: "rlc_tx_um_entity \<Rightarrow> rlc_tx_um_entity \<Rightarrow> bool" where
  sdu: "um_tx_handle_sdu d buf t = Inr t' \<Longrightarrow> buf \<noteq> [] \<Longrightarrow> length buf \<le> 65536 \<Longrightarrow> um_tx_step t t'"
| discard: "p < STATE_DISCARDED \<Longrightarrow> um_tx_step t (um_tx_discard_sdu d p t)"
| update: "um_tx_step t (run_deferred_update t)"
| pull: "um_tx_pull_pdu grant t = Inr (buf, n, t') \<Longrightarrow> length grant < 4294967296 \<Longrightarrow> um_tx_step t t'"

inductive um_tx_steps :: "rlc_tx_um_entity \<Rightarrow> rlc_tx_um_entity \<Rightarrow> bool" for t where
  start: "um_tx_steps t t"
| step: "um_tx_steps t t1 \<Longrightarrow> um_tx_step t1 t2 \<Longrightarrow> um_tx_steps t t2"

lemma um_tx_keeps_cfg:
  "tx_cfg (handle_changed_buffer_state d t) = tx_cfg t"
  "tx_cfg (um_tx_discard_sdu d p t) = tx_cfg t"
  "tx_cfg (run_deferred_update t) = tx_cfg t"
  "um_tx_handle_sdu d buf t = Inr t' \<Longrightarrow> tx_cfg t' = tx_cfg t"
  by (auto simp: um_tx_handle_sdu_def um_tx_discard_sdu_def handle_changed_buffer_state_def Let_def split_beta rbind_eq_Inr
      run_deferred_update_def update_mac_buffer_state_def)

lemma um_tx_step_inv:
  assumes "um_tx_step t t'" "um_tx_inv t"
  shows "um_tx_inv t' \<and> tx_cfg t' = tx_cfg t"
  using assms(1)
proof cases
  case (sdu d buf)
  then show ?thesis
    using um_tx_handle_sdu_inv [OF assms(2), of buf d] um_tx_keeps_cfg(4) by auto
next
  case (pull grant buf n)
  show ?thesis
    by (rule um_tx_pull_cases [OF assms(2) pull(2)])
      (use pull in \<open>auto simp: um_part_sent_inv\<close>, auto simp: um_part_sent_def)
qed (use assms(2) um_tx_discard_sdu_inv um_tx_keeps_cfg in auto)

lemma um_tx_steps_inv:
  "um_tx_steps t t' \<Longrightarrow> um_tx_inv t \<Longrightarrow> um_tx_inv t' \<and> tx_cfg t' = tx_cfg t"
  by (induction rule: um_tx_steps.induct) (use um_tx_step_inv in auto)

text \<open>The queue capacity is the configured size modulo \<open>2 ^ 16\<close>; it must not become zero.\<close>

lemma um_tx_new_inv:
  assumes "rlc_tx_um_entity_new cfg = Inr t" "(ucast (tx_queue_size cfg) :: u16) \<noteq> 0"
  shows "um_tx_inv t" "tx_cfg t = cfg"
proof -
  have "0 < unat (ucast (tx_queue_size cfg) :: u16)"
    using assms(2) by (metis gr0I unat_eq_0)
  moreover have "unat (ucast (tx_queue_size cfg) :: u16) < 65536" "unat (tx_queue_size_bytes cfg) < 4294967296"
    using unsigned_less [where 'a = nat and w = "ucast (tx_queue_size cfg) :: u16"] unsigned_less [where 'a = nat and w = "tx_queue_size_bytes cfg"] by simp_all
  ultimately show "um_tx_inv t" "tx_cfg t = cfg"
    using assms(1) q_new_inv(1)
    by (auto simp: rlc_tx_um_entity_new_def um_tx_inv_def rlc_sdu_none_def sdu_queue_new_def word_gt_0 uint_um_mod word_uint_eq_iff split: if_splits)
qed

lemma um_part_header_wf:
  assumes "um_sending sdu k t" "um_part_si (length sdu) k j \<noteq> full_sdu" "0 < j"
  shows "um_header_wf (um_part_header t (length sdu) k j)"
proof -
  let ?sz = "tx_sn_field_length (tx_cfg t)"
  have k: "(of_nat k :: u16) = 0 \<longleftrightarrow> k = 0"
    using assms(1) by (simp add: um_sending_def word_unat_eq_iff unsigned_of_nat take_bit_nat_eq_self)
  have "unat (tx_next t) < 2 ^ um_sn_size_to_number ?sz"
    using assms(1) by (simp add: um_sending_def um_mod_power word_less_nat_alt) (cases ?sz; simp)
  then have "unat (ucast (tx_next t) :: u16) < cardinality (um_sn_size_to_number ?sz)"
    by (cases ?sz) (simp_all add: cardinality_def unsigned_ucast_eq take_bit_nat_eq_self)
  then show ?thesis
    using assms(2,3) k by (auto simp: um_header_wf_def um_part_header_def um_part_si_def)
qed

text \<open>The header the receiver finds: in a complete SDU neither number nor offset is sent.\<close>

lemma um_part_read:
  assumes "um_sending sdu k t" "0 < j"
  shows "\<exists>h. rlc_um_read_data_pdu_header (um_header_bytes (um_part_header t (length sdu) k j) @ payload)
      (tx_sn_field_length (tx_cfg t)) = Some h \<and> um_si h = um_part_si (length sdu) k j \<and>
    rlc_um_nr_packed_length h = length (um_header_bytes (um_part_header t (length sdu) k j)) \<and>
    (um_si h \<noteq> full_sdu \<longrightarrow> h = um_part_header t (length sdu) k j)"
proof (cases "um_part_si (length sdu) k j = full_sdu")
  case True
  let ?h = "um_part_header t (length sdu) k j"
  let ?h' = "?h\<lparr>um_sn := 0, um_so := 0\<rparr>"
  have "um_header_bytes ?h = um_header_bytes ?h'"
    using True by (simp add: um_header_bytes_def um_part_header_def)
  moreover have "um_header_wf ?h'"
    using True by (simp add: um_header_wf_def um_part_header_def cardinality_def)
  ultimately show ?thesis
    using um_header_read_back [of ?h' payload] True by (simp add: packed_length_bytes um_part_header_def)
next
  case False
  then show ?thesis
    using um_header_read_back [OF um_part_header_wf [OF assms(1) False assms(2)], of payload]
    by (simp add: packed_length_bytes um_part_header_def)
qed

text \<open>When every queued SDU is discarded, reading fails but leaves the last of them in the variable.\<close>

lemma q_read_discarded:
  assumes "q_inv q" "pending q = []"
  shows "\<exists>q'. q_read sdu q = (False, last (sdu # q_queue q), q') \<and> q_queue q' = []"
  using assms
proof (induction "q_queue q" arbitrary: q sdu)
  case Nil
  from Nil(1) [symmetric] show ?case
    by (subst q_read.simps) simp
next
  case (Cons s xs)
  note pop = q_pop_spec [OF Cons.prems(1) Cons.hyps(2) [symmetric]]
  have inv: "\<not> q_valid q s" "pending (snd (q_pop q s xs)) = []"
    using pop(4) Cons.prems(2) by (auto split: if_splits)
  from Cons.hyps(1) [OF pop(2) [symmetric] pop(3) inv(2), of s] show ?case
    using pop(1,2) inv(1) by (simp add: q_read_Cons [OF Cons.hyps(2) [symmetric]] flip: Cons.hyps(2))
qed

text \<open>A failed attempt to defer an update leaves the entity in a state that queues no updates any more.\<close>

definition um_updates_lost :: "u32 list \<Rightarrow> rlc_tx_um_entity \<Rightarrow> bool" where
  "um_updates_lost us t \<longleftrightarrow> pending_buffer_state t \<and> deferred_updates t = 0 \<and> buffer_state_updates t = us"

lemma um_tx_next_sdu_updates:
  "pending_buffer_state (snd (um_tx_next_sdu t)) = pending_buffer_state t"
  "deferred_updates (snd (um_tx_next_sdu t)) = deferred_updates t"
  "buffer_state_updates (snd (um_tx_next_sdu t)) = buffer_state_updates t"
  by (auto simp: um_tx_next_sdu_def Let_def split_beta split: option.splits)

lemma um_tx_pull_updates:
  assumes "um_tx_pull_pdu grant t = Inr (buf, n, t')" "um_tx_inv t" "length grant < 4294967296"
  shows "um_updates_lost us t' = um_updates_lost us t"
proof (rule um_tx_pull_cases [OF assms(2,3)])
  fix t1 sdu k j pdu
  assume "um_tx_next_sdu t = (True, t1)"
    "um_tx_pull_pdu grant t = Inr (pdu @ drop (length pdu) grant, length pdu, um_part_sent (length sdu) k j t1)"
  then show ?thesis
    using assms(1) um_tx_next_sdu_updates [of t] by (simp add: um_updates_lost_def) (simp add: um_part_sent_def)
next
  fix t1
  assume "um_tx_pull_pdu grant t = Inr (grant, 0, t1)"
    "t1 = t \<and> length grant \<le> 1 \<or> t1 = snd (um_tx_next_sdu t) \<and> (length grant \<le> 4 \<or> \<not> fst (um_tx_next_sdu t))"
  then show ?thesis
    using assms(1) um_tx_next_sdu_updates [of t] by (auto simp: um_updates_lost_def)
qed

lemma um_updates_lost_step:
  assumes "um_tx_step t t'" "um_tx_inv t" "um_updates_lost us t"
  shows "um_updates_lost us t'"
  using assms(1)
proof cases
  case (pull grant buf n)
  then show ?thesis using um_tx_pull_updates assms(2,3) by blast
qed (use assms(3) in \<open>auto simp: um_tx_handle_sdu_def um_tx_discard_sdu_def run_deferred_update_def handle_changed_buffer_state_def
    um_updates_lost_def Let_def rbind_eq_Inr split_beta\<close>)

subsection \<open>Properties\<close>

text \<open>C14. In every state that SDUs, discards, grants and buffer state updates lead to, a grant of any size
  is served: nothing is written behind the PDU, the PDU fits the grant, and if it is not empty the
  receiver's parser accepts it, finds a payload behind the header and, in segments, the sequence number
  of the entity.\<close>

theorem um_tx_pdus_fit:
  assumes "rlc_tx_um_entity_new cfg = Inr t0" "(ucast (tx_queue_size cfg) :: u16) \<noteq> 0" "um_tx_steps t0 t"
    and "length grant < 4294967296"
  shows "\<exists>buf n t'. um_tx_pull_pdu grant t = Inr (buf, n, t') \<and> n \<le> length grant \<and> length buf = length grant \<and>
    drop n buf = drop n grant \<and>
    (n > 0 \<longrightarrow> (\<exists>h. rlc_um_read_data_pdu_header (take n buf) (tx_sn_field_length cfg) = Some h \<and>
      rlc_um_nr_packed_length h < n \<and> (um_si h \<noteq> full_sdu \<longrightarrow> um_sn h = ucast (tx_next t))))"
proof -
  have inv: "um_tx_inv t" "tx_cfg t = cfg"
    using um_tx_steps_inv [OF assms(3)] um_tx_new_inv [OF assms(1,2)] by simp_all
  show ?thesis
  proof (rule um_tx_pull_cases [OF inv(1) assms(4)])
    fix t1 sdu k j pdu
    assume a: "tx_cfg t1 = tx_cfg t" "tx_next t1 = tx_next t" "um_sending sdu k t1" "0 < j" "k + j \<le> length sdu"
      "pdu = um_header_bytes (um_part_header t1 (length sdu) k j) @ take j (drop k sdu)" "length pdu \<le> length grant"
      "um_tx_pull_pdu grant t = Inr (pdu @ drop (length pdu) grant, length pdu, um_part_sent (length sdu) k j t1)"
    from um_part_read [OF a(3,4), of "take j (drop k sdu)"] a(1,2,4-6) inv(2)
    have "\<exists>h. rlc_um_read_data_pdu_header pdu (tx_sn_field_length cfg) = Some h \<and>
      rlc_um_nr_packed_length h < length pdu \<and> (um_si h \<noteq> full_sdu \<longrightarrow> um_sn h = ucast (tx_next t))"
      by (auto simp: um_part_header_def)
    then show ?thesis
      using a(7,8) by simp
  qed simp
qed

definition um_tx_demo_cfg :: rlc_tx_um_config where
  "um_tx_demo_cfg = \<lparr>tx_sn_field_length = size12bits, tx_pdcp_sn_len = pdcp_size12bits, tx_queue_size = 4, tx_queue_size_bytes = 4096\<rparr>"

theorem um_tx_pdus_fit_witness:
  "\<exists>t0 buf n t'. rlc_tx_um_entity_new um_tx_demo_cfg = Inr t0 \<and> um_tx_pull_pdu [0, 0, 0] t0 = Inr (buf, n, t')"
proof -
  obtain t0 where t0: "rlc_tx_um_entity_new um_tx_demo_cfg = Inr t0"
    by (simp add: rlc_tx_um_entity_new_def um_tx_demo_cfg_def)
  then show ?thesis
    using um_tx_pdus_fit [OF t0 _ um_tx_steps.start, of "[0, 0, 0]"] by (fastforce simp: um_tx_demo_cfg_def)
qed

text \<open>C33. An SDU that the upper layer discarded is transmitted nevertheless when nothing else is queued:
  the first grant finds no SDU but leaves the discarded one in the entity, and the next grant sends it.\<close>

theorem um_tx_sends_discarded_sdu:
  assumes "um_tx_inv t" "sdu_buf (tx_sdu t) = []" "pending (tx_sdu_queue t) = []" "q_queue (tx_sdu_queue t) \<noteq> []"
    and "length (sdu_buf (last (q_queue (tx_sdu_queue t)))) < length grant" "length grant < 4294967296"
  shows "\<exists>t1 buf t2. um_tx_pull_pdu grant t = Inr (grant, 0, t1) \<and>
    um_tx_pull_pdu grant t1 = Inr (buf, length (sdu_buf (last (q_queue (tx_sdu_queue t)))) + 1, t2) \<and>
    take (length (sdu_buf (last (q_queue (tx_sdu_queue t)))) + 1) buf = 0 # sdu_buf (last (q_queue (tx_sdu_queue t)))"
proof -
  let ?s = "last (q_queue (tx_sdu_queue t))"
  obtain q' where q': "q_read (tx_sdu t) (tx_sdu_queue t) = (False, ?s, q')"
    using q_read_discarded [OF _ assms(3), of "tx_sdu t"] assms(1,4) by (auto simp: um_tx_inv_def)
  define t1 where "t1 = t\<lparr>tx_sdu := ?s, tx_sdu_queue := q'\<rparr>"
  have n: "um_tx_next_sdu t = (False, t1)"
    using q' assms(2) by (simp add: um_tx_next_sdu_def t1_def)
  have s: "sdu_buf ?s \<noteq> []" "length (sdu_buf ?s) \<le> 65536"
    using assms(1) last_in_set [OF assms(4)] by (auto simp: um_tx_inv_def um_sdu_ok_def)
  have g: "1 < length grant" "\<not> (of_nat (length grant) :: u32) \<le> head_len_full"
    using s(1) assms(5,6) by (cases "sdu_buf ?s"; simp add: word_le_nat_alt head_len_nat unsigned_of_nat take_bit_nat_eq_self)+
  have first: "um_tx_pull_pdu grant t = Inr (grant, 0, t1)"
    using n g(2) by (simp add: um_tx_pull_pdu_def)
  have send: "um_sending (sdu_buf ?s) 0 t1"
    using s assms(1,2) by (simp add: um_sending_def t1_def um_tx_inv_def)
  have j: "um_part_len t1 (length (sdu_buf ?s)) 0 (length grant) = length (sdu_buf ?s)"
    using assms(5) by (auto simp: um_part_len_def)
  have hdr: "um_header_bytes (um_part_header t1 (length (sdu_buf ?s)) 0 (length (sdu_buf ?s))) = [0]"
    by (simp add: um_header_bytes_def um_part_header_def um_part_si_def)
  have "um_tx_next_sdu t1 = (True, t1)"
    using s(1) by (simp add: um_tx_next_sdu_def t1_def)
  then have "um_tx_pull_pdu grant t1 = um_tx_assemble grant t1"
    using g(2) by (simp add: um_tx_pull_pdu_def)
  then show ?thesis
    using first um_tx_assemble_spec [OF send g(1) assms(6)] s(1) by (simp add: j hdr)
qed

definition um_tx_demo :: rlc_tx_um_entity where
  "um_tx_demo = projr (rlc_tx_um_entity_new um_tx_demo_cfg)"

definition um_tx_demo_sdu :: rlc_tx_um_entity where
  "um_tx_demo_sdu = projr (um_tx_handle_sdu True [0x80, 1, 7] um_tx_demo)"

lemma um_tx_demo_inv: "um_tx_inv um_tx_demo" "um_tx_inv um_tx_demo_sdu"
proof -
  have "rlc_tx_um_entity_new um_tx_demo_cfg = Inr um_tx_demo"
    by (simp add: um_tx_demo_def rlc_tx_um_entity_new_def um_tx_demo_cfg_def)
  then show inv: "um_tx_inv um_tx_demo"
    by (rule um_tx_new_inv) (simp add: um_tx_demo_cfg_def)
  show "um_tx_inv um_tx_demo_sdu"
    using succeedsD [OF um_tx_handle_sdu_inv [OF inv, of "[0x80, 1, 7]" True]] by (auto simp: um_tx_demo_sdu_def)
qed

theorem um_tx_sends_discarded_sdu_witness:
  "\<exists>t1 buf t2. um_tx_pull_pdu [0, 0, 0, 0] (um_tx_discard_sdu True 1 um_tx_demo_sdu) = Inr ([0, 0, 0, 0], 0, t1) \<and>
    um_tx_pull_pdu [0, 0, 0, 0] t1 = Inr (buf, 4, t2) \<and> take 4 buf = [0, 0x80, 1, 7]"
proof -
  let ?t = "um_tx_discard_sdu True 1 um_tx_demo_sdu"
  have q: "q_queue (tx_sdu_queue ?t) = [\<lparr>sdu_buf = [0x80, 1, 7], sdu_pdcp_sn = Some 1\<rparr>]" "sdu_buf (tx_sdu ?t) = []"
      "pending (tx_sdu_queue ?t) = []"
    by code_simp+
  have four: "(4 :: nat) = Suc (Suc (Suc (Suc 0)))"
    by simp
  have "um_tx_inv ?t"
    by (rule um_tx_discard_sdu_inv [OF um_tx_demo_inv(2)]) (simp add: STATE_DISCARDED_def)
  from um_tx_sends_discarded_sdu [OF this q(2,3), of "[0, 0, 0, 0]"] show ?thesis
    by (simp add: q(1) four)
qed

text \<open>When the executor refuses the task that reports the buffer state, the flag stays set and no update
  is sent to the lower layer again, whatever SDUs arrive later.\<close>

theorem um_tx_updates_lost:
  assumes "um_tx_inv t" "\<not> pending_buffer_state t" "deferred_updates t = 0"
    and "um_tx_steps (handle_changed_buffer_state False t) t'"
  shows "buffer_state_updates t' = buffer_state_updates t"
proof -
  let ?t = "handle_changed_buffer_state False t"
  have "um_updates_lost (buffer_state_updates t) ?t" "um_tx_inv ?t"
    using assms(1-3) by (simp_all add: um_updates_lost_def) (simp_all add: handle_changed_buffer_state_def)
  with assms(4) have "um_updates_lost (buffer_state_updates t) t'"
  proof (induction rule: um_tx_steps.induct)
    case (step t1 t2)
    then show ?case
      using um_updates_lost_step [OF step.hyps(2)] um_tx_steps_inv [OF step.hyps(1)] by blast
  qed
  then show ?thesis
    by (simp add: um_updates_lost_def)
qed

theorem um_tx_updates_lost_witness:
  "\<exists>t'. um_tx_handle_sdu True [0x80, 1, 7] (handle_changed_buffer_state False um_tx_demo) = Inr t' \<and>
    buffer_state_updates (run_deferred_update t') = buffer_state_updates um_tx_demo"
proof -
  let ?t = "handle_changed_buffer_state False um_tx_demo"
  have flags: "\<not> pending_buffer_state um_tx_demo" "deferred_updates um_tx_demo = 0"
    by (simp_all add: um_tx_demo_def rlc_tx_um_entity_new_def um_tx_demo_cfg_def)
  obtain t' where t': "um_tx_handle_sdu True [0x80, 1, 7] ?t = Inr t'"
    using succeedsD [OF um_tx_handle_sdu_inv [of ?t "[0x80, 1, 7]" True]] um_tx_demo_inv(1) by auto
  then have "um_tx_step ?t t'"
    by (rule um_tx_step.sdu) simp_all
  then have "um_tx_steps ?t (run_deferred_update t')"
    by (intro um_tx_steps.step [OF um_tx_steps.step [OF um_tx_steps.start] um_tx_step.update])
  from um_tx_updates_lost [OF um_tx_demo_inv(1) flags this] t' show ?thesis
    by blast
qed

end
