(* ===== verification/Rlc_Um_Link.thy ===== *)
theory Rlc_Um_Link
  imports Rlc_Um_Tx
begin

text \<open>
  The transmitting and the receiving entity of unacknowledged mode over a link that neither loses
  nor reorders PDUs: every PDU the transmitter builds for a grant (\<^verbatim>\<open>pull_pdu\<close>) is handed to the
  receiver (\<^verbatim>\<open>handle_pdu\<close>). The two are related by a simulation: the receiver is idle at the number the
  transmitter sends next, or holds exactly the bytes sent of the current SDU.
\<close>

definition um_link_step :: "byte list \<Rightarrow> rlc_tx_um_entity \<times> rlc_rx_um_entity \<Rightarrow> (rlc_tx_um_entity \<times> rlc_rx_um_entity) result" where
  "um_link_step grant = (\<lambda>(t, e).
     rbind (um_tx_pull_pdu grant t) (\<lambda>(buf, n, t').
       if n = 0 then Inr (t', e) else rbind (um_handle_pdu (take n buf) e) (\<lambda>e'. Inr (t', e'))))"

fun um_link_run :: "byte list list \<Rightarrow> rlc_tx_um_entity \<times> rlc_rx_um_entity \<Rightarrow> (rlc_tx_um_entity \<times> rlc_rx_um_entity) result" where
  "um_link_run [] s = Inr s"
| "um_link_run (g # gs) s = rbind (um_link_step g s) (um_link_run gs)"

text \<open>The SDUs that are not yet sent completely, and how many of their bytes are left.\<close>

definition um_outstanding :: "rlc_tx_um_entity \<Rightarrow> byte list list" where
  "um_outstanding t = (if sdu_buf (tx_sdu t) = [] then [] else [sdu_buf (tx_sdu t)]) @ map sdu_buf (pending (tx_sdu_queue t))"

definition um_left :: "rlc_tx_um_entity \<Rightarrow> nat" where
  "um_left t = sum_list (map length (um_outstanding t)) - unat (next_so t)"

definition um_linked :: "rlc_tx_um_entity \<Rightarrow> rlc_rx_um_entity \<Rightarrow> bool" where
  "um_linked t e \<longleftrightarrow> um_tx_inv t \<and> pending (tx_sdu_queue t) = q_queue (tx_sdu_queue t) \<and>
     sn_field_length e = tx_sn_field_length (tx_cfg t) \<and>
     (if next_so t = 0 then um_idle (tx_next t) e else um_partial (tx_next t) (sdu_buf (tx_sdu t)) (unat (next_so t)) e)"

lemma um_link_next:
  assumes "um_linked t e" "um_tx_next_sdu t = (ok, t1)"
  shows "um_linked t1 e" "um_outstanding t1 = um_outstanding t" "next_so t1 = next_so t" "\<not> ok \<Longrightarrow> um_outstanding t = []"
proof -
  have inv: "um_tx_inv t" "pending (tx_sdu_queue t) = q_queue (tx_sdu_queue t)" "q_inv (tx_sdu_queue t)"
    using assms(1) by (simp_all add: um_linked_def um_tx_inv_def)
  have "um_linked t1 e \<and> um_outstanding t1 = um_outstanding t \<and> next_so t1 = next_so t \<and> (\<not> ok \<longrightarrow> um_outstanding t = [])"
  proof (cases "sdu_buf (tx_sdu t) = []")
    case False
    then show ?thesis
      using assms by (simp add: um_tx_next_sdu_def)
  next
    case True
    then have so: "next_so t = 0"
      using inv(1) by (simp add: um_tx_inv_def)
    note t1 = um_tx_next_sdu_inv [OF inv(1) assms(2)]
    show ?thesis
    proof (cases "q_queue (tx_sdu_queue t)")
      case Nil
      then have "q_read (tx_sdu t) (tx_sdu_queue t) = (False, tx_sdu t, tx_sdu_queue t)"
        by (subst q_read.simps) simp
      then show ?thesis
        using assms True Nil inv(2) by (auto simp: um_tx_next_sdu_def um_outstanding_def)
    next
      case (Cons s xs)
      obtain q' where q': "q_read (tx_sdu t) (tx_sdu_queue t) = (True, s, q')" "q_queue q' = xs" "pending q' = xs"
        by (rule q_read_undiscarded [OF inv(3,2) Cons])
      then have "tx_sdu_queue t1 = q'" "tx_sdu t1 = s" "next_so t1 = next_so t" ok
        using assms(2) True by (auto simp: um_tx_next_sdu_def Let_def split: option.splits)
      then show ?thesis
        using t1 q'(2,3) assms(1) so True Cons inv(2)
        by (auto simp: um_linked_def um_outstanding_def)
    qed
  qed
  then show "um_linked t1 e" "um_outstanding t1 = um_outstanding t" "next_so t1 = next_so t" "\<not> ok \<Longrightarrow> um_outstanding t = []"
    by simp_all
qed

text \<open>Sending the bytes \<open>k..k + j\<close>: what remains.\<close>

lemma um_part_outstanding:
  assumes "um_sending sdu k t" "0 < j" "k + j \<le> length sdu"
  shows "um_outstanding t = (if k + j < length sdu then um_outstanding (um_part_sent (length sdu) k j t)
      else sdu # um_outstanding (um_part_sent (length sdu) k j t))"
    "um_left t = um_left (um_part_sent (length sdu) k j t) + j"
proof -
  have s: "sdu_buf (tx_sdu t) = sdu" "sdu \<noteq> []" "unat (next_so t) = k" "length sdu \<le> 65536"
    using assms(1) by (auto simp: um_sending_def)
  then show *: "um_outstanding t = (if k + j < length sdu then um_outstanding (um_part_sent (length sdu) k j t)
      else sdu # um_outstanding (um_part_sent (length sdu) k j t))"
    by (simp add: um_outstanding_def um_part_sent_def)
  have so: "unat (of_nat (k + j) :: u32) = k + j"
    using assms(3) s(4) by (simp add: unsigned_of_nat take_bit_nat_eq_self del: of_nat_add)
  show "um_left t = um_left (um_part_sent (length sdu) k j t) + j"
  proof (cases "k + j < length sdu")
    case True
    then show ?thesis
      using s(1-3) so by (simp add: um_left_def um_part_sent_def um_outstanding_def del: of_nat_add)
  next
    case False
    then show ?thesis
      using s(1-3) assms(3) by (simp add: um_left_def um_part_sent_def um_outstanding_def)
  qed
qed

lemma um_link_part:
  assumes "um_linked t e" "um_sending sdu k t" "0 < j" "k + j \<le> length sdu"
  defines "h \<equiv> um_part_header t (length sdu) k j" and "t' \<equiv> um_part_sent (length sdu) k j t"
  shows "succeeds (um_handle_pdu (um_header_bytes h @ take j (drop k sdu)) e) (\<lambda>e'. um_linked t' e' \<and>
    delivered e' @ um_outstanding t' = delivered e @ um_outstanding t)"
proof -
  let ?n = "tx_next t" and ?sz = "tx_sn_field_length (tx_cfg t)"
  have inv: "um_tx_inv t" "pending (tx_sdu_queue t) = q_queue (tx_sdu_queue t)" "sn_field_length e = ?sz"
      "if next_so t = 0 then um_idle ?n e else um_partial ?n (sdu_buf (tx_sdu t)) (unat (next_so t)) e"
    using assms(1) by (simp_all add: um_linked_def)
  have s: "sdu_buf (tx_sdu t) = sdu" "sdu \<noteq> []" "unat (next_so t) = k" "length sdu \<le> 65536" "?n < um_mod ?sz" "k < length sdu"
    using assms(2) by (auto simp: um_sending_def)
  have link: "um_linked t' e'" if "sn_field_length e' = ?sz"
      "if k + j < length sdu then um_partial ?n sdu (k + j) e' else um_idle (tx_next t') e'" for e'
  proof -
    have so: "unat (of_nat (k + j) :: u32) = k + j" "k + j < length sdu \<Longrightarrow> (of_nat (k + j) :: u32) \<noteq> 0"
      using assms(3,4) s(4)
      by (simp_all add: unsigned_of_nat take_bit_nat_eq_self word_unat_eq_iff del: of_nat_add)
    show ?thesis
      using that um_part_sent_inv [OF inv(1) assms(2-4)] inv(2) s(1) so
      by (auto simp: um_linked_def t'_def um_part_sent_def simp del: of_nat_add split: if_splits)
  qed
  have out: "um_outstanding t = (if k + j < length sdu then um_outstanding t' else sdu # um_outstanding t')"
    using um_part_outstanding(1) [OF assms(2-4)] by (simp add: t'_def)
  have "unat ?n < 65536"
    using s(5) by (cases ?sz) (simp_all add: um_mod_power word_less_nat_alt)
  then have sn: "ucast (um_sn h) = ?n"
    by (simp add: h_def um_part_header_def word_unat_eq_iff unsigned_ucast_eq unsigned_take_bit_eq take_bit_nat_eq_self)
  have wf: "um_si h \<noteq> full_sdu \<Longrightarrow> um_header_wf h"
    using um_part_header_wf [OF assms(2) _ assms(3)] by (simp add: h_def um_part_header_def)
  have h: "um_sn_size h = sn_field_length e" "um_si h = um_part_si (length sdu) k j" "unat (um_so h) = k"
    using inv(3) s(4,6) by (simp_all add: h_def um_part_header_def unsigned_of_nat take_bit_nat_eq_self)
  consider (full) "k = 0" "j = length sdu" | (first) "k = 0" "j < length sdu"
    | (middle) "0 < k" "k + j < length sdu" | (last) "0 < k" "k + j = length sdu"
    using assms(4) by linarith
  then show ?thesis
  proof cases
    case full
    then have "um_si h = full_sdu"
      using h(2) by (simp add: um_part_si_def)
    from um_full_sdu [OF this h(1) s(2)] show ?thesis
      using full link [of "e\<lparr>delivered := delivered e @ [sdu]\<rparr>"] inv(3,4) s(3,5) out
      by (simp add: um_idle_def um_rx_inv_def t'_def um_part_sent_def flip: unat_eq_0)
  next
    case first
    then have si: "um_si h = first_segment" and idle: "um_idle ?n e"
      using h(2) inv(4) s(3) by (simp_all add: um_part_si_def flip: unat_eq_0)
    from um_first_segment [OF idle wf h(1) sn si assms(3) first(2) s(4)] si
    show ?thesis
      using first link inv(3) out by (auto elim!: succeeds_mono)
  next
    case middle
    then have si: "um_si h = middle_segment" and part: "um_partial ?n sdu k e"
      using h(2) inv(4) s(1,3) by (auto simp: um_part_si_def simp flip: unat_eq_0)
    have "um_si h = (if k + j = length sdu then last_segment else middle_segment)"
      using si middle by simp
    note seg = um_next_segment [OF part wf h(1) sn this h(3) assms(3,4) s(4)]
    have ne: "um_si h \<noteq> full_sdu"
      using si by simp
    show ?thesis
      unfolding seg(2) [OF ne] succeeds_simps
    proof (rule succeeds_mono [OF seg(1) [OF ne]])
      fix e1
      assume "\<exists>win info. e1 = e\<lparr>rx_window := win\<rparr> \<and> um_rx_inv e1 \<and> cm_lookup win = [unat ?n \<mapsto> info] \<and>
        sdu_info_ok sdu {..<k + j} info"
      then obtain win info where e1: "e1 = e\<lparr>rx_window := win\<rparr>" "um_rx_inv e1" "cm_lookup win = [unat ?n \<mapsto> info]"
          "sdu_info_ok sdu {..<k + j} info"
        by blast
      note um_middle_received [OF part e1 _ middle(2)]
      then show "succeeds (um_segment_received ?n e1) (\<lambda>e'. um_linked t' e' \<and>
          delivered e' @ um_outstanding t' = delivered e @ um_outstanding t)"
        using link [of e1] middle inv(3) out e1(1) by simp
    qed
  next
    case last
    then have si: "um_si h = last_segment" and part: "um_partial ?n sdu k e"
      using h(2) inv(4) s(1,3) by (auto simp: um_part_si_def simp flip: unat_eq_0)
    have "um_si h = (if k + j = length sdu then last_segment else middle_segment)"
      using si last by simp
    note seg = um_next_segment [OF part wf h(1) sn this h(3) assms(3,4) s(4)]
    have ne: "um_si h \<noteq> full_sdu"
      using si by simp
    have next': "tx_next t' = sn_next (sn_field_length e) ?n"
      using last inv(3) by (simp add: t'_def um_part_sent_def)
    show ?thesis
      unfolding seg(2) [OF ne] succeeds_simps
    proof (rule succeeds_mono [OF seg(1) [OF ne]])
      fix e1
      assume "\<exists>win info. e1 = e\<lparr>rx_window := win\<rparr> \<and> um_rx_inv e1 \<and> cm_lookup win = [unat ?n \<mapsto> info] \<and>
        sdu_info_ok sdu {..<k + j} info"
      then obtain win info where e1: "e1 = e\<lparr>rx_window := win\<rparr>" "um_rx_inv e1" "cm_lookup win = [unat ?n \<mapsto> info]"
          "sdu_info_ok sdu {..<length sdu} info"
        using last(2) by auto
      from um_last_received [OF part e1]
      show "succeeds (um_segment_received ?n e1) (\<lambda>e'. um_linked t' e' \<and>
          delivered e' @ um_outstanding t' = delivered e @ um_outstanding t)"
        by (rule succeeds_mono) (use link last inv(3) out next' in auto)
    qed
  qed
qed

lemma um_link_step_ok:
  assumes "um_linked t e" "length grant < 4294967296"
  shows "succeeds (um_link_step grant (t, e)) (\<lambda>(t', e'). um_linked t' e' \<and>
    delivered e' @ um_outstanding t' = delivered e @ um_outstanding t \<and>
    (4 < length grant \<longrightarrow> um_outstanding t \<noteq> [] \<longrightarrow> um_left t' < um_left t) \<and> um_left t' \<le> um_left t)"
proof -
  have inv: "um_tx_inv t"
    using assms(1) by (simp add: um_linked_def)
  show ?thesis
  proof (rule um_tx_pull_cases [OF inv assms(2)])
    fix t1
    assume a: "um_tx_pull_pdu grant t = Inr (grant, 0, t1)"
      "t1 = t \<and> length grant \<le> 1 \<or> t1 = snd (um_tx_next_sdu t) \<and> (length grant \<le> 4 \<or> \<not> fst (um_tx_next_sdu t))"
    have "um_linked t1 e \<and> um_outstanding t1 = um_outstanding t \<and> next_so t1 = next_so t \<and>
        (4 < length grant \<longrightarrow> um_outstanding t = [])"
      using a(2)
    proof
      assume "t1 = t \<and> length grant \<le> 1"
      then show ?thesis using assms(1) by simp
    next
      assume t1: "t1 = snd (um_tx_next_sdu t) \<and> (length grant \<le> 4 \<or> \<not> fst (um_tx_next_sdu t))"
      then have "um_tx_next_sdu t = (fst (um_tx_next_sdu t), t1)"
        by simp
      from um_link_next [OF assms(1) this] t1 show ?thesis by auto
    qed
    then show ?thesis
      using a(1) by (auto simp: um_link_step_def um_left_def)
  next
    fix t1 sdu k j pdu
    assume a: "um_tx_next_sdu t = (True, t1)" "um_sending sdu k t1" "0 < j" "k + j \<le> length sdu"
      "pdu = um_header_bytes (um_part_header t1 (length sdu) k j) @ take j (drop k sdu)"
      "um_tx_pull_pdu grant t = Inr (pdu @ drop (length pdu) grant, length pdu, um_part_sent (length sdu) k j t1)"
    note n = um_link_next [OF assms(1) a(1)]
    have left: "um_left t = um_left (um_part_sent (length sdu) k j t1) + j"
      using um_part_outstanding(2) [OF a(2-4)] n(2,3) by (simp add: um_left_def)
    have "length pdu \<noteq> 0"
      using a(3-5) by simp
    then have "um_link_step grant (t, e) = rbind (um_handle_pdu pdu e) (\<lambda>e'. Inr (um_part_sent (length sdu) k j t1, e'))"
      using a(6) by (simp add: um_link_step_def)
    then show ?thesis
      using um_link_part [OF n(1) a(2-4)] n(2) left a(3) unfolding a(5)
      by (auto elim!: succeeds_mono)
  qed
qed

lemma um_left_0:
  assumes "um_tx_inv t" "pending (tx_sdu_queue t) = q_queue (tx_sdu_queue t)" "um_left t = 0"
  shows "um_outstanding t = []"
proof (rule ccontr)
  assume ne: "um_outstanding t \<noteq> []"
  show False
  proof (cases "sdu_buf (tx_sdu t) = []")
    case True
    then obtain s xs where q: "q_queue (tx_sdu_queue t) = s # xs"
      using ne assms(2) by (cases "q_queue (tx_sdu_queue t)") (auto simp: um_outstanding_def)
    then show False
      using assms True by (auto simp: um_left_def um_outstanding_def um_tx_inv_def um_sdu_ok_def)
  next
    case False
    then show False
      using assms by (auto simp: um_left_def um_outstanding_def um_tx_inv_def um_sending_def)
  qed
qed

lemma um_link_run_ok:
  assumes "um_linked t e" "\<forall>g\<in>set gs. length g < 4294967296"
  shows "succeeds (um_link_run gs (t, e)) (\<lambda>(t', e'). um_linked t' e' \<and>
    delivered e' @ um_outstanding t' = delivered e @ um_outstanding t \<and>
    ((\<forall>g\<in>set gs. 4 < length g) \<longrightarrow> um_left t' \<le> um_left t - length gs))"
  using assms
proof (induction gs arbitrary: t e)
  case Nil
  then show ?case by simp
next
  case (Cons g gs)
  have "length g < 4294967296"
    using Cons.prems(2) by simp
  from um_link_step_ok [OF Cons.prems(1) this] show ?case
    unfolding um_link_run.simps succeeds_simps
  proof (rule succeeds_mono, clarify)
    fix t1 e1
    assume a: "um_linked t1 e1" "delivered e1 @ um_outstanding t1 = delivered e @ um_outstanding t"
      "4 < length g \<longrightarrow> um_outstanding t \<noteq> [] \<longrightarrow> um_left t1 < um_left t" "um_left t1 \<le> um_left t"
    have "um_outstanding t = [] \<Longrightarrow> um_left t = 0"
      by (simp add: um_left_def)
    then have "4 < length g \<Longrightarrow> um_left t1 \<le> um_left t - 1"
      using a(3,4) by (cases "um_outstanding t = []") auto
    then show "succeeds (um_link_run gs (t1, e1)) (\<lambda>(t', e'). um_linked t' e' \<and>
        delivered e' @ um_outstanding t' = delivered e @ um_outstanding t \<and>
        ((\<forall>g\<in>set (g # gs). 4 < length g) \<longrightarrow> um_left t' \<le> um_left t - length (g # gs)))"
      using Cons.IH [OF a(1)] Cons.prems(2) a(2) by (auto elim!: succeeds_mono)
  qed
qed

subsection \<open>Submitting SDUs\<close>

fun um_tx_submit :: "byte list list \<Rightarrow> rlc_tx_um_entity \<Rightarrow> rlc_tx_um_entity result" where
  "um_tx_submit [] t = Inr t"
| "um_tx_submit (b # bs) t = rbind (um_tx_handle_sdu True b t) (um_tx_submit bs)"

definition um_fresh :: "rlc_tx_um_entity \<Rightarrow> bool" where
  "um_fresh t \<longleftrightarrow> um_tx_inv t \<and> pending (tx_sdu_queue t) = q_queue (tx_sdu_queue t) \<and> sdu_buf (tx_sdu t) = [] \<and> next_so t = 0 \<and>
     tx_next t = 0"

lemma q_write_undiscarded:
  assumes "q_inv q" "sdu_ok s" "pending q = q_queue q"
  shows "pending (snd (q_write s q)) = q_queue (snd (q_write s q))"
proof -
  have "q_queue (snd (q_write s q)) = (if fst (q_write s q) then q_queue q @ [s] else q_queue q)"
    by (auto simp: q_write_def Let_def spsc_try_push_def state_add_def split: option.splits)
  then show ?thesis
    using q_write_spec(4) [OF assms(1,2)] assms(3) by simp
qed

lemma um_handle_sdu_fresh:
  assumes "um_fresh t" "buf \<noteq> []" "length buf \<le> 65536"
  shows "succeeds (um_tx_handle_sdu d buf t) (\<lambda>t'. um_fresh t' \<and> tx_cfg t' = tx_cfg t)"
proof -
  have t: "um_tx_inv t" "q_inv (tx_sdu_queue t)"
    using assms(1) by (auto simp: um_fresh_def um_tx_inv_def)
  obtain t' where t': "um_tx_handle_sdu d buf t = Inr t'" "um_tx_inv t'"
    using succeedsD [OF um_tx_handle_sdu_inv [OF t(1) assms(2,3)]] by blast
  obtain r where r: "get_pdcp_sn buf (tx_pdcp_sn_len (tx_cfg t)) False = Inr r" "\<forall>sn. r = Some sn \<longrightarrow> sn < STATE_DISCARDED"
    using succeedsD [OF get_pdcp_sn_slot] by blast
  let ?q = "snd (q_write \<lparr>sdu_buf = buf, sdu_pdcp_sn = r\<rparr> (tx_sdu_queue t))"
  have "pending ?q = q_queue ?q"
    using assms(1) t(2) r(2) by (intro q_write_undiscarded) (auto simp: um_fresh_def sdu_ok_def)
  moreover have "tx_sdu_queue t' = ?q" "tx_sdu t' = tx_sdu t" "next_so t' = next_so t" "tx_next t' = tx_next t" "tx_cfg t' = tx_cfg t"
    using t'(1) r(1) by (auto simp: um_tx_handle_sdu_def handle_changed_buffer_state_def Let_def split_beta)
  ultimately show ?thesis
    using t' assms(1) by (simp add: um_fresh_def)
qed

lemma um_submit_fresh:
  assumes "um_fresh t" "\<forall>b\<in>set bufs. b \<noteq> [] \<and> length b \<le> 65536"
  shows "succeeds (um_tx_submit bufs t) (\<lambda>t'. um_fresh t' \<and> tx_cfg t' = tx_cfg t)"
  using assms
proof (induction bufs arbitrary: t)
  case Nil
  then show ?case by simp
next
  case (Cons b bufs)
  then have "b \<noteq> []" "length b \<le> 65536"
    by simp_all
  from um_handle_sdu_fresh [OF Cons.prems(1) this, of True] show ?case
    unfolding um_tx_submit.simps succeeds_simps
  proof (rule succeeds_mono)
    fix t1
    assume "um_fresh t1 \<and> tx_cfg t1 = tx_cfg t"
    then show "succeeds (um_tx_submit bufs t1) (\<lambda>t'. um_fresh t' \<and> tx_cfg t' = tx_cfg t)"
      using Cons.IH [of t1] Cons.prems(2) by simp
  qed
qed

lemma um_new_fresh:
  assumes "rlc_tx_um_entity_new cfg = Inr t" "(ucast (tx_queue_size cfg) :: u16) \<noteq> 0"
  shows "um_fresh t"
proof -
  have "sdu_buf (tx_sdu t) = []" "next_so t = 0" "tx_next t = 0" "q_queue (tx_sdu_queue t) = []"
    using assms(1) by (auto simp: rlc_tx_um_entity_new_def rlc_sdu_none_def sdu_queue_new_def split: if_splits)
  then show ?thesis
    using um_tx_new_inv [OF assms] by (simp add: um_fresh_def pending_def)
qed

lemma um_fresh_linked:
  assumes "um_fresh t"
  shows "um_linked t (rlc_rx_um_entity_new (tx_sn_field_length (tx_cfg t)))"
    "um_outstanding t = map sdu_buf (q_queue (tx_sdu_queue t))"
proof -
  have "cm_lookup (rx_window (rlc_rx_um_entity_new sz)) = Map.empty" for sz
    by (cases sz) (simp_all add: rlc_rx_um_entity_new_def create_rx_window_def window_size_def cardinality_def cm_lookup_new)
  then have "um_idle 0 (rlc_rx_um_entity_new sz)" for sz
    using um_rx_inv_new [of sz] by (simp add: um_idle_def) (simp add: rlc_rx_um_entity_new_def)
  then show "um_linked t (rlc_rx_um_entity_new (tx_sn_field_length (tx_cfg t)))"
    using assms by (simp add: um_linked_def um_fresh_def) (simp add: rlc_rx_um_entity_new_def)
  show "um_outstanding t = map sdu_buf (q_queue (tx_sdu_queue t))"
    using assms by (simp add: um_outstanding_def um_fresh_def)
qed

subsection \<open>Property\<close>

text \<open>C1. From the two new entities on: whatever SDUs are submitted and however large the grants are, the
  receiver delivers the SDUs the queue accepted, complete, unchanged and in order; at any time what is
  delivered and what the transmitter still holds are together exactly these SDUs. If every grant has more
  than four bytes and there is a grant for every byte, all of them are delivered.\<close>

theorem um_link_delivers:
  assumes "rlc_tx_um_entity_new cfg = Inr t0" "(ucast (tx_queue_size cfg) :: u16) \<noteq> 0"
    and "\<forall>b\<in>set bufs. b \<noteq> [] \<and> length b \<le> 65536" "um_tx_submit bufs t0 = Inr t"
    and "\<forall>g\<in>set grants. length g < 4294967296"
  defines "queued \<equiv> map sdu_buf (q_queue (tx_sdu_queue t))"
  shows "\<exists>t' e'. um_link_run grants (t, rlc_rx_um_entity_new (tx_sn_field_length cfg)) = Inr (t', e') \<and>
    delivered e' @ um_outstanding t' = queued \<and>
    ((\<forall>g\<in>set grants. 4 < length g) \<and> sum_list (map length queued) \<le> length grants \<longrightarrow> delivered e' = queued)"
proof -
  let ?e = "rlc_rx_um_entity_new (tx_sn_field_length cfg)"
  have t: "um_fresh t" "tx_cfg t = cfg"
    using um_submit_fresh [OF um_new_fresh [OF assms(1,2)] assms(3)] assms(4) um_tx_new_inv(2) [OF assms(1,2)] by simp_all
  have link: "um_linked t ?e" "um_outstanding t = queued"
    using um_fresh_linked [OF t(1)] t(2) by (simp_all add: queued_def)
  obtain t' e' where run: "um_link_run grants (t, ?e) = Inr (t', e')" "um_linked t' e'"
      "delivered e' @ um_outstanding t' = delivered ?e @ um_outstanding t"
      "(\<forall>g\<in>set grants. 4 < length g) \<longrightarrow> um_left t' \<le> um_left t - length grants"
    using succeedsD [OF um_link_run_ok [OF link(1) assms(5)]] by fastforce
  have "delivered ?e = []"
    by (simp add: rlc_rx_um_entity_new_def)
  moreover have "um_left t \<le> sum_list (map length queued)"
    by (simp add: um_left_def link(2))
  moreover have "um_left t' = 0 \<Longrightarrow> um_outstanding t' = []"
    using run(2) by (intro um_left_0) (simp_all add: um_linked_def)
  ultimately show ?thesis
    using run link(2) by auto
qed

theorem um_link_delivers_witness:
  "\<exists>t t' e'. um_tx_submit [[0x80, 1, 7, 8, 9], [1]] um_tx_demo = Inr t \<and>
    um_link_run (replicate 6 (replicate 5 0)) (t, rlc_rx_um_entity_new size12bits) = Inr (t', e') \<and>
    delivered e' = [[0x80, 1, 7, 8, 9], [1]]"
proof -
  let ?t = "projr (um_tx_submit [[0x80, 1, 7, 8, 9], [1]] um_tx_demo)"
  have new: "rlc_tx_um_entity_new um_tx_demo_cfg = Inr um_tx_demo" "tx_sn_field_length um_tx_demo_cfg = size12bits"
      "(ucast (tx_queue_size um_tx_demo_cfg) :: u16) \<noteq> 0"
    by (simp_all add: um_tx_demo_def rlc_tx_um_entity_new_def um_tx_demo_cfg_def)
  have t: "um_tx_submit [[0x80, 1, 7, 8, 9], [1]] um_tx_demo = Inr ?t"
    using succeedsD [OF um_submit_fresh [OF um_new_fresh [OF new(1,3)], of "[[0x80, 1, 7, 8, 9], [1]]"]] by auto
  have q: "map sdu_buf (q_queue (tx_sdu_queue ?t)) = [[0x80, 1, 7, 8, 9], [1]]"
    by code_simp
  from um_link_delivers [OF new(1,3) _ t, of "replicate 6 (replicate 5 0)"] show ?thesis
    using t unfolding q new(2) by auto
qed

end
