(* ===== verification/Sec_Types.thy ===== *)
theory Sec_Types
  imports Prelude
begin

text \<open>
  The types of \<^verbatim>\<open>include/srsran/security/security.h\<close> and \<^verbatim>\<open>include/srsran/security/security_engine.h\<close> that the
  security engines and PDCP share. A key of 128 bits is a list of 16 bytes.
\<close>

datatype ciphering_algorithm = nea0 | nea1 | nea2 | nea3

datatype integrity_algorithm = nia0 | nia1 | nia2 | nia3

datatype security_direction = sec_uplink | sec_downlink

fun security_direction_number :: "security_direction \<Rightarrow> byte" where
  "security_direction_number sec_uplink = 0"
| "security_direction_number sec_downlink = 1"

datatype sec_domain = sec_rrc | sec_up

type_synonym sec_128_key = "byte list"

definition sec_mac_len :: nat where
  "sec_mac_len = 4"

record sec_128_as_config =
  sec_dom :: sec_domain
  k_128_int :: "sec_128_key option"
  k_128_enc :: sec_128_key
  integ_algo :: "integrity_algorithm option"
  cipher_algo :: ciphering_algorithm

datatype security_error = buffer_failure | integrity_failure | ciphering_failure

type_synonym security_result = "security_error + byte list"

definition sec_max_pdu_size :: nat where
  "sec_max_pdu_size = 9100"

text \<open>An engine for one direction: buffer, offset of the ciphered part and COUNT. It may abort.\<close>

type_synonym security_fun = "byte list \<Rightarrow> nat \<Rightarrow> u32 \<Rightarrow> security_result result"

end
