(* ===== verification/Pdcp_Rx.thy ===== *)
theory Pdcp_Rx
  imports Circular_Map Pdcp_Pdu Sec_Types
begin

text \<open>
  The receiving PDCP entity, \<^verbatim>\<open>lib/pdcp/pdcp_entity_rx.h\<close> and \<^verbatim>\<open>.cpp\<close> with \<^verbatim>\<open>pdcp_sn.h\<close>,
  \<^verbatim>\<open>pdcp_entity_tx_rx_base.h\<close> and \<^verbatim>\<open>pdcp_rx_metrics_impl.h\<close>. The SDUs passed to the upper layer are recorded
  with the COUNT that is logged for them, and so are the other notifications. The reordering timer is
  the flag whether it runs; its expiry is an event. The security engine is the function it computes,
  and configuring security takes the constructor of the engines as a parameter. Copies of a PDU
  always succeed.
\<close>

subsection \<open>Sequence numbers\<close>

definition pdcp_compute_sn :: "u32 \<Rightarrow> pdcp_sn_size \<Rightarrow> u32" where
  "pdcp_compute_sn cnt sz = cnt AND drop_bit (32 - pdcp_sn_size_to_uint sz) 0xffffffff"

definition pdcp_compute_hfn :: "u32 \<Rightarrow> pdcp_sn_size \<Rightarrow> u32" where
  "pdcp_compute_hfn cnt sz = drop_bit (pdcp_sn_size_to_uint sz) cnt"

definition pdcp_compute_count :: "u32 \<Rightarrow> u32 \<Rightarrow> pdcp_sn_size \<Rightarrow> u32" where
  "pdcp_compute_count hfn sn sz = push_bit (pdcp_sn_size_to_uint sz) hfn OR sn"

definition pdcp_window_size :: "pdcp_sn_size \<Rightarrow> u32" where
  "pdcp_window_size sz = (if sz = pdcp_size12bits then 2048 else 131072)"

subsection \<open>State\<close>

datatype pdcp_rb_type = rb_srb | rb_drb

datatype pdcp_rlc_mode = mode_um | mode_am

text \<open>The reordering time in milliseconds.\<close>

datatype pdcp_t_reordering = reord_ms nat | reord_infinity

record pdcp_rx_config =
  rx_rb_type :: pdcp_rb_type
  rx_rlc_mode :: pdcp_rlc_mode
  rx_sn_size :: pdcp_sn_size
  rx_direction :: security_direction
  rx_t_reordering :: pdcp_t_reordering
  max_count_notify :: u32
  max_count_hard :: u32

record pdcp_rx_sdu_info =
  info_sdu :: "byte list"
  info_count :: u32

record pdcp_rx_metrics =
  num_pdus :: u32
  num_pdu_bytes :: u32
  num_dropped_pdus :: u32
  num_sdus :: u32
  num_sdu_bytes :: u32
  num_integrity_verified_pdus :: u32
  num_integrity_failed_pdus :: u32
  num_t_reordering_timeouts :: u32

datatype pdcp_rx_notification = On_Max_Count_Reached | On_Protocol_Failure | On_Integrity_Failure

record pdcp_entity_rx =
  p_cfg :: pdcp_rx_config
  p_sec_engine :: "security_fun option"
  p_integrity_enabled :: bool
  p_ciphering_enabled :: bool
  rx_next :: u32
  rx_deliv :: u32
  rx_reord :: u32
  p_rx_window :: "pdcp_rx_sdu_info circular_map"
  reordering_timer :: bool
  max_count_notified :: bool
  max_count_overflow :: bool
  p_sdus :: "(u32 \<times> byte list) list"
  p_notifications :: "pdcp_rx_notification list"
  p_status_reports :: "byte list list"
  p_metrics :: pdcp_rx_metrics

definition pdcp_rx_metrics_zero :: pdcp_rx_metrics where
  "pdcp_rx_metrics_zero = \<lparr>num_pdus = 0, num_pdu_bytes = 0, num_dropped_pdus = 0, num_sdus = 0, num_sdu_bytes = 0,
     num_integrity_verified_pdus = 0, num_integrity_failed_pdus = 0, num_t_reordering_timeouts = 0\<rparr>"

abbreviation p_is_srb :: "pdcp_entity_rx \<Rightarrow> bool" where
  "p_is_srb e \<equiv> rx_rb_type (p_cfg e) = rb_srb"

abbreviation p_is_um :: "pdcp_entity_rx \<Rightarrow> bool" where
  "p_is_um e \<equiv> rx_rlc_mode (p_cfg e) = mode_um"

definition pdcp_entity_rx_new :: "pdcp_rx_config \<Rightarrow> pdcp_entity_rx result" where
  "pdcp_entity_rx_new cfg =
     (if rx_sn_size cfg = pdcp_size_invalid then Inl Assertion_Failed
      else Inr \<lparr>p_cfg = cfg, p_sec_engine = None, p_integrity_enabled = False, p_ciphering_enabled = False,
                rx_next = 0, rx_deliv = 0, rx_reord = 0, p_rx_window = cm_new (unat (pdcp_window_size (rx_sn_size cfg))),
                reordering_timer = False, max_count_notified = False, max_count_overflow = False, p_sdus = [],
                p_notifications = [], p_status_reports = [], p_metrics = pdcp_rx_metrics_zero\<rparr>)"

subsection \<open>Metrics\<close>

definition metrics_add_sdus :: "nat \<Rightarrow> pdcp_entity_rx \<Rightarrow> pdcp_entity_rx" where
  "metrics_add_sdus n e = e\<lparr>p_metrics := (p_metrics e)\<lparr>num_sdus := num_sdus (p_metrics e) + 1,
     num_sdu_bytes := num_sdu_bytes (p_metrics e) + of_nat n\<rparr>\<rparr>"

definition metrics_add_pdus :: "nat \<Rightarrow> pdcp_entity_rx \<Rightarrow> pdcp_entity_rx" where
  "metrics_add_pdus n e = e\<lparr>p_metrics := (p_metrics e)\<lparr>num_pdus := num_pdus (p_metrics e) + 1,
     num_pdu_bytes := num_pdu_bytes (p_metrics e) + of_nat n\<rparr>\<rparr>"

definition metrics_add_dropped_pdus :: "pdcp_entity_rx \<Rightarrow> pdcp_entity_rx" where
  "metrics_add_dropped_pdus e = e\<lparr>p_metrics := (p_metrics e)\<lparr>num_dropped_pdus := num_dropped_pdus (p_metrics e) + 1\<rparr>\<rparr>"

definition metrics_add_integrity_verified_pdus :: "pdcp_entity_rx \<Rightarrow> pdcp_entity_rx" where
  "metrics_add_integrity_verified_pdus e =
     e\<lparr>p_metrics := (p_metrics e)\<lparr>num_integrity_verified_pdus := num_integrity_verified_pdus (p_metrics e) + 1\<rparr>\<rparr>"

definition metrics_add_integrity_failed_pdus :: "pdcp_entity_rx \<Rightarrow> pdcp_entity_rx" where
  "metrics_add_integrity_failed_pdus e =
     e\<lparr>p_metrics := (p_metrics e)\<lparr>num_integrity_failed_pdus := num_integrity_failed_pdus (p_metrics e) + 1\<rparr>\<rparr>"

definition metrics_add_t_reordering_timeouts :: "pdcp_entity_rx \<Rightarrow> pdcp_entity_rx" where
  "metrics_add_t_reordering_timeouts e =
     e\<lparr>p_metrics := (p_metrics e)\<lparr>num_t_reordering_timeouts := num_t_reordering_timeouts (p_metrics e) + 1\<rparr>\<rparr>"

definition p_notify :: "pdcp_rx_notification \<Rightarrow> pdcp_entity_rx \<Rightarrow> pdcp_entity_rx" where
  "p_notify n e = e\<lparr>p_notifications := p_notifications e @ [n]\<rparr>"

lemmas p_metrics_defs = metrics_add_sdus_def metrics_add_pdus_def metrics_add_dropped_pdus_def
  metrics_add_integrity_verified_pdus_def metrics_add_integrity_failed_pdus_def metrics_add_t_reordering_timeouts_def p_notify_def

subsection \<open>Delivery\<close>

text \<open>The SDU with a COUNT that is in the window is passed up and removed.\<close>

definition p_deliver :: "u32 \<Rightarrow> pdcp_entity_rx \<Rightarrow> pdcp_entity_rx result" where
  "p_deliver cnt e =
     rbind (cm_at (unat cnt) (p_rx_window e)) (\<lambda>sdu_info.
     let e1 = metrics_add_sdus (length (info_sdu sdu_info)) e;
         e2 = e1\<lparr>p_sdus := p_sdus e1 @ [(cnt, info_sdu sdu_info)]\<rparr>
     in rbind (window_remove_sn (unat cnt) (p_rx_window e2)) (\<lambda>win. Inr (e2\<lparr>p_rx_window := win\<rparr>)))"

lemma count_distance: "c \<noteq> n \<Longrightarrow> unat (n - (c + 1)) < unat (n - c)" for c n :: u32
proof -
  assume "c \<noteq> n"
  then have ne: "n - c \<noteq> 0"
    by simp
  have eq: "n - (c + 1) = n - c - 1"
    by simp
  show ?thesis
    using unat_minus_one [OF ne] ne unfolding eq by (metis diff_less less_numeral_extra(1) unat_gt_0)
qed

text \<open>The loops advance \<open>RX_DELIV\<close>; \<open>rx_deliv\<close> is their variable.\<close>

function p_consecutive_loop :: "u32 \<Rightarrow> u32 \<Rightarrow> pdcp_entity_rx \<Rightarrow> pdcp_entity_rx result" where
  "p_consecutive_loop nxt c e =
     (if c \<noteq> nxt \<and> cm_contains (unat c) (p_rx_window e)
      then rbind (p_deliver c e) (\<lambda>e1. p_consecutive_loop nxt (c + 1) (e1\<lparr>rx_deliv := c + 1\<rparr>))
      else Inr e)"
  by auto
termination
  by (relation "measure (\<lambda>(nxt, c, e). unat (nxt - c))") (auto simp: count_distance)

definition deliver_all_consecutive_counts :: "pdcp_entity_rx \<Rightarrow> pdcp_entity_rx result" where
  "deliver_all_consecutive_counts e = p_consecutive_loop (rx_next e) (rx_deliv e) e"

function p_deliver_all_loop :: "u32 \<Rightarrow> u32 \<Rightarrow> pdcp_entity_rx \<Rightarrow> pdcp_entity_rx result" where
  "p_deliver_all_loop nxt c e =
     (if c < nxt
      then rbind (if cm_contains (unat c) (p_rx_window e) then p_deliver c e else Inr e) (p_deliver_all_loop nxt (c + 1))
      else Inr e)"
  by auto
termination
  by (relation "measure (\<lambda>(nxt, c, e). unat (nxt - c))") (auto simp: count_distance)

definition deliver_all_sdus :: "pdcp_entity_rx \<Rightarrow> pdcp_entity_rx result" where
  "deliver_all_sdus e = p_deliver_all_loop (rx_next e) (rx_deliv e) e"

function p_discard_loop :: "u32 \<Rightarrow> u32 \<Rightarrow> pdcp_entity_rx \<Rightarrow> pdcp_entity_rx result" where
  "p_discard_loop nxt c e =
     (if c \<noteq> nxt
      then rbind (if cm_contains (unat c) (p_rx_window e) then window_remove_sn (unat c) (p_rx_window e)
                  else Inr (p_rx_window e)) (\<lambda>win.
           p_discard_loop nxt (c + 1) (e\<lparr>p_rx_window := win, rx_deliv := c + 1\<rparr>))
      else Inr e)"
  by auto
termination
  by (relation "measure (\<lambda>(nxt, c, e). unat (nxt - c))") (auto simp: count_distance)

definition discard_all_sdus :: "pdcp_entity_rx \<Rightarrow> pdcp_entity_rx result" where
  "discard_all_sdus e = p_discard_loop (rx_next e) (rx_deliv e) e"

declare p_consecutive_loop.simps [simp del] p_deliver_all_loop.simps [simp del] p_discard_loop.simps [simp del]

subsection \<open>Reordering timer\<close>

function p_expire_loop :: "u32 \<Rightarrow> u32 \<Rightarrow> pdcp_entity_rx \<Rightarrow> pdcp_entity_rx result" where
  "p_expire_loop reord c e =
     (if c \<noteq> reord
      then rbind (if cm_contains (unat c) (p_rx_window e) then p_deliver c e else Inr e) (\<lambda>e1.
           p_expire_loop reord (c + 1) (e1\<lparr>rx_deliv := c + 1\<rparr>))
      else Inr e)"
  by auto
termination
  by (relation "measure (\<lambda>(reord, c, e). unat (reord - c))") (auto simp: count_distance)

declare p_expire_loop.simps [simp del]

definition handle_t_reordering_expire :: "pdcp_entity_rx \<Rightarrow> pdcp_entity_rx result" where
  "handle_t_reordering_expire e =
     rbind (p_expire_loop (rx_reord e) (rx_deliv e) (metrics_add_t_reordering_timeouts e)) (\<lambda>e1.
     rbind (deliver_all_consecutive_counts e1) (\<lambda>e2.
     Inr (if rx_deliv e2 < rx_next e2 \<and> rx_t_reordering (p_cfg e2) \<noteq> reord_ms 0
          then e2\<lparr>rx_reord := rx_next e2, reordering_timer := True\<rparr> else e2)))"

subsection \<open>Data PDUs\<close>

definition pdcp_rcvd_count :: "pdcp_sn_size \<Rightarrow> u32 \<Rightarrow> u32 \<Rightarrow> u32" where
  "pdcp_rcvd_count sz deliv sn =
     (let rcvd_hfn =
            (if uint sn < uint (pdcp_compute_sn deliv sz) - uint (pdcp_window_size sz) then pdcp_compute_hfn deliv sz + 1
             else if sn \<ge> pdcp_compute_sn deliv sz + pdcp_window_size sz then pdcp_compute_hfn deliv sz - 1
             else pdcp_compute_hfn deliv sz)
      in pdcp_compute_count rcvd_hfn sn sz)"

text \<open>The check of the COUNT against the two limits; the flag says whether the PDU is refused.\<close>

definition p_check_max_count :: "u32 \<Rightarrow> pdcp_entity_rx \<Rightarrow> bool \<times> pdcp_entity_rx" where
  "p_check_max_count rcvd_count e =
     (let e1 = (if rcvd_count > max_count_notify (p_cfg e) \<and> \<not> max_count_notified e
                then (p_notify On_Max_Count_Reached e)\<lparr>max_count_notified := True\<rparr> else e)
      in if rcvd_count \<ge> max_count_hard (p_cfg e)
         then (True, if \<not> max_count_overflow e1 then (p_notify On_Protocol_Failure e1)\<lparr>max_count_overflow := True\<rparr> else e1)
         else (False, e1))"

definition p_security_verdict :: "security_result \<Rightarrow> pdcp_entity_rx \<Rightarrow> byte list option \<times> pdcp_entity_rx" where
  "p_security_verdict r e =
     (case r of
        Inl integrity_failure \<Rightarrow> (None, p_notify On_Integrity_Failure (metrics_add_integrity_failed_pdus e))
      | Inl ciphering_failure \<Rightarrow> (None, p_notify On_Protocol_Failure e)
      | Inl buffer_failure \<Rightarrow> (None, p_notify On_Protocol_Failure e)
      | Inr b \<Rightarrow> (Some b, metrics_add_integrity_verified_pdus e))"

definition apply_deciphering_and_integrity_check ::
  "byte list \<Rightarrow> u32 \<Rightarrow> pdcp_entity_rx \<Rightarrow> (byte list option \<times> pdcp_entity_rx) result" where
  "apply_deciphering_and_integrity_check buf cnt e =
     (case p_sec_engine e of
        None \<Rightarrow>
          Inr (if p_is_srb e
               then if length buf \<le> sec_mac_len then (None, e) else (Some (take (length buf - sec_mac_len) buf), e)
               else (Some buf, e))
      | Some engine \<Rightarrow>
          let hdr_size = (if rx_sn_size (p_cfg e) = pdcp_size12bits then 2 else 3)
          in rbind (engine buf hdr_size cnt) (\<lambda>r. Inr (p_security_verdict r e)))"

definition byte_buffer_trim_head :: "nat \<Rightarrow> byte list \<Rightarrow> byte list result" where
  "byte_buffer_trim_head n buf = (if length buf \<ge> n then Inr (drop n buf) else Inl Assertion_Failed)"

text \<open>The PDU is stored unless its COUNT is too old or was received before.\<close>

definition p_store :: "u32 \<Rightarrow> byte list \<Rightarrow> pdcp_entity_rx \<Rightarrow> (bool \<times> pdcp_entity_rx) result" where
  "p_store rcvd_count pdu e =
     (if rcvd_count < rx_deliv e then Inr (False, e)
      else rbind (if cm_contains (unat rcvd_count) (p_rx_window e)
                  then rbind (cm_at (unat rcvd_count) (p_rx_window e)) (\<lambda>sdu_info.
                       if info_count sdu_info = rcvd_count then Inr None
                       else rbind (window_remove_sn (unat rcvd_count) (p_rx_window e)) (\<lambda>win. Inr (Some win)))
                  else Inr (Some (p_rx_window e))) (\<lambda>w.
           case w of
             None \<Rightarrow> Inr (False, e)
           | Some win \<Rightarrow>
               rbind (window_add_sn (unat rcvd_count) \<lparr>info_sdu = [], info_count = 0\<rparr> win) (\<lambda>win1.
               rbind (cm_put (unat rcvd_count) \<lparr>info_sdu = pdu, info_count = rcvd_count\<rparr> win1) (\<lambda>win2.
               Inr (True, e\<lparr>p_rx_window := win2\<rparr>)))))"

text \<open>What follows when the PDU was stored: delivery, then the timer.\<close>

definition p_timers :: "pdcp_entity_rx \<Rightarrow> pdcp_entity_rx result" where
  "p_timers e =
     (let e1 = (if reordering_timer e \<and> rx_deliv e \<ge> rx_reord e then e\<lparr>reordering_timer := False\<rparr> else e)
      in if rx_t_reordering (p_cfg e1) = reord_infinity then Inr e1
         else if rx_t_reordering (p_cfg e1) = reord_ms 0 then handle_t_reordering_expire (e1\<lparr>rx_reord := rx_next e1\<rparr>)
         else if \<not> reordering_timer e1 \<and> rx_deliv e1 < rx_next e1
              then Inr (e1\<lparr>rx_reord := rx_next e1, reordering_timer := True\<rparr>)
         else Inr e1)"

definition p_stored :: "u32 \<Rightarrow> pdcp_entity_rx \<Rightarrow> pdcp_entity_rx result" where
  "p_stored rcvd_count e =
     (let e1 = (if rcvd_count \<ge> rx_next e then e\<lparr>rx_next := rcvd_count + 1\<rparr> else e)
      in rbind (if rcvd_count = rx_deliv e1 then deliver_all_consecutive_counts e1 else Inr e1) p_timers)"

definition pdcp_handle_data_pdu :: "byte list \<Rightarrow> pdcp_entity_rx \<Rightarrow> pdcp_entity_rx result" where
  "pdcp_handle_data_pdu pdu e =
     (if length pdu \<le> pdcp_hdr_len (rx_sn_size (p_cfg e)) then Inr (metrics_add_dropped_pdus e)
      else case pdcp_read_data_pdu_header (rx_sn_size (p_cfg e)) pdu of
             None \<Rightarrow> Inr (metrics_add_dropped_pdus e)
           | Some sn \<Rightarrow>
               let rcvd_count = pdcp_rcvd_count (rx_sn_size (p_cfg e)) (rx_deliv e) sn;
                   (refused, e1) = p_check_max_count rcvd_count e
               in if refused then Inr e1
                  else rbind (apply_deciphering_and_integrity_check pdu rcvd_count e1) (\<lambda>(exp_buf, e2).
                       case exp_buf of
                         None \<Rightarrow> Inr e2
                       | Some buf \<Rightarrow>
                           rbind (byte_buffer_trim_head (if rx_sn_size (p_cfg e2) = pdcp_size12bits then 2 else 3) buf) (\<lambda>sdu.
                           rbind (p_store rcvd_count sdu e2) (\<lambda>(stored, e3).
                           if stored then p_stored rcvd_count e3 else Inr e3))))"

definition pdcp_handle_control_pdu :: "byte list \<Rightarrow> pdcp_entity_rx \<Rightarrow> pdcp_entity_rx result" where
  "pdcp_handle_control_pdu pdu e =
     (if pdcp_pdu_get_dc (hd pdu) \<noteq> dc_control then Inl Assertion_Failed
      else Inr (case pdcp_control_pdu_get_cpt (hd pdu) of
                  status_report \<Rightarrow> e\<lparr>p_status_reports := p_status_reports e @ [pdu]\<rparr>
                | _ \<Rightarrow> e))"

definition pdcp_handle_pdu :: "byte list \<Rightarrow> pdcp_entity_rx \<Rightarrow> pdcp_entity_rx result" where
  "pdcp_handle_pdu buf e =
     (let e1 = metrics_add_pdus (length buf) e
      in if buf = [] then Inr (metrics_add_dropped_pdus e1)
         else if p_is_srb e1 \<or> pdcp_pdu_get_dc (hd buf) = dc_data then pdcp_handle_data_pdu buf e1
         else pdcp_handle_control_pdu buf e1)"

text \<open>The timer expires: it stops running before its callback is called.\<close>

definition pdcp_timer_expired :: "pdcp_entity_rx \<Rightarrow> pdcp_entity_rx result" where
  "pdcp_timer_expired e = handle_t_reordering_expire (e\<lparr>reordering_timer := False\<rparr>)"

subsection \<open>Control\<close>

text \<open>\<open>mk_engine\<close> is the constructor of the engines.\<close>

definition pdcp_configure_security ::
  "(sec_128_as_config \<Rightarrow> security_direction \<Rightarrow> bool \<Rightarrow> bool \<Rightarrow> security_fun result) \<Rightarrow>
   sec_128_as_config \<Rightarrow> bool \<Rightarrow> bool \<Rightarrow> pdcp_entity_rx \<Rightarrow> pdcp_entity_rx result" where
  "pdcp_configure_security mk_engine sec_cfg integrity_enabled' ciphering_enabled' e =
     (if \<not> (p_is_srb e \<and> sec_dom sec_cfg = sec_rrc \<or> rx_rb_type (p_cfg e) = rb_drb \<and> sec_dom sec_cfg = sec_up)
      then Inl Assertion_Failed
      else if integrity_enabled' \<and> k_128_int sec_cfg = None then Inr e
      else if integrity_enabled' \<and> integ_algo sec_cfg = None then Inr e
      else if \<not> integrity_enabled' \<and> p_is_srb e then Inl Assertion_Failed
      else rbind (mk_engine sec_cfg (rx_direction (p_cfg e)) integrity_enabled' ciphering_enabled') (\<lambda>engine.
           Inr (e\<lparr>p_integrity_enabled := integrity_enabled', p_ciphering_enabled := ciphering_enabled', p_sec_engine := Some engine\<rparr>)))"

definition pdcp_reestablish ::
  "(sec_128_as_config \<Rightarrow> security_direction \<Rightarrow> bool \<Rightarrow> bool \<Rightarrow> security_fun result) \<Rightarrow>
   sec_128_as_config \<Rightarrow> pdcp_entity_rx \<Rightarrow> pdcp_entity_rx result" where
  "pdcp_reestablish mk_engine sec_cfg e =
     rbind (if p_is_srb e then discard_all_sdus e else Inr e) (\<lambda>e1.
     rbind (if p_is_srb e1 \<or> p_is_um e1
            then let e2 = e1\<lparr>reordering_timer := False\<rparr> in if p_is_um e2 then deliver_all_sdus e2 else Inr e2
            else Inr e1) (\<lambda>e3.
     let e4 = (if p_is_srb e3 \<or> p_is_um e3 then e3\<lparr>rx_next := 0, rx_deliv := 0, rx_reord := 0\<rparr> else e3)
     in pdcp_configure_security mk_engine sec_cfg (p_integrity_enabled e4) (p_ciphering_enabled e4) e4))"

subsection \<open>Status reports\<close>

definition pdcp_control_pdu_max_size :: nat where
  "pdcp_control_pdu_max_size = 9000"

function p_bitmap_loop :: "u32 \<Rightarrow> u32 \<Rightarrow> pdcp_rx_sdu_info circular_map \<Rightarrow> bit_encoder \<Rightarrow> bit_encoder result" where
  "p_bitmap_loop bitmap_end i win enc =
     (if i < bitmap_end
      then rbind (pack (if cm_contains (unat i) win then 1 else 0) 1 enc) (p_bitmap_loop bitmap_end (i + 1) win)
      else Inr enc)"
  by auto
termination
  by (relation "measure (\<lambda>(n, i, win, enc). unat (n - i))") (auto simp: count_distance)

declare p_bitmap_loop.simps [simp del]

definition compile_status_report :: "pdcp_entity_rx \<Rightarrow> byte list result" where
  "compile_status_report e =
     rbind (pack 0 1 enc_new) (\<lambda>enc1. rbind (pack 0 3 enc1) (\<lambda>enc2. rbind (pack 0 4 enc2) (\<lambda>enc3.
     rbind (pack (ucast (rx_deliv e)) 32 enc3) (\<lambda>enc4.
     let max_bits = of_nat ((pdcp_control_pdu_max_size - 5) * 8);
         bitmap_begin = rx_deliv e + 1;
         bitmap_end = rx_next e;
         bitmap_end' = (if bitmap_begin < bitmap_end \<and> bitmap_end - bitmap_begin > max_bits
                        then bitmap_begin + max_bits else bitmap_end)
     in rbind (p_bitmap_loop bitmap_end' bitmap_begin (p_rx_window e) enc4) (\<lambda>enc5. Inr (enc_bytes enc5))))))"

end
