(* ===== verification/Pdcp_Tx.thy ===== *)
theory Pdcp_Tx
  imports Pdcp_Rx
begin

text \<open>
  The transmitting PDCP entity, \<^verbatim>\<open>lib/pdcp/pdcp_entity_tx.h\<close> and \<^verbatim>\<open>.cpp\<close> with \<^verbatim>\<open>pdcp_tx_metrics_impl.h\<close>. What is
  handed to the lower layer is recorded in order, data PDUs with the COUNT that is logged for them. A
  discard timer is the flag whether it runs; its expiry is an event. Copies of SDUs and room for headers
  are always available. The security engine is the function it computes.
\<close>

subsection \<open>State\<close>

text \<open>The discard time in milliseconds.\<close>

datatype pdcp_discard_timer = discard_ms nat | discard_infinity

record pdcp_tx_config =
  tx_rb_type :: pdcp_rb_type
  tx_rlc_mode :: pdcp_rlc_mode
  tx_sn_size :: pdcp_sn_size
  tx_direction :: security_direction
  discard_timer :: "pdcp_discard_timer option"
  status_report_required :: bool
  tx_max_count_notify :: u32
  tx_max_count_hard :: u32
  rlc_sdu_queue :: u16
  test_mode :: bool

record pdcp_tx_sdu_info =
  tinfo_count :: u32
  tinfo_sdu :: "byte list"
  tinfo_timer :: bool

record pdcp_tx_metrics =
  t_num_sdus :: u32
  t_num_sdu_bytes :: u32
  t_num_pdus :: u32
  t_num_pdu_bytes :: u32
  t_num_discard_timeouts :: u32

datatype pdcp_tx_notification = Tx_Max_Count_Reached | Tx_Protocol_Failure

datatype pdcp_tx_lower =
    On_New_Data_Pdu u32 "byte list" bool
  | On_New_Control_Pdu "byte list"
  | On_Discard_Pdu u32

record pdcp_entity_tx =
  t_cfg :: pdcp_tx_config
  t_sec_engine :: "security_fun option"
  t_integrity_enabled :: bool
  t_ciphering_enabled :: bool
  tx_next :: u32
  tx_trans :: u32
  tx_next_ack :: u32
  t_window :: "pdcp_tx_sdu_info circular_map"
  t_max_count_notified :: bool
  t_max_count_overflow :: bool
  t_lower :: "pdcp_tx_lower list"
  t_notifications :: "pdcp_tx_notification list"
  t_metrics :: pdcp_tx_metrics

abbreviation t_is_srb :: "pdcp_entity_tx \<Rightarrow> bool" where
  "t_is_srb e \<equiv> tx_rb_type (t_cfg e) = rb_srb"

abbreviation t_is_um :: "pdcp_entity_tx \<Rightarrow> bool" where
  "t_is_um e \<equiv> tx_rlc_mode (t_cfg e) = mode_um"

abbreviation t_is_am :: "pdcp_entity_tx \<Rightarrow> bool" where
  "t_is_am e \<equiv> tx_rlc_mode (t_cfg e) = mode_am"

abbreviation t_SN :: "u32 \<Rightarrow> pdcp_entity_tx \<Rightarrow> u32" where
  "t_SN cnt e \<equiv> pdcp_compute_sn cnt (tx_sn_size (t_cfg e))"

abbreviation t_window_size :: "pdcp_entity_tx \<Rightarrow> u32" where
  "t_window_size e \<equiv> pdcp_window_size (tx_sn_size (t_cfg e))"

definition pdcp_tx_metrics_zero :: pdcp_tx_metrics where
  "pdcp_tx_metrics_zero = \<lparr>t_num_sdus = 0, t_num_sdu_bytes = 0, t_num_pdus = 0, t_num_pdu_bytes = 0, t_num_discard_timeouts = 0\<rparr>"

text \<open>A window of another size cannot be created; \<^verbatim>\<open>report_error\<close> ends the process.\<close>

definition create_tx_window :: "pdcp_sn_size \<Rightarrow> pdcp_tx_sdu_info circular_map result" where
  "create_tx_window sz = (if sz = pdcp_size_invalid then Inl Assertion_Failed else Inr (cm_new (unat (pdcp_window_size sz))))"

definition pdcp_entity_tx_new :: "pdcp_tx_config \<Rightarrow> pdcp_entity_tx result" where
  "pdcp_entity_tx_new cfg =
     rbind (create_tx_window (tx_sn_size cfg)) (\<lambda>win.
     if tx_rb_type cfg = rb_srb \<and> tx_sn_size cfg \<noteq> pdcp_size12bits then Inl Runtime_Error
     else if tx_rb_type cfg = rb_srb \<and> tx_rlc_mode cfg = mode_um then Inl Runtime_Error
     else Inr \<lparr>t_cfg = cfg, t_sec_engine = None, t_integrity_enabled = False, t_ciphering_enabled = False,
               tx_next = 0, tx_trans = 0, tx_next_ack = 0, t_window = win, t_max_count_notified = False,
               t_max_count_overflow = False, t_lower = [], t_notifications = [], t_metrics = pdcp_tx_metrics_zero\<rparr>)"

subsection \<open>Metrics and notifications\<close>

definition t_metrics_add_sdus :: "nat \<Rightarrow> pdcp_entity_tx \<Rightarrow> pdcp_entity_tx" where
  "t_metrics_add_sdus n e = e\<lparr>t_metrics := (t_metrics e)\<lparr>t_num_sdus := t_num_sdus (t_metrics e) + 1,
     t_num_sdu_bytes := t_num_sdu_bytes (t_metrics e) + of_nat n\<rparr>\<rparr>"

definition t_metrics_add_pdus :: "nat \<Rightarrow> pdcp_entity_tx \<Rightarrow> pdcp_entity_tx" where
  "t_metrics_add_pdus n e = e\<lparr>t_metrics := (t_metrics e)\<lparr>t_num_pdus := t_num_pdus (t_metrics e) + 1,
     t_num_pdu_bytes := t_num_pdu_bytes (t_metrics e) + of_nat n\<rparr>\<rparr>"

definition t_metrics_add_discard_timouts :: "pdcp_entity_tx \<Rightarrow> pdcp_entity_tx" where
  "t_metrics_add_discard_timouts e =
     e\<lparr>t_metrics := (t_metrics e)\<lparr>t_num_discard_timeouts := t_num_discard_timeouts (t_metrics e) + 1\<rparr>\<rparr>"

definition t_notify :: "pdcp_tx_notification \<Rightarrow> pdcp_entity_tx \<Rightarrow> pdcp_entity_tx" where
  "t_notify n e = e\<lparr>t_notifications := t_notifications e @ [n]\<rparr>"

definition t_lower_notify :: "pdcp_tx_lower \<Rightarrow> pdcp_entity_tx \<Rightarrow> pdcp_entity_tx" where
  "t_lower_notify n e = e\<lparr>t_lower := t_lower e @ [n]\<rparr>"

definition write_data_pdu_to_lower_layers :: "u32 \<Rightarrow> byte list \<Rightarrow> bool \<Rightarrow> pdcp_entity_tx \<Rightarrow> pdcp_entity_tx" where
  "write_data_pdu_to_lower_layers cnt buf is_retx e =
     t_lower_notify (On_New_Data_Pdu cnt buf is_retx) (t_metrics_add_pdus (length buf) e)"

definition write_control_pdu_to_lower_layers :: "byte list \<Rightarrow> pdcp_entity_tx \<Rightarrow> pdcp_entity_tx" where
  "write_control_pdu_to_lower_layers buf e = t_lower_notify (On_New_Control_Pdu buf) (t_metrics_add_pdus (length buf) e)"

lemmas t_metrics_defs = t_metrics_add_sdus_def t_metrics_add_pdus_def t_metrics_add_discard_timouts_def t_notify_def
  t_lower_notify_def write_data_pdu_to_lower_layers_def write_control_pdu_to_lower_layers_def

subsection \<open>Discard timers\<close>

text \<open>The lower edge of the window moves on to the oldest element.\<close>

function t_advance_ack :: "u32 \<Rightarrow> u32 \<Rightarrow> pdcp_tx_sdu_info circular_map \<Rightarrow> u32" where
  "t_advance_ack nxt ack win =
     (if ack < nxt \<and> \<not> cm_contains (unat ack) win then t_advance_ack nxt (ack + 1) win else ack)"
  by auto
termination
  by (relation "measure (\<lambda>(nxt, ack, win). unat (nxt - ack))") (auto simp: count_distance)

declare t_advance_ack.simps [simp del]

definition discard_pdu :: "u32 \<Rightarrow> pdcp_entity_tx \<Rightarrow> pdcp_entity_tx result" where
  "discard_pdu cnt e =
     (if discard_timer (t_cfg e) = None then Inr e
      else if cnt < tx_next_ack e \<or> cnt \<ge> tx_next e then Inr e
      else if \<not> cm_contains (unat cnt) (t_window e) then Inr e
      else let e1 = t_lower_notify (On_Discard_Pdu (t_SN cnt e)) e
           in rbind (window_remove_sn (unat cnt) (t_window e1)) (\<lambda>win.
              let ack = t_advance_ack (tx_next e1) (tx_next_ack e1) win
              in Inr (e1\<lparr>t_window := win, tx_next_ack := ack, tx_trans := (if tx_trans e1 < ack then ack else tx_trans e1)\<rparr>)))"

text \<open>A loop that would not end if the highest COUNT were the largest number.\<close>

partial_function (option) t_stop_loop :: "u32 \<Rightarrow> pdcp_entity_tx \<Rightarrow> pdcp_entity_tx result option" where
  "t_stop_loop highest_count e =
     (if tx_next_ack e \<le> highest_count
      then case (if cm_contains (unat (tx_next_ack e)) (t_window e) then window_remove_sn (unat (tx_next_ack e)) (t_window e)
                 else Inr (t_window e)) of
             Inl err \<Rightarrow> Some (Inl err)
           | Inr win \<Rightarrow> t_stop_loop highest_count (e\<lparr>t_window := win, tx_next_ack := tx_next_ack e + 1\<rparr>)
      else Some (Inr e))"

definition stop_discard_timer :: "u32 \<Rightarrow> pdcp_entity_tx \<Rightarrow> pdcp_entity_tx result" where
  "stop_discard_timer highest_count e =
     (if discard_timer (t_cfg e) = None then Inr e
      else if highest_count < tx_next_ack e \<or> highest_count \<ge> tx_next e then Inr e
      else rbind (ended (t_stop_loop highest_count e)) (\<lambda>e1.
           Inr (if tx_trans e1 < tx_next_ack e1 then e1\<lparr>tx_trans := tx_next_ack e1\<rparr> else e1)))"

text \<open>The timer of a COUNT expires. It belongs to the entry of the window and is deleted with it.\<close>

definition discard_callback :: "u32 \<Rightarrow> pdcp_entity_tx \<Rightarrow> pdcp_entity_tx result" where
  "discard_callback cnt e = discard_pdu cnt (t_metrics_add_discard_timouts e)"

subsection \<open>Notifications of the lower layer\<close>

definition notification_count_estimation :: "u32 \<Rightarrow> pdcp_entity_tx \<Rightarrow> u32" where
  "notification_count_estimation notification_sn e =
     (let sz = tx_sn_size (t_cfg e);
          tx_lower = (if discard_timer (t_cfg e) \<noteq> None then tx_next_ack e else tx_trans e);
          notification_hfn =
            (if uint notification_sn < uint (pdcp_compute_sn tx_lower sz) - uint (pdcp_window_size sz)
             then pdcp_compute_hfn tx_lower sz + 1
             else if notification_sn \<ge> pdcp_compute_sn tx_lower sz + pdcp_window_size sz
             then pdcp_compute_hfn tx_lower sz - 1
             else pdcp_compute_hfn tx_lower sz)
      in pdcp_compute_count notification_hfn notification_sn sz)"

definition pdcp_sn_cardinality :: "pdcp_sn_size \<Rightarrow> u32" where
  "pdcp_sn_cardinality sz = push_bit (pdcp_sn_size_to_uint sz) 1"

definition handle_transmit_notification :: "u32 \<Rightarrow> pdcp_entity_tx \<Rightarrow> pdcp_entity_tx result" where
  "handle_transmit_notification notif_sn e =
     (if notif_sn \<ge> pdcp_sn_cardinality (tx_sn_size (t_cfg e)) then Inr e
      else let notif_count = notification_count_estimation notif_sn e
           in if notif_count < tx_trans e then Inr e
              else if notif_count \<ge> tx_next e then Inr e
              else let e1 = e\<lparr>tx_trans := notif_count + 1\<rparr>
                   in if discard_timer (t_cfg e1) = None then Inr e1
                      else if t_is_um e1 then stop_discard_timer notif_count e1
                      else Inr e1)"

definition handle_delivery_notification :: "u32 \<Rightarrow> pdcp_entity_tx \<Rightarrow> pdcp_entity_tx result" where
  "handle_delivery_notification notif_sn e =
     (if notif_sn \<ge> pdcp_sn_cardinality (tx_sn_size (t_cfg e)) then Inr e
      else let notif_count = notification_count_estimation notif_sn e
           in if notif_count \<ge> tx_next e then Inr e
              else if discard_timer (t_cfg e) = None then Inr e
              else if t_is_am e then stop_discard_timer notif_count e
              else Inr e)"

text \<open>Retransmissions of RLC have no effect.\<close>

definition handle_retransmit_notification :: "u32 \<Rightarrow> pdcp_entity_tx \<Rightarrow> pdcp_entity_tx result" where
  "handle_retransmit_notification notif_sn e = Inr e"

definition handle_delivery_retransmitted_notification :: "u32 \<Rightarrow> pdcp_entity_tx \<Rightarrow> pdcp_entity_tx result" where
  "handle_delivery_retransmitted_notification notif_sn e = Inr e"

subsection \<open>Transmission\<close>

text \<open>When the engine reports an error the value of an \<^verbatim>\<open>expected\<close> that has none is taken, which throws.\<close>

definition apply_ciphering_and_integrity_protection :: "byte list \<Rightarrow> u32 \<Rightarrow> pdcp_entity_tx \<Rightarrow> byte list result" where
  "apply_ciphering_and_integrity_protection buf cnt e =
     (case t_sec_engine e of
        None \<Rightarrow> Inr (if t_is_srb e then buf @ replicate sec_mac_len 0 else buf)
      | Some engine \<Rightarrow>
          let hdr_size = (if tx_sn_size (t_cfg e) = pdcp_size12bits then 2 else 3)
          in rbind (engine buf hdr_size cnt) (\<lambda>r. case r of Inl err \<Rightarrow> Inl Runtime_Error | Inr b \<Rightarrow> Inr b))"

definition t_check_max_count :: "pdcp_entity_tx \<Rightarrow> bool \<times> pdcp_entity_tx" where
  "t_check_max_count e =
     (if tx_next e \<ge> tx_max_count_hard (t_cfg e)
      then (True, if \<not> t_max_count_overflow e then (t_notify Tx_Protocol_Failure e)\<lparr>t_max_count_overflow := True\<rparr> else e)
      else (False, if tx_next e \<ge> tx_max_count_notify (t_cfg e) \<and> \<not> t_max_count_notified e
                   then (t_notify Tx_Max_Count_Reached e)\<lparr>t_max_count_notified := True\<rparr> else e))"

text \<open>The entry of the window for the COUNT that is sent next.\<close>

definition t_store :: "byte list \<Rightarrow> pdcp_entity_tx \<Rightarrow> pdcp_entity_tx result" where
  "t_store sdu e =
     (case discard_timer (t_cfg e) of
        None \<Rightarrow> Inr e
      | Some d \<Rightarrow>
          rbind (if cm_contains (unat (tx_next e)) (t_window e)
                 then rbind (cm_at (unat (tx_next e)) (t_window e)) (\<lambda>info. discard_pdu (tinfo_count info) e)
                 else Inr e) (\<lambda>e1.
          rbind (window_add_sn (unat (tx_next e1)) \<lparr>tinfo_count = 0, tinfo_sdu = [], tinfo_timer = False\<rparr> (t_window e1)) (\<lambda>win.
          rbind (cm_put (unat (tx_next e1))
                   \<lparr>tinfo_count = tx_next e1, tinfo_sdu = (if t_is_am e1 then sdu else []), tinfo_timer = (d \<noteq> discard_infinity)\<rparr> win) (\<lambda>win'.
          Inr (e1\<lparr>t_window := win'\<rparr>)))))"

definition pdcp_handle_sdu :: "byte list \<Rightarrow> pdcp_entity_tx \<Rightarrow> pdcp_entity_tx result" where
  "pdcp_handle_sdu buf e =
     (if tx_trans e > tx_next e then Inr e
      else if tx_next e - tx_trans e \<ge> ucast (rlc_sdu_queue (t_cfg e)) then Inr e
      else if tx_next e - tx_trans e \<ge> t_window_size e - 1 then Inr e
      else let (refused, e1) = t_check_max_count (t_metrics_add_sdus (length buf) e)
           in if refused then Inr e1
              else rbind (pdcp_write_data_pdu_header (t_is_srb e1) (tx_sn_size (t_cfg e1)) (t_SN (tx_next e1) e1) buf) (\<lambda>(ok, pdu).
                   if \<not> ok then Inr (t_notify Tx_Protocol_Failure e1)
                   else rbind (apply_ciphering_and_integrity_protection pdu (tx_next e1) e1) (\<lambda>protected_buf.
                        rbind (t_store buf e1) (\<lambda>e2.
                        let e3 = write_data_pdu_to_lower_layers (tx_next e2) protected_buf False e2;
                            tx_count = tx_next e3;
                            e4 = e3\<lparr>tx_next := tx_count + 1\<rparr>
                        in if test_mode (t_cfg e4) then handle_transmit_notification (t_SN tx_count e4) e4 else Inr e4))))"

subsection \<open>Retransmission\<close>

function t_retransmit_loop :: "u32 \<Rightarrow> u32 \<Rightarrow> pdcp_entity_tx \<Rightarrow> pdcp_entity_tx result" where
  "t_retransmit_loop nxt cnt e =
     (if cnt < nxt
      then if cm_contains (unat cnt) (t_window e)
           then rbind (cm_at (unat cnt) (t_window e)) (\<lambda>info.
                rbind (pdcp_write_data_pdu_header (t_is_srb e) (tx_sn_size (t_cfg e)) (t_SN (tinfo_count info) e) (tinfo_sdu info)) (\<lambda>(ok, pdu).
                if \<not> ok then Inr (t_notify Tx_Protocol_Failure e)
                else rbind (apply_ciphering_and_integrity_protection pdu (tinfo_count info) e) (\<lambda>protected_buf.
                     t_retransmit_loop nxt (cnt + 1) (write_data_pdu_to_lower_layers (tinfo_count info) protected_buf True e))))
           else t_retransmit_loop nxt (cnt + 1) e
      else Inr e)"
  by auto
termination
  by (relation "measure (\<lambda>(nxt, cnt, e). unat (nxt - cnt))") (auto simp: count_distance)

declare t_retransmit_loop.simps [simp del]

definition retransmit_all_pdus :: "pdcp_entity_tx \<Rightarrow> pdcp_entity_tx result" where
  "retransmit_all_pdus e =
     (if discard_timer (t_cfg e) = None then Inr e
      else if \<not> t_is_am e then Inr e
      else t_retransmit_loop (tx_next e) (tx_next_ack e) (e\<lparr>tx_trans := tx_next_ack e\<rparr>))"

subsection \<open>Control\<close>

definition pdcp_tx_configure_security ::
  "(sec_128_as_config \<Rightarrow> security_direction \<Rightarrow> bool \<Rightarrow> bool \<Rightarrow> security_fun result) \<Rightarrow>
   sec_128_as_config \<Rightarrow> bool \<Rightarrow> bool \<Rightarrow> pdcp_entity_tx \<Rightarrow> pdcp_entity_tx result" where
  "pdcp_tx_configure_security mk_engine sec_cfg integrity_enabled' ciphering_enabled' e =
     (if \<not> (t_is_srb e \<and> sec_dom sec_cfg = sec_rrc \<or> tx_rb_type (t_cfg e) = rb_drb \<and> sec_dom sec_cfg = sec_up)
      then Inl Assertion_Failed
      else if integrity_enabled' \<and> k_128_int sec_cfg = None then Inr e
      else if integrity_enabled' \<and> integ_algo sec_cfg = None then Inr e
      else if \<not> integrity_enabled' \<and> t_is_srb e then Inl Assertion_Failed
      else rbind (mk_engine sec_cfg (tx_direction (t_cfg e)) integrity_enabled' ciphering_enabled') (\<lambda>engine.
           Inr (e\<lparr>t_integrity_enabled := integrity_enabled', t_ciphering_enabled := ciphering_enabled', t_sec_engine := Some engine\<rparr>)))"

definition pdcp_tx_reset :: "pdcp_entity_tx \<Rightarrow> pdcp_entity_tx" where
  "pdcp_tx_reset e = e\<lparr>tx_next := 0, tx_trans := 0, tx_next_ack := 0, t_window := cm_clear (t_window e)\<rparr>"

definition pdcp_tx_reestablish ::
  "(sec_128_as_config \<Rightarrow> security_direction \<Rightarrow> bool \<Rightarrow> bool \<Rightarrow> security_fun result) \<Rightarrow>
   sec_128_as_config \<Rightarrow> pdcp_entity_tx \<Rightarrow> pdcp_entity_tx result" where
  "pdcp_tx_reestablish mk_engine sec_cfg e =
     (let e1 = (if t_is_srb e \<or> t_is_um e then pdcp_tx_reset e else e)
      in rbind (pdcp_tx_configure_security mk_engine sec_cfg (t_integrity_enabled e1) (t_ciphering_enabled e1) e1) (\<lambda>e2.
         if t_is_am e2 then retransmit_all_pdus e2 else Inr e2))"

text \<open>The status report comes from the receiving entity.\<close>

definition send_status_report :: "byte list \<Rightarrow> pdcp_entity_tx \<Rightarrow> pdcp_entity_tx" where
  "send_status_report report e =
     (if status_report_required (t_cfg e) then write_control_pdu_to_lower_layers report e else e)"

definition data_recovery :: "byte list \<Rightarrow> pdcp_entity_tx \<Rightarrow> pdcp_entity_tx result" where
  "data_recovery report e =
     (if \<not> (tx_rb_type (t_cfg e) = rb_drb \<and> tx_rlc_mode (t_cfg e) = mode_am) then Inl Assertion_Failed
      else retransmit_all_pdus (if status_report_required (t_cfg e) then send_status_report report e else e))"

subsection \<open>Status reports\<close>

function t_fmc_loop :: "u32 \<Rightarrow> u32 \<Rightarrow> pdcp_entity_tx \<Rightarrow> pdcp_entity_tx result" where
  "t_fmc_loop fmc cnt e =
     (if cnt < fmc then rbind (discard_pdu cnt e) (t_fmc_loop fmc (cnt + 1)) else Inr e)"
  by auto
termination
  by (relation "measure (\<lambda>(fmc, cnt, e). unat (fmc - cnt))") (auto simp: count_distance)

declare t_fmc_loop.simps [simp del]

text \<open>The loop ends when no bit is left to be read.\<close>

partial_function (option) t_bitmap_loop :: "bit_decoder \<Rightarrow> u32 \<Rightarrow> pdcp_entity_tx \<Rightarrow> pdcp_entity_tx result option" where
  "t_bitmap_loop dec fmc e =
     (case unpack 1 dec of
        Inl err \<Rightarrow> Some (Inl err)
      | Inr (ok, one :: u32, dec') \<Rightarrow>
          if \<not> ok then Some (Inr e)
          else case (if one = 1 then discard_pdu (fmc + 1) e else Inr e) of
                 Inl err \<Rightarrow> Some (Inl err)
               | Inr e' \<Rightarrow> t_bitmap_loop dec' (fmc + 1) e')"

definition handle_status_report :: "byte list \<Rightarrow> pdcp_entity_tx \<Rightarrow> pdcp_entity_tx result" where
  "handle_status_report status e =
     rbind (unpack 1 (dec_new status)) (\<lambda>(_, dc :: u32, dec1).
     if dc \<noteq> 0 then Inr e
     else rbind (unpack 3 dec1) (\<lambda>(_, cpt :: u32, dec2).
     if cpt \<noteq> 0 then Inr e
     else rbind (unpack 4 dec2) (\<lambda>(_, reserved :: u32, dec3).
     if reserved \<noteq> 0 then Inr e
     else rbind (unpack 32 dec3) (\<lambda>(_, fmc :: u32, dec4).
          rbind (t_fmc_loop fmc (tx_next_ack e) e) (\<lambda>e1.
          ended (t_bitmap_loop dec4 fmc e1))))))"

end
