(* ===== verification/Pdcp_Rx_Inv.thy ===== *)
theory Pdcp_Rx_Inv
  imports Pdcp_Rx
begin

text \<open>
  The invariant of the receiving PDCP entity: the COUNT that is reconstructed from a sequence number, the loops that deliver
  SDUs, the timer and the storing of a PDU.
\<close>

subsection \<open>The reconstructed COUNT\<close>

text \<open>Sequence number and hyper frame number as numbers.\<close>

lemma uint_compute_sn: "sz \<noteq> pdcp_size_invalid \<Longrightarrow> uint (pdcp_compute_sn c sz) = uint c mod 2 ^ pdcp_sn_size_to_uint sz"
proof -
  assume "sz \<noteq> pdcp_size_invalid"
  then have "pdcp_compute_sn c sz = take_bit (pdcp_sn_size_to_uint sz) c"
    by (cases sz) (simp_all add: pdcp_compute_sn_def take_bit_eq_mask mask_eq_exp_minus_1)
  then have "uint (pdcp_compute_sn c sz) = take_bit (pdcp_sn_size_to_uint sz) (uint c)"
    by (simp only: unsigned_take_bit_eq)
  then show ?thesis
    by (simp only: take_bit_eq_mod)
qed

lemma uint_compute_hfn: "uint (pdcp_compute_hfn c sz) = uint c div 2 ^ pdcp_sn_size_to_uint sz"
proof -
  have "take_bit 32 (uint c) = uint c"
    using uint_lt2p [of c] by (simp add: take_bit_int_eq_self)
  then have "uint (pdcp_compute_hfn c sz) = drop_bit (pdcp_sn_size_to_uint sz) (uint c)"
    by (simp add: pdcp_compute_hfn_def unsigned_drop_bit_eq)
  then show ?thesis
    by (simp only: drop_bit_eq_div)
qed

lemma uint_compute_count:
  assumes "uint sn < 2 ^ pdcp_sn_size_to_uint sz"
  shows "uint (pdcp_compute_count hfn sn sz) = (uint hfn * 2 ^ pdcp_sn_size_to_uint sz + uint sn) mod 4294967296"
proof -
  have "int (unat sn) < int (2 ^ pdcp_sn_size_to_uint sz)"
    using assms by simp
  then have "unat sn < 2 ^ pdcp_sn_size_to_uint sz"
    by (simp only: of_nat_less_iff)
  then have small: "bit sn i \<Longrightarrow> i < pdcp_sn_size_to_uint sz" for i
    by (rule bit_small)
  have "push_bit (pdcp_sn_size_to_uint sz) hfn AND sn = 0"
  proof (rule bit_word_eqI)
    fix i
    show "bit (push_bit (pdcp_sn_size_to_uint sz) hfn AND sn) i = bit 0 i"
      using small [of i] by (auto simp: bit_simps)
  qed
  then have "push_bit (pdcp_sn_size_to_uint sz) hfn OR sn = push_bit (pdcp_sn_size_to_uint sz) hfn + sn"
    by (simp add: disjunctive_add_eq_or)
  then show ?thesis
    unfolding pdcp_compute_count_def by (cases sz) (simp_all add: push_bit_eq_mult uint_word_ariths mod_simps)
qed

lemma uint_window_size: "uint (pdcp_window_size sz) = (if sz = pdcp_size12bits then 2048 else 131072)"
  by (simp add: pdcp_window_size_def)

lemma uint_rcvd_count:
  assumes "sz \<noteq> pdcp_size_invalid" "uint sn < 2 ^ pdcp_sn_size_to_uint sz"
  defines "N \<equiv> 2 ^ pdcp_sn_size_to_uint sz :: int"
  defines "W \<equiv> uint (pdcp_window_size sz)"
  shows "uint (pdcp_rcvd_count sz deliv sn) = ((uint deliv div N + (if uint sn < uint deliv mod N - W then 1
      else if uint sn \<ge> uint deliv mod N + W then - 1 else 0)) * N + uint sn) mod 4294967296"
proof -
  have "uint (pdcp_compute_sn deliv sz + pdcp_window_size sz) = uint deliv mod N + W"
  proof -
    have "uint deliv mod N + W < 4294967296"
      using assms(1) pos_mod_bound [of N "uint deliv"] by (cases sz) (simp_all add: N_def W_def uint_window_size)
    moreover have "0 \<le> uint deliv mod N + W"
      by (simp add: N_def W_def)
    ultimately show ?thesis
      using assms(1) by (simp add: uint_word_ariths uint_compute_sn N_def W_def)
  qed
  moreover have "(a mod 4294967296 * N + s) mod 4294967296 = (a * N + s) mod 4294967296" for a s
    by (metis mod_add_left_eq mod_mult_left_eq)
  ultimately show ?thesis
    using assms(1,2)
    by (simp add: pdcp_rcvd_count_def Let_def uint_compute_count uint_compute_sn uint_compute_hfn word_le_def N_def W_def
        uint_word_ariths mod_simps)
qed

text \<open>The frame in which a number close to another one lies.\<close>

lemma frame_of:
  fixes C D W :: int
  assumes "0 < W" "D - W \<le> C" "C < D + W"
  shows "(D div (2 * W) + (if C mod (2 * W) < D mod (2 * W) - W then 1 else if C mod (2 * W) \<ge> D mod (2 * W) + W then - 1 else 0)) * (2 * W)
    + C mod (2 * W) = C"
proof -
  define q r p s where "q = D div (2 * W)" and "r = D mod (2 * W)" and "p = C div (2 * W)" and "s = C mod (2 * W)"
  have d: "D = q * (2 * W) + r" "C = p * (2 * W) + s" "0 \<le> r" "r < 2 * W" "0 \<le> s" "s < 2 * W"
    unfolding q_def r_def p_def s_def using assms(1) by (simp_all only: div_mult_mod_eq pos_mod_sign pos_mod_bound mult_pos_pos zero_less_numeral)
  let ?d = "if s < r - W then 1 else if s \<ge> r + W then - 1 else 0"
  have "p - q = ?d"
  proof (rule ccontr)
    assume "p - q \<noteq> ?d"
    then consider "p - q \<ge> ?d + 1" | "p - q \<le> ?d - 1"
      by linarith
    then show False
    proof cases
      case 1
      then have "(p - q) * (2 * W) \<ge> (?d + 1) * (2 * W)"
        using assms(1) by (intro mult_right_mono) simp_all
      then show False
        using assms d by (auto simp: algebra_simps split: if_splits)
    next
      case 2
      then have "(p - q) * (2 * W) \<le> (?d - 1) * (2 * W)"
        using assms(1) by (intro mult_right_mono) simp_all
      then show False
        using assms d by (auto simp: algebra_simps split: if_splits)
    qed
  qed
  then have "q + ?d = p"
    by simp
  then have "(q + ?d) * (2 * W) + s = C"
    using d(2) by simp
  then show ?thesis
    unfolding q_def r_def s_def .
qed

lemma rcvd_count_eq:
  assumes "sz \<noteq> pdcp_size_invalid" "uint deliv - uint (pdcp_window_size sz) \<le> uint c" "uint c < uint deliv + uint (pdcp_window_size sz)"
  shows "pdcp_rcvd_count sz deliv (pdcp_compute_sn c sz) = c"
proof -
  have sn: "uint (pdcp_compute_sn c sz) = uint c mod 2 ^ pdcp_sn_size_to_uint sz"
    using assms(1) by (rule uint_compute_sn)
  then have "uint (pdcp_compute_sn c sz) < 2 ^ pdcp_sn_size_to_uint sz"
    by simp
  note eq = uint_rcvd_count [OF assms(1) this, of deliv]
  have NW: "(2 :: int) ^ pdcp_sn_size_to_uint sz = 2 * uint (pdcp_window_size sz)" "0 < uint (pdcp_window_size sz)"
    using assms(1) by (cases sz; simp add: uint_window_size)+
  have "uint (pdcp_rcvd_count sz deliv (pdcp_compute_sn c sz)) = uint c mod 4294967296"
    unfolding eq sn NW(1) frame_of [OF NW(2) assms(2,3)] ..
  then have "uint (pdcp_rcvd_count sz deliv (pdcp_compute_sn c sz)) = uint c"
    using uint_lt2p [of c] by simp
  then show ?thesis
    by (simp add: word_uint_eq_iff)
qed

text \<open>A COUNT below the hard limit and not below \<open>RX_DELIV\<close> is in the window, provided the limit excludes the
  COUNTs into which a negative hyper frame number wraps.\<close>

lemma rcvd_count_window:
  assumes "sz \<noteq> pdcp_size_invalid" "uint sn < 2 ^ pdcp_sn_size_to_uint sz" "deliv \<le> pdcp_rcvd_count sz deliv sn"
    and "uint (pdcp_rcvd_count sz deliv sn) < 4294967296 - 2 ^ pdcp_sn_size_to_uint sz"
    and "uint deliv \<le> 4294967296 - 2 ^ pdcp_sn_size_to_uint sz"
  shows "uint (pdcp_rcvd_count sz deliv sn) < uint deliv + uint (pdcp_window_size sz)"
proof -
  define N W where "N = (2 :: int) ^ pdcp_sn_size_to_uint sz" and "W = uint (pdcp_window_size sz)"
  define q r s c where "q = uint deliv div N" and "r = uint deliv mod N" and "s = uint sn" and "c = uint (pdcp_rcvd_count sz deliv sn)"
  have NW: "N = 2 * W" "0 < W" "N < 4294967296"
    using assms(1) by (cases sz; simp add: uint_window_size N_def W_def)+
  have eq: "c = ((q + (if s < r - W then 1 else if s \<ge> r + W then - 1 else 0)) * N + s) mod 4294967296"
    using uint_rcvd_count [OF assms(1,2), of deliv] by (simp add: q_def r_def s_def c_def N_def W_def)
  have "uint deliv = q * N + r"
    unfolding q_def r_def by (simp only: div_mult_mod_eq)
  moreover have "0 \<le> r" "r < N" "0 \<le> s" "s < N" "0 \<le> q"
    using NW assms(2) by (simp_all add: q_def r_def s_def N_def pos_imp_zdiv_nonneg_iff)
  ultimately have d: "uint deliv = q * N + r" "0 \<le> r" "r < N" "0 \<le> s" "s < N" "0 \<le> q"
    by blast+
  have le: "q * N + r \<le> c" "c < 4294967296 - N" "q * N + r \<le> 4294967296 - N" "0 \<le> q * N"
    using assms(3-5) d NW by (simp_all add: word_le_def c_def N_def)
  consider "s < r - W" | "s \<ge> r + W" | "r - W \<le> s" "s < r + W"
    by linarith
  then have "c < q * N + r + W"
  proof cases
    case 1
    then have "c = q * N + N + s"
      using eq d le NW by (simp add: algebra_simps)
    then show ?thesis
      using 1 NW by linarith
  next
    case 2
    then have c: "c = (q * N - N + s) mod 4294967296"
      using eq NW by (simp add: algebra_simps)
    show ?thesis
    proof (cases "q = 0")
      case True
      then have "c = (s - N + 4294967296) mod 4294967296"
        using c by simp
      also have "\<dots> = s - N + 4294967296"
        using d NW by (intro mod_pos_pos_trivial) linarith+
      finally show ?thesis
        using le d by linarith
    next
      case False
      then have "1 * N \<le> q * N"
        using d NW by (intro mult_right_mono) linarith+
      then have "c = q * N - N + s"
        using c le d NW by (simp add: mod_pos_pos_trivial)
      then show ?thesis
        using d le by linarith
    qed
  next
    case 3
    then have "c = (q * N + s) mod 4294967296"
      using eq by simp
    then have "c = q * N + s"
      using le d NW by (simp add: mod_pos_pos_trivial)
    then show ?thesis
      using 3 by linarith
  qed
  then show ?thesis
    using d(1) by (simp add: c_def W_def)
qed

subsection \<open>Passing up a range of the window\<close>

text \<open>What the loops leave alone.\<close>

definition p_frame :: "pdcp_entity_rx \<Rightarrow> pdcp_entity_rx \<Rightarrow> bool" where
  "p_frame e e' \<longleftrightarrow> p_cfg e' = p_cfg e \<and> p_sec_engine e' = p_sec_engine e \<and> p_integrity_enabled e' = p_integrity_enabled e \<and>
     p_ciphering_enabled e' = p_ciphering_enabled e \<and> rx_next e' = rx_next e \<and> rx_reord e' = rx_reord e \<and>
     reordering_timer e' = reordering_timer e \<and> max_count_notified e' = max_count_notified e \<and>
     max_count_overflow e' = max_count_overflow e \<and> p_notifications e' = p_notifications e \<and>
     p_status_reports e' = p_status_reports e"

definition p_range :: "nat \<Rightarrow> nat \<Rightarrow> pdcp_rx_sdu_info circular_map \<Rightarrow> (u32 \<times> byte list) list" where
  "p_range a b w = map (\<lambda>k. (of_nat k, info_sdu (the (cm_lookup w k)))) (filter (\<lambda>k. cm_lookup w k \<noteq> None) [a..<b])"

text \<open>The SDUs with a COUNT in a range are passed up in order and removed.\<close>

definition p_passed :: "nat \<Rightarrow> nat \<Rightarrow> pdcp_entity_rx \<Rightarrow> pdcp_entity_rx \<Rightarrow> bool" where
  "p_passed a b e e' \<longleftrightarrow> p_frame e e' \<and> cm_inv (p_rx_window e') \<and> cm_size (p_rx_window e') = cm_size (p_rx_window e) \<and>
     (\<forall>k. cm_lookup (p_rx_window e') k = (if a \<le> k \<and> k < b then None else cm_lookup (p_rx_window e) k)) \<and>
     p_sdus e' = p_sdus e @ p_range a b (p_rx_window e)"

lemma p_frame_refl [simp]: "p_frame e e"
  by (simp add: p_frame_def)

lemma p_passed_refl: "cm_inv (p_rx_window e) \<Longrightarrow> p_passed a a e e"
  by (auto simp: p_passed_def p_range_def)

lemma p_passed_deliv [simp]:
  "p_passed a b e (e'\<lparr>rx_deliv := d\<rparr>) = p_passed a b e e'"
  "p_passed a b (e\<lparr>rx_deliv := d\<rparr>) e' = p_passed a b e e'"
  by (simp_all add: p_passed_def p_frame_def)

lemma p_passed_metrics [simp]: "p_passed a b (metrics_add_t_reordering_timeouts e) e' = p_passed a b e e'"
  by (simp add: p_passed_def p_frame_def p_metrics_defs)

lemma p_passed_trans:
  assumes "p_passed a b e e1" "p_passed b c e1 e2" "a \<le> b" "b \<le> c"
  shows "p_passed a c e e2"
proof -
  have look: "cm_lookup (p_rx_window e1) k = (if a \<le> k \<and> k < b then None else cm_lookup (p_rx_window e) k)" for k
    using assms(1) by (simp add: p_passed_def)
  have "[a..<c] = [a..<b] @ [b..<c]"
    using assms(3,4) by (metis le_add_diff_inverse upt_add_eq_append)
  moreover have "p_range b c (p_rx_window e1) = p_range b c (p_rx_window e)"
    unfolding p_range_def by (intro map_cong filter_cong) (auto simp: look)
  ultimately have "p_range a c (p_rx_window e) = p_range a b (p_rx_window e) @ p_range b c (p_rx_window e1)"
    by (simp add: p_range_def)
  then show ?thesis
    using assms look by (auto simp: p_passed_def p_frame_def)
qed

lemma p_deliver_passed:
  assumes "cm_inv (p_rx_window e)" "cm_lookup (p_rx_window e) (unat c) \<noteq> None"
  shows "succeeds (p_deliver c e) (\<lambda>e'. p_passed (unat c) (Suc (unat c)) e e' \<and> rx_deliv e' = rx_deliv e)"
proof -
  obtain info where info: "cm_lookup (p_rx_window e) (unat c) = Some info"
    using assms(2) by auto
  obtain w where w: "window_remove_sn (unat c) (p_rx_window e) = Inr w" "cm_inv w" "cm_size w = cm_size (p_rx_window e)"
      "cm_lookup w = (cm_lookup (p_rx_window e))(unat c := None)"
    using circ.remove_present [OF assms] by auto
  show ?thesis
    using w info by (auto simp: p_deliver_def cm_at_spec p_metrics_defs p_passed_def p_frame_def p_range_def)
qed

lemma p_pass_one:
  assumes "cm_inv (p_rx_window e)"
  shows "succeeds (if cm_contains (unat c) (p_rx_window e) then p_deliver c e else Inr e)
    (\<lambda>e'. p_passed (unat c) (Suc (unat c)) e e' \<and> rx_deliv e' = rx_deliv e)"
proof (cases "cm_contains (unat c) (p_rx_window e)")
  case True
  then show ?thesis
    using p_deliver_passed [OF assms, of c] by (auto simp: cm_contains_iff)
next
  case False
  then have "p_passed (unat c) (Suc (unat c)) e e"
    using assms by (auto simp: p_passed_def p_range_def cm_contains_iff less_Suc_eq_le dest: le_antisym)
  then show ?thesis
    using False by simp
qed

lemma unat_next: "c < n \<Longrightarrow> unat (c + 1) = Suc (unat c)" for c n :: u32
  using unsigned_less [where 'a = nat and w = n] by (simp add: word_less_nat_alt unat_word_ariths)

lemma p_passed_inv: "p_passed a b e e' \<Longrightarrow> cm_inv (p_rx_window e')"
  by (simp add: p_passed_def)

lemma p_expire_loop_ok:
  assumes "cm_inv (p_rx_window e)" "c \<le> reord" "rx_deliv e = c"
  shows "succeeds (p_expire_loop reord c e) (\<lambda>e'. p_passed (unat c) (unat reord) e e' \<and> rx_deliv e' = reord)"
  using assms
proof (induction reord c e rule: p_expire_loop.induct)
  case (1 reord c e)
  show ?case
  proof (cases "c = reord")
    case True
    then show ?thesis
      using 1 by (subst p_expire_loop.simps) (simp add: p_passed_refl)
  next
    case False
    then have c: "c < reord" "c + 1 \<le> reord" "unat (c + 1) = Suc (unat c)"
      using "1.prems"(2) unat_next [of c reord] by (simp_all add: inc_le)
    obtain e1 where e1: "(if cm_contains (unat c) (p_rx_window e) then p_deliver c e else Inr e) = Inr e1"
        "p_passed (unat c) (Suc (unat c)) e e1"
      using succeedsD [OF p_pass_one [OF "1.prems"(1), of c]] by blast
    have "succeeds (p_expire_loop reord (c + 1) (e1\<lparr>rx_deliv := c + 1\<rparr>))
        (\<lambda>e'. p_passed (unat (c + 1)) (unat reord) (e1\<lparr>rx_deliv := c + 1\<rparr>) e' \<and> rx_deliv e' = reord)"
      using e1 c False by (intro "1.IH") (simp_all add: p_passed_inv)
    then have "succeeds (p_expire_loop reord (c + 1) (e1\<lparr>rx_deliv := c + 1\<rparr>))
        (\<lambda>e'. p_passed (unat c) (unat reord) e e' \<and> rx_deliv e' = reord)"
      by (rule succeeds_mono) (use p_passed_trans [OF e1(2)] c in \<open>auto simp: word_less_nat_alt\<close>)
    then show ?thesis
      using False e1(1) by (subst p_expire_loop.simps) simp
  qed
qed

lemma p_deliver_all_loop_ok:
  assumes "cm_inv (p_rx_window e)" "c \<le> nxt"
  shows "succeeds (p_deliver_all_loop nxt c e) (\<lambda>e'. p_passed (unat c) (unat nxt) e e' \<and> rx_deliv e' = rx_deliv e)"
  using assms
proof (induction nxt c e rule: p_deliver_all_loop.induct)
  case (1 nxt c e)
  show ?case
  proof (cases "c < nxt")
    case False
    then show ?thesis
      using 1 by (subst p_deliver_all_loop.simps) (auto simp: p_passed_refl)
  next
    case True
    then have c: "c + 1 \<le> nxt" "unat (c + 1) = Suc (unat c)"
      using unat_next [of c nxt] by (simp_all add: inc_le)
    obtain e1 where e1: "(if cm_contains (unat c) (p_rx_window e) then p_deliver c e else Inr e) = Inr e1"
        "p_passed (unat c) (Suc (unat c)) e e1" "rx_deliv e1 = rx_deliv e"
      using succeedsD [OF p_pass_one [OF "1.prems"(1), of c]] by blast
    have "succeeds (p_deliver_all_loop nxt (c + 1) e1)
        (\<lambda>e'. p_passed (unat (c + 1)) (unat nxt) e1 e' \<and> rx_deliv e' = rx_deliv e1)"
      using e1 c True by (intro "1.IH") (simp_all add: p_passed_inv)
    then have "succeeds (p_deliver_all_loop nxt (c + 1) e1)
        (\<lambda>e'. p_passed (unat c) (unat nxt) e e' \<and> rx_deliv e' = rx_deliv e)"
      by (rule succeeds_mono) (use p_passed_trans [OF e1(2)] c True e1(3) in \<open>auto simp: word_less_nat_alt\<close>)
    then show ?thesis
      using True e1(1) by (subst p_deliver_all_loop.simps) simp
  qed
qed

text \<open>The consecutive COUNTs end where the window has no SDU.\<close>

definition p_consecutive :: "u32 \<Rightarrow> u32 \<Rightarrow> pdcp_entity_rx \<Rightarrow> pdcp_entity_rx \<Rightarrow> bool" where
  "p_consecutive nxt c e e' \<longleftrightarrow> p_passed (unat c) (unat (rx_deliv e')) e e' \<and> c \<le> rx_deliv e' \<and> rx_deliv e' \<le> nxt \<and>
     (\<forall>k. unat c \<le> k \<and> k < unat (rx_deliv e') \<longrightarrow> cm_lookup (p_rx_window e) k \<noteq> None) \<and>
     (rx_deliv e' = nxt \<or> cm_lookup (p_rx_window e) (unat (rx_deliv e')) = None)"

lemma p_consecutive_loop_ok:
  assumes "cm_inv (p_rx_window e)" "c \<le> nxt" "rx_deliv e = c"
  shows "succeeds (p_consecutive_loop nxt c e) (p_consecutive nxt c e)"
  using assms
proof (induction nxt c e rule: p_consecutive_loop.induct)
  case (1 nxt c e)
  show ?case
  proof (cases "c \<noteq> nxt \<and> cm_contains (unat c) (p_rx_window e)")
    case False
    then show ?thesis
      using 1 by (subst p_consecutive_loop.simps) (auto simp: p_passed_refl p_consecutive_def cm_contains_iff)
  next
    case True
    then have "c < nxt"
      using "1.prems"(2) by auto
    then have c: "c < nxt" "c + 1 \<le> nxt" "unat (c + 1) = Suc (unat c)"
      using unat_next [of c nxt] by (simp_all add: inc_le)
    obtain e1 where e1: "p_deliver c e = Inr e1" "p_passed (unat c) (Suc (unat c)) e e1"
      using succeedsD [OF p_deliver_passed [OF "1.prems"(1), of c]] True by (auto simp: cm_contains_iff)
    let ?e1 = "e1\<lparr>rx_deliv := c + 1\<rparr>"
    have "succeeds (p_consecutive_loop nxt (c + 1) ?e1) (p_consecutive nxt (c + 1) ?e1)"
      using e1 c True by (intro "1.IH") (simp_all add: p_passed_inv)
    then have "succeeds (p_consecutive_loop nxt (c + 1) ?e1) (p_consecutive nxt c e)"
    proof (rule succeeds_mono)
      fix e'
      assume e': "p_consecutive nxt (c + 1) ?e1 e'"
      have look: "cm_lookup (p_rx_window e1) k = (if unat c \<le> k \<and> k < Suc (unat c) then None else cm_lookup (p_rx_window e) k)" for k
        using e1(2) by (simp add: p_passed_def)
      have d: "Suc (unat c) \<le> unat (rx_deliv e')"
        using e' c(3) by (simp add: p_consecutive_def word_le_nat_alt)
      have "cm_lookup (p_rx_window e) k \<noteq> None" if "unat c \<le> k" "k < unat (rx_deliv e')" for k
      proof (cases "k = unat c")
        case True
        then show ?thesis
          using \<open>c \<noteq> nxt \<and> cm_contains (unat c) (p_rx_window e)\<close> by (auto simp: cm_contains_iff)
      next
        case False
        then have k: "Suc (unat c) \<le> k"
          using that by simp
        then have "cm_lookup (p_rx_window ?e1) k \<noteq> None"
          using e' that c(3) unfolding p_consecutive_def by (metis (no_types))
        then show ?thesis
          using look [of k] k by simp
      qed
      moreover have "rx_deliv e' = nxt \<or> cm_lookup (p_rx_window e) (unat (rx_deliv e')) = None"
        using e' look [of "unat (rx_deliv e')"] d by (auto simp: p_consecutive_def)
      moreover have "p_passed (unat c) (unat (rx_deliv e')) e e'"
        using p_passed_trans [OF e1(2), of "unat (rx_deliv e')" e'] e' d c(3) by (auto simp: p_consecutive_def)
      ultimately show "p_consecutive nxt c e e'"
        using e' d by (simp add: p_consecutive_def word_le_nat_alt)
    qed
    then show ?thesis
      using True e1(1) by (subst p_consecutive_loop.simps) simp
  qed
qed

subsection \<open>Invariant\<close>

text \<open>The limit of the COUNT excludes the values into which a negative hyper frame number wraps.\<close>

definition p_cfg_ok :: "pdcp_rx_config \<Rightarrow> bool" where
  "p_cfg_ok cfg \<longleftrightarrow> rx_sn_size cfg \<noteq> pdcp_size_invalid \<and>
     uint (max_count_hard cfg) \<le> 4294967296 - 2 ^ pdcp_sn_size_to_uint (rx_sn_size cfg)"

definition p_weak :: "pdcp_entity_rx \<Rightarrow> bool" where
  "p_weak e \<longleftrightarrow> p_cfg_ok (p_cfg e) \<and> cm_inv (p_rx_window e) \<and>
     cm_size (p_rx_window e) = unat (pdcp_window_size (rx_sn_size (p_cfg e))) \<and>
     rx_deliv e \<le> rx_next e \<and> rx_next e \<le> max_count_hard (p_cfg e) \<and>
     unat (rx_next e) \<le> unat (rx_deliv e) + unat (pdcp_window_size (rx_sn_size (p_cfg e))) \<and>
     (\<forall>k info. cm_lookup (p_rx_window e) k = Some info \<longrightarrow>
        unat (rx_deliv e) \<le> k \<and> k < unat (rx_next e) \<and> info_count info = of_nat k) \<and>
     sorted_wrt (<) (map fst (p_sdus e)) \<and> (\<forall>x\<in>set (p_sdus e). fst x < rx_deliv e)"

definition p_core :: "pdcp_entity_rx \<Rightarrow> bool" where
  "p_core e \<longleftrightarrow> p_weak e \<and> cm_lookup (p_rx_window e) (unat (rx_deliv e)) = None"

definition p_timer_ok :: "pdcp_entity_rx \<Rightarrow> bool" where
  "p_timer_ok e \<longleftrightarrow> (reordering_timer e \<longrightarrow> rx_deliv e < rx_reord e \<and> rx_reord e \<le> rx_next e \<and>
     rx_t_reordering (p_cfg e) \<noteq> reord_infinity \<and> rx_t_reordering (p_cfg e) \<noteq> reord_ms 0)"

definition pdcp_rx_inv :: "pdcp_entity_rx \<Rightarrow> bool" where
  "pdcp_rx_inv e \<longleftrightarrow> p_core e \<and> p_timer_ok e"

lemma u32_bound: "unat (w :: u32) < 4294967296"
  using unsigned_less [where 'a = nat and w = w] by simp

lemma p_range_fst:
  assumes "b \<le> 4294967296"
  shows "sorted_wrt (<) (map fst (p_range a b w))" "x \<in> set (p_range a b w) \<Longrightarrow> a \<le> unat (fst x) \<and> unat (fst x) < b"
proof -
  have nat: "k < b \<Longrightarrow> unat (of_nat k :: u32) = k" for k
    using assms by (simp add: unsigned_of_nat take_bit_nat_eq_self)
  have "sorted_wrt (\<lambda>i j. (of_nat i :: u32) < of_nat j) (filter P [a..<b])" for P
    by (rule sorted_wrt_mono_rel [where P = "(<)"])
      (use nat in \<open>auto simp: word_less_nat_alt intro!: sorted_wrt_filter\<close>)
  then show "sorted_wrt (<) (map fst (p_range a b w))"
    by (simp add: p_range_def sorted_wrt_map comp_def)
  show "x \<in> set (p_range a b w) \<Longrightarrow> a \<le> unat (fst x) \<and> unat (fst x) < b"
    using nat by (auto simp: p_range_def)
qed

lemma p_passed_weak:
  assumes "p_weak e" "p_passed (unat (rx_deliv e)) (unat (rx_deliv e')) e e'" "rx_deliv e \<le> rx_deliv e'" "rx_deliv e' \<le> rx_next e"
  shows "p_weak e'"
proof -
  let ?a = "unat (rx_deliv e)" and ?b = "unat (rx_deliv e')"
  have f: "p_frame e e'" "cm_inv (p_rx_window e')" "cm_size (p_rx_window e') = cm_size (p_rx_window e)"
      "p_sdus e' = p_sdus e @ p_range ?a ?b (p_rx_window e)"
    and look: "cm_lookup (p_rx_window e') k = (if ?a \<le> k \<and> k < ?b then None else cm_lookup (p_rx_window e) k)" for k
    using assms(2) by (simp_all add: p_passed_def)
  have r: "sorted_wrt (<) (map fst (p_range ?a ?b (p_rx_window e)))"
      "x \<in> set (p_range ?a ?b (p_rx_window e)) \<Longrightarrow> rx_deliv e \<le> fst x \<and> fst x < rx_deliv e'" for x
    using p_range_fst [where a = ?a and b = ?b and w = "p_rx_window e"] u32_bound [of "rx_deliv e'"] by (auto simp: word_le_nat_alt word_less_nat_alt)
  have old: "fst x < rx_deliv e" if "x \<in> set (p_sdus e)" for x
    using assms(1) that by (simp add: p_weak_def)
  have "sorted_wrt (<) (map fst (p_sdus e'))"
    using assms(1) r f(4) old by (force simp: p_weak_def sorted_wrt_append)
  moreover have "\<forall>x\<in>set (p_sdus e'). fst x < rx_deliv e'"
    using old r(2) assms(3) f(4) by (auto intro: less_le_trans)
  moreover have "\<forall>k info. cm_lookup (p_rx_window e') k = Some info \<longrightarrow> ?b \<le> k \<and> k < unat (rx_next e') \<and> info_count info = of_nat k"
    using assms(1) f(1) look by (auto simp: p_weak_def p_frame_def split: if_splits)
  ultimately show ?thesis
    using assms f by (simp add: p_weak_def p_frame_def word_le_nat_alt)
qed

lemma deliver_consecutive_ok:
  assumes "p_weak e"
  shows "succeeds (deliver_all_consecutive_counts e) (\<lambda>e'. p_core e' \<and> p_frame e e' \<and> p_consecutive (rx_next e) (rx_deliv e) e e')"
proof -
  have e: "cm_inv (p_rx_window e)" "rx_deliv e \<le> rx_next e"
    using assms by (simp_all add: p_weak_def)
  show ?thesis
    unfolding deliver_all_consecutive_counts_def
  proof (rule succeeds_mono [OF p_consecutive_loop_ok [OF e refl]])
    fix e'
    assume c: "p_consecutive (rx_next e) (rx_deliv e) e e'"
    then have w: "p_weak e'" "p_frame e e'"
      using p_passed_weak [OF assms, of e'] by (auto simp: p_consecutive_def p_passed_def)
    have "cm_lookup (p_rx_window e') (unat (rx_deliv e')) = None"
    proof (cases "rx_deliv e' = rx_next e")
      case True
      then show ?thesis
        using w by (cases "cm_lookup (p_rx_window e') (unat (rx_deliv e'))") (auto simp: p_weak_def p_frame_def)
    next
      case False
      then show ?thesis
        using c by (simp add: p_consecutive_def p_passed_def)
    qed
    with w c show "p_core e' \<and> p_frame e e' \<and> p_consecutive (rx_next e) (rx_deliv e) e e'"
      by (simp add: p_core_def)
  qed
qed

lemma expire_ok:
  assumes "p_weak e" "rx_deliv e \<le> rx_reord e" "rx_reord e \<le> rx_next e" "\<not> reordering_timer e"
    and "rx_t_reordering (p_cfg e) \<noteq> reord_infinity"
  shows "succeeds (handle_t_reordering_expire e) (\<lambda>e'. pdcp_rx_inv e' \<and> p_cfg e' = p_cfg e \<and> p_sec_engine e' = p_sec_engine e)"
proof -
  let ?m = "metrics_add_t_reordering_timeouts e"
  have m: "rx_reord e \<le> rx_next ?m" "rx_deliv ?m = rx_deliv e" "cm_inv (p_rx_window ?m)"
    using assms(1,3) by (simp_all add: p_metrics_defs p_weak_def)
  show ?thesis
    unfolding handle_t_reordering_expire_def succeeds_simps
  proof (rule succeeds_mono [OF p_expire_loop_ok [OF m(3) assms(2) m(2)]])
    fix e1
    assume "p_passed (unat (rx_deliv e)) (unat (rx_reord e)) ?m e1 \<and> rx_deliv e1 = rx_reord e"
    then have e1: "p_passed (unat (rx_deliv e)) (unat (rx_deliv e1)) e e1" "rx_deliv e1 = rx_reord e"
      by simp_all
    then have w: "p_weak e1" "p_frame e e1"
      using p_passed_weak [OF assms(1), of e1] assms(2,3) by (simp_all add: p_passed_def)
    show "succeeds (deliver_all_consecutive_counts e1) (\<lambda>e2. pdcp_rx_inv (if rx_deliv e2 < rx_next e2 \<and>
          rx_t_reordering (p_cfg e2) \<noteq> reord_ms 0 then e2\<lparr>rx_reord := rx_next e2, reordering_timer := True\<rparr> else e2) \<and>
        p_cfg (if rx_deliv e2 < rx_next e2 \<and> rx_t_reordering (p_cfg e2) \<noteq> reord_ms 0
          then e2\<lparr>rx_reord := rx_next e2, reordering_timer := True\<rparr> else e2) = p_cfg e \<and>
        p_sec_engine (if rx_deliv e2 < rx_next e2 \<and> rx_t_reordering (p_cfg e2) \<noteq> reord_ms 0
          then e2\<lparr>rx_reord := rx_next e2, reordering_timer := True\<rparr> else e2) = p_sec_engine e)"
    proof (rule succeeds_mono [OF deliver_consecutive_ok [OF w(1)]])
      fix e2
      assume "p_core e2 \<and> p_frame e1 e2 \<and> p_consecutive (rx_next e1) (rx_deliv e1) e1 e2"
      then have e2: "p_core e2" "\<not> reordering_timer e2" "p_cfg e2 = p_cfg e" "p_sec_engine e2 = p_sec_engine e"
        using w(2) assms(4) by (simp_all add: p_frame_def)
      then show "pdcp_rx_inv (if rx_deliv e2 < rx_next e2 \<and> rx_t_reordering (p_cfg e2) \<noteq> reord_ms 0
          then e2\<lparr>rx_reord := rx_next e2, reordering_timer := True\<rparr> else e2) \<and>
        p_cfg (if rx_deliv e2 < rx_next e2 \<and> rx_t_reordering (p_cfg e2) \<noteq> reord_ms 0
          then e2\<lparr>rx_reord := rx_next e2, reordering_timer := True\<rparr> else e2) = p_cfg e \<and>
        p_sec_engine (if rx_deliv e2 < rx_next e2 \<and> rx_t_reordering (p_cfg e2) \<noteq> reord_ms 0
          then e2\<lparr>rx_reord := rx_next e2, reordering_timer := True\<rparr> else e2) = p_sec_engine e"
        using assms(5) by (simp add: pdcp_rx_inv_def p_timer_ok_def p_core_def p_weak_def)
    qed
  qed
qed

lemma p_timers_ok:
  assumes "p_core e" "reordering_timer e \<Longrightarrow> rx_reord e \<le> rx_next e \<and>
     rx_t_reordering (p_cfg e) \<noteq> reord_infinity \<and> rx_t_reordering (p_cfg e) \<noteq> reord_ms 0"
  shows "succeeds (p_timers e) (\<lambda>e'. pdcp_rx_inv e' \<and> p_cfg e' = p_cfg e \<and> p_sec_engine e' = p_sec_engine e)"
proof -
  define e1 where "e1 = (if reordering_timer e \<and> rx_deliv e \<ge> rx_reord e then e\<lparr>reordering_timer := False\<rparr> else e)"
  have e1: "p_core e1" "p_cfg e1 = p_cfg e" "p_sec_engine e1 = p_sec_engine e" "p_timer_ok e1"
    using assms by (auto simp: e1_def p_core_def p_weak_def p_timer_ok_def)
  have le: "rx_deliv e1 \<le> rx_next e1"
    using e1(1) by (simp add: p_core_def p_weak_def)
  show ?thesis
  proof (cases "rx_t_reordering (p_cfg e1) = reord_ms 0")
    case True
    let ?e2 = "e1\<lparr>rx_reord := rx_next e1\<rparr>"
    have "p_weak ?e2" "\<not> reordering_timer ?e2"
      using e1 True by (auto simp: p_core_def p_weak_def p_timer_ok_def)
    from expire_ok [OF this(1) _ _ this(2)] show ?thesis
      using True le e1(2,3) by (simp add: p_timers_def e1_def [symmetric] Let_def)
  next
    case False
    then show ?thesis
      using e1 le unfolding p_timers_def e1_def [symmetric] Let_def
      by (auto simp: pdcp_rx_inv_def p_timer_ok_def p_core_def p_weak_def)
  qed
qed

lemma p_store_ok:
  assumes "p_core e" "unat c < unat (rx_deliv e) + unat (pdcp_window_size (rx_sn_size (p_cfg e)))"
  obtains (dropped) "p_store c pdu e = Inr (False, e)" "c < rx_deliv e \<or> cm_lookup (p_rx_window e) (unat c) \<noteq> None"
  | (stored) win where "p_store c pdu e = Inr (True, e\<lparr>p_rx_window := win\<rparr>)" "rx_deliv e \<le> c"
    "cm_inv win" "cm_size win = cm_size (p_rx_window e)" "cm_lookup (p_rx_window e) (unat c) = None"
    "cm_lookup win = (cm_lookup (p_rx_window e))(unat c \<mapsto> \<lparr>info_sdu = pdu, info_count = c\<rparr>)"
proof (cases "c < rx_deliv e")
  case True
  then show thesis
    by (intro dropped) (simp_all add: p_store_def)
next
  case False
  let ?w = "p_rx_window e"
  have w: "cm_inv ?w" "cm_size ?w = unat (pdcp_window_size (rx_sn_size (p_cfg e)))"
    and keys: "\<And>k info. cm_lookup ?w k = Some info \<Longrightarrow>
        unat (rx_deliv e) \<le> k \<and> k < unat (rx_next e) \<and> info_count info = of_nat k"
    and next': "unat (rx_next e) \<le> unat (rx_deliv e) + cm_size ?w"
    using assms(1) by (auto simp: p_core_def p_weak_def)
  show thesis
  proof (cases "cm_lookup ?w (unat c)")
    case (Some info)
    then have "info_count info = c"
      using keys [OF Some] by simp
    then show thesis
      using False Some by (intro dropped) (auto simp: p_store_def cm_contains_iff cm_at_spec)
  next
    case None
    have "dom (cm_lookup ?w) \<subseteq> {unat (rx_deliv e)..<unat (rx_deliv e) + cm_size ?w}"
      using keys next' by fastforce
    moreover have "unat c \<in> {unat (rx_deliv e)..<unat (rx_deliv e) + cm_size ?w}"
      using False assms(2) w(2) by (simp add: word_less_nat_alt)
    ultimately obtain w1 where w1: "window_add_sn (unat c) \<lparr>info_sdu = [], info_count = 0\<rparr> ?w = Inr w1" "cm_inv w1"
        "cm_size w1 = cm_size ?w" "cm_lookup w1 = (cm_lookup ?w)(unat c \<mapsto> \<lparr>info_sdu = [], info_count = 0\<rparr>)"
      using circ.add_in_range [OF w(1) None] by blast
    then have "cm_lookup w1 (unat c) \<noteq> None"
      by simp
    from circ.put_present [OF w1(2) this, of "\<lparr>info_sdu = pdu, info_count = c\<rparr>"]
    obtain w2 where w2: "cm_put (unat c) \<lparr>info_sdu = pdu, info_count = c\<rparr> w1 = Inr w2" "cm_inv w2" "cm_size w2 = cm_size w1"
        "cm_lookup w2 = (cm_lookup w1)(unat c \<mapsto> \<lparr>info_sdu = pdu, info_count = c\<rparr>)"
      by blast
    have "p_store c pdu e = Inr (True, e\<lparr>p_rx_window := w2\<rparr>)"
      using False None w1(1) w2(1) by (simp add: p_store_def cm_contains_iff domIff)
    then show thesis
      by (rule stored) (use False None w1 w2 in simp_all)
  qed
qed

text \<open>The entity once a PDU was stored and \<open>RX_NEXT\<close> is updated.\<close>

lemma p_stored_weak:
  assumes "p_core e" "rx_deliv e \<le> c" "cm_inv win" "cm_size win = cm_size (p_rx_window e)" "c < max_count_hard (p_cfg e)"
    and "cm_lookup win = (cm_lookup (p_rx_window e))(unat c \<mapsto> \<lparr>info_sdu = pdu, info_count = c\<rparr>)"
    and "unat c < unat (rx_deliv e) + unat (pdcp_window_size (rx_sn_size (p_cfg e)))"
  shows "p_weak (if c \<ge> rx_next e then e\<lparr>p_rx_window := win, rx_next := c + 1\<rparr> else e\<lparr>p_rx_window := win\<rparr>)"
proof -
  have "unat (c + 1) = Suc (unat c)" "c + 1 \<le> max_count_hard (p_cfg e)"
    using unat_next [OF assms(5)] assms(5) by (simp_all add: inc_le)
  moreover have "rx_deliv e \<le> c + 1"
    using assms(2) calculation(1) by (simp add: word_le_nat_alt)
  moreover have "unat (rx_deliv e) \<le> k \<and> (k < unat (rx_next e) \<or> k = unat c) \<and> info_count info = of_nat k"
    if "cm_lookup win k = Some info" for k info
    using assms(1,2,6) that by (auto simp: p_core_def p_weak_def word_le_nat_alt split: if_splits)
  then have "\<forall>k info. cm_lookup win k = Some info \<longrightarrow> unat (rx_deliv e) \<le> k \<and>
      k < (if c \<ge> rx_next e then Suc (unat c) else unat (rx_next e)) \<and> info_count info = of_nat k"
    by (fastforce simp: word_le_nat_alt)
  ultimately show ?thesis
    using assms(1-5,7) by (cases "rx_next e \<le> c") (auto simp: p_core_def p_weak_def word_le_nat_alt)
qed

lemma p_stored_ok:
  assumes "pdcp_rx_inv e" "rx_deliv e \<le> c" "cm_inv win" "cm_size win = cm_size (p_rx_window e)" "c < max_count_hard (p_cfg e)"
    and look: "cm_lookup win = (cm_lookup (p_rx_window e))(unat c \<mapsto> \<lparr>info_sdu = pdu, info_count = c\<rparr>)"
    and "unat c < unat (rx_deliv e) + unat (pdcp_window_size (rx_sn_size (p_cfg e)))"
  shows "succeeds (p_stored c (e\<lparr>p_rx_window := win\<rparr>)) (\<lambda>e'. pdcp_rx_inv e' \<and> p_cfg e' = p_cfg e \<and> p_sec_engine e' = p_sec_engine e)"
proof -
  define e1 where "e1 = (if c \<ge> rx_next e then e\<lparr>p_rx_window := win, rx_next := c + 1\<rparr> else e\<lparr>p_rx_window := win\<rparr>)"
  have core: "p_core e" "p_timer_ok e"
    using assms(1) by (simp_all add: pdcp_rx_inv_def)
  have weak: "p_weak e1"
    unfolding e1_def using assms(2-7) by (intro p_stored_weak [OF core(1)])
  have c1: "unat (c + 1) = Suc (unat c)"
    using unat_next [OF assms(5)] .
  have next': "rx_next e \<le> rx_next e1"
    using c1 by (auto simp: e1_def word_le_nat_alt)
  have e1: "rx_deliv e1 = rx_deliv e" "p_cfg e1 = p_cfg e" "p_sec_engine e1 = p_sec_engine e" "rx_reord e1 = rx_reord e"
      "reordering_timer e1 = reordering_timer e" "p_rx_window e1 = win"
    by (simp_all add: e1_def)
  have timer: "reordering_timer e2 \<Longrightarrow> rx_reord e2 \<le> rx_next e2 \<and>
      rx_t_reordering (p_cfg e2) \<noteq> reord_infinity \<and> rx_t_reordering (p_cfg e2) \<noteq> reord_ms 0" if "p_frame e1 e2" for e2
    using core(2) next' e1 that by (auto simp: p_timer_ok_def p_frame_def)
  have "succeeds (if c = rx_deliv e1 then deliver_all_consecutive_counts e1 else Inr e1) (\<lambda>e2. p_core e2 \<and> p_frame e1 e2)"
  proof (cases "c = rx_deliv e1")
    case True
    then show ?thesis
      using deliver_consecutive_ok [OF weak] by (auto elim!: succeeds_mono)
  next
    case False
    then have "unat (rx_deliv e) \<noteq> unat c"
      using e1(1) by (metis word_unat_eq_iff)
    then have "p_core e1"
      using weak core(1) e1(1,6) look by (simp add: p_core_def)
    then show ?thesis
      using False by simp
  qed
  then have "succeeds (if c = rx_deliv e1 then deliver_all_consecutive_counts e1 else Inr e1) (\<lambda>e2. succeeds (p_timers e2)
      (\<lambda>e'. pdcp_rx_inv e' \<and> p_cfg e' = p_cfg e \<and> p_sec_engine e' = p_sec_engine e))"
  proof (rule succeeds_mono)
    fix e2
    assume e2: "p_core e2 \<and> p_frame e1 e2"
    then show "succeeds (p_timers e2) (\<lambda>e'. pdcp_rx_inv e' \<and> p_cfg e' = p_cfg e \<and> p_sec_engine e' = p_sec_engine e)"
      using p_timers_ok [of e2] timer [of e2] e1(2,3) by (auto simp: p_frame_def)
  qed
  moreover have "p_stored c (e\<lparr>p_rx_window := win\<rparr>) =
      rbind (if c = rx_deliv e1 then deliver_all_consecutive_counts e1 else Inr e1) p_timers"
    by (simp add: p_stored_def e1_def Let_def)
  ultimately show ?thesis
    by simp
qed

lemma pdcp_rx_inv_cong [simp]:
  "pdcp_rx_inv (p_notify n e) = pdcp_rx_inv e" "pdcp_rx_inv (metrics_add_pdus k e) = pdcp_rx_inv e"
  "pdcp_rx_inv (metrics_add_dropped_pdus e) = pdcp_rx_inv e" "pdcp_rx_inv (metrics_add_integrity_verified_pdus e) = pdcp_rx_inv e"
  "pdcp_rx_inv (metrics_add_integrity_failed_pdus e) = pdcp_rx_inv e" "pdcp_rx_inv (e\<lparr>max_count_notified := b\<rparr>) = pdcp_rx_inv e"
  "pdcp_rx_inv (e\<lparr>max_count_overflow := b\<rparr>) = pdcp_rx_inv e" "pdcp_rx_inv (e\<lparr>p_status_reports := r\<rparr>) = pdcp_rx_inv e"
  by (simp_all add: pdcp_rx_inv_def p_core_def p_weak_def p_timer_ok_def p_metrics_defs)

text \<open>The parts of the state that the checks in front of the window leave alone.\<close>

definition p_same :: "pdcp_entity_rx \<Rightarrow> pdcp_entity_rx \<Rightarrow> bool" where
  "p_same e e' \<longleftrightarrow> (pdcp_rx_inv e' \<longleftrightarrow> pdcp_rx_inv e) \<and> p_cfg e' = p_cfg e \<and> p_sec_engine e' = p_sec_engine e \<and>
     rx_deliv e' = rx_deliv e \<and> rx_next e' = rx_next e \<and> rx_reord e' = rx_reord e \<and> p_rx_window e' = p_rx_window e \<and>
     reordering_timer e' = reordering_timer e \<and> p_sdus e' = p_sdus e"

lemma p_same_refl [simp]: "p_same e e"
  by (simp add: p_same_def)

lemma p_same_updates [simp]:
  "p_same e (p_notify n e') = p_same e e'" "p_same e (metrics_add_pdus k e') = p_same e e'"
  "p_same e (metrics_add_dropped_pdus e') = p_same e e'" "p_same e (metrics_add_integrity_verified_pdus e') = p_same e e'"
  "p_same e (metrics_add_integrity_failed_pdus e') = p_same e e'" "p_same e (e'\<lparr>max_count_notified := b\<rparr>) = p_same e e'"
  "p_same e (e'\<lparr>max_count_overflow := b\<rparr>) = p_same e e'"
  by (simp_all add: p_same_def) (simp_all add: p_metrics_defs)

lemma p_check_max_count_same:
  "p_same e (snd (p_check_max_count c e))" "fst (p_check_max_count c e) \<longleftrightarrow> c \<ge> max_count_hard (p_cfg e)"
  by (simp_all add: p_check_max_count_def Let_def)

lemma p_security_verdict_same:
  "p_same e (snd (p_security_verdict r e))" "fst (p_security_verdict r e) = (case r of Inl _ \<Rightarrow> None | Inr b \<Rightarrow> Some b)"
  by (simp_all add: p_security_verdict_def split: sum.split security_error.split)

lemma p_security_verdict_sameD: "p_security_verdict a e = (r, e') \<Longrightarrow> p_same e e'"
  using p_security_verdict_same(1) [of e a] by simp

lemma apply_deciphering_same: "apply_deciphering_and_integrity_check buf c e = Inr (r, e') \<Longrightarrow> p_same e e'"
  by (auto simp: apply_deciphering_and_integrity_check_def Let_def rbind_eq_Inr split: option.splits if_splits dest: p_security_verdict_sameD)

lemma p_same_trans: "p_same e e1 \<Longrightarrow> p_same e1 e2 \<Longrightarrow> p_same e e2"
  by (simp add: p_same_def)

text \<open>PDUs that leave room for the header once the code of the message is cut off and that fit the buffer of the
  engines, and engines that do not abort on them and cut off no more than the code.\<close>

definition p_pdu_ok :: "pdcp_entity_rx \<Rightarrow> byte list \<Rightarrow> bool" where
  "p_pdu_ok e buf \<longleftrightarrow>
     (p_is_srb e \<or> p_sec_engine e \<noteq> None \<longrightarrow> pdcp_hdr_len (rx_sn_size (p_cfg e)) + sec_mac_len \<le> length buf) \<and>
     (p_sec_engine e \<noteq> None \<longrightarrow> length buf \<le> sec_max_pdu_size - 20)"

definition p_engine_ok :: "security_fun \<Rightarrow> bool" where
  "p_engine_ok f \<longleftrightarrow> (\<forall>buf h c. h < length buf \<and> length buf \<le> sec_max_pdu_size - 20 \<longrightarrow>
     succeeds (f buf h c) (\<lambda>r. \<forall>b. r = Inr b \<longrightarrow> length buf \<le> length b + sec_mac_len))"

lemma hdr_size_eq: "sz \<noteq> pdcp_size_invalid \<Longrightarrow> (if sz = pdcp_size12bits then 2 else 3) = pdcp_hdr_len sz"
  by (cases sz) (simp_all add: pdcp_hdr_len_def)

lemma apply_deciphering_ok:
  assumes "p_pdu_ok e buf" "\<And>f. p_sec_engine e = Some f \<Longrightarrow> p_engine_ok f" "pdcp_hdr_len (rx_sn_size (p_cfg e)) < length buf"
    and "rx_sn_size (p_cfg e) \<noteq> pdcp_size_invalid"
  shows "succeeds (apply_deciphering_and_integrity_check buf c e)
    (\<lambda>(r, e'). p_same e e' \<and> (\<forall>b. r = Some b \<longrightarrow> pdcp_hdr_len (rx_sn_size (p_cfg e)) \<le> length b))"
proof (cases "p_sec_engine e")
  case None
  then show ?thesis
    using assms(1,3) by (auto simp: apply_deciphering_and_integrity_check_def p_pdu_ok_def)
next
  case (Some f)
  let ?h = "pdcp_hdr_len (rx_sn_size (p_cfg e))"
  have "succeeds (f buf ?h c) (\<lambda>r. \<forall>b. r = Inr b \<longrightarrow> length buf \<le> length b + sec_mac_len)"
    using assms(1,3) assms(2) [OF Some] Some by (simp add: p_engine_ok_def p_pdu_ok_def)
  then obtain r where r: "f buf ?h c = Inr r" "\<forall>b. r = Inr b \<longrightarrow> length buf \<le> length b + sec_mac_len"
    by (auto dest: succeedsD)
  have "?h + sec_mac_len \<le> length buf"
    using assms(1) Some by (simp add: p_pdu_ok_def)
  then show ?thesis
    using r Some hdr_size_eq [OF assms(4)] p_security_verdict_same [where e = e and r = r]
    by (auto simp: apply_deciphering_and_integrity_check_def split_beta split: sum.splits)
qed

lemma pdcp_read_sn_bound:
  assumes "pdcp_read_data_pdu_header sz buf = Some sn"
  shows "uint sn < 2 ^ pdcp_sn_size_to_uint sz"
proof -
  have b: "bit (b :: byte) k \<Longrightarrow> k < 8" "bit (15 :: byte) k \<Longrightarrow> k < 4" "bit (3 :: byte) k \<Longrightarrow> k < 2" for b k
    using bit_small [of "15 :: byte" 4 k] bit_small [of "3 :: byte" 2 k] bit_imp_le_length [of b k] by simp_all
  have "i < pdcp_sn_size_to_uint sz" if "bit sn i" for i
  proof (cases sz)
    case pdcp_size12bits
    then show ?thesis
      using assms that b(1) [of "buf ! 1" i] b(2) [of "i - 8"]
      by (auto simp: pdcp_read_data_pdu_header_def bit_simps split: if_splits)
  next
    case pdcp_size18bits
    then show ?thesis
      using assms that b(1) [of "buf ! 2" i] b(1) [of "buf ! 1" "i - 8"] b(3) [of "i - 16"]
      by (auto simp: pdcp_read_data_pdu_header_def bit_simps split: if_splits)
  next
    case pdcp_size_invalid
    then show ?thesis
      using assms by (simp add: pdcp_read_data_pdu_header_def split: if_splits)
  qed
  then have "sn = take_bit (pdcp_sn_size_to_uint sz) sn"
    by (intro bit_word_eqI) (auto simp: bit_simps)
  then have "uint sn = take_bit (pdcp_sn_size_to_uint sz) (uint sn)"
    by (metis unsigned_take_bit_eq)
  then show ?thesis
    by (metis take_bit_int_less_exp)
qed

end
