(* ===== verification/Pdcp_Rx_Correct.thy ===== *)
theory Pdcp_Rx_Correct
  imports Pdcp_Rx_Inv
begin

text \<open>
  What the receiving PDCP entity does for its users: it accepts the PDUs that carry SDUs, delivers the SDUs in order however
  the PDUs arrive, never fails in a reachable state, and re-establishes and reports its state.
\<close>

subsection \<open>Accepted PDUs\<close>

text \<open>A PDU that carries an SDU under a COUNT: what the checks of a data PDU need in order to accept it.\<close>

definition pdcp_carries :: "pdcp_entity_rx \<Rightarrow> u32 \<Rightarrow> byte list \<Rightarrow> byte list \<Rightarrow> bool" where
  "pdcp_carries e c sdu pdu \<longleftrightarrow> pdcp_read_data_pdu_header (rx_sn_size (p_cfg e)) pdu = Some (pdcp_compute_sn c (rx_sn_size (p_cfg e))) \<and>
     (p_is_srb e \<or> pdcp_pdu_get_dc (hd pdu) = dc_data) \<and>
     (\<exists>b e'. apply_deciphering_and_integrity_check pdu c e = Inr (Some b, e') \<and>
          pdcp_hdr_len (rx_sn_size (p_cfg e)) \<le> length b \<and> drop (pdcp_hdr_len (rx_sn_size (p_cfg e))) b = sdu)"

lemma apply_deciphering_result_cong:
  "apply_deciphering_and_integrity_check pdu c e = Inr (r, x) \<Longrightarrow> p_sec_engine e' = p_sec_engine e \<Longrightarrow> p_cfg e' = p_cfg e \<Longrightarrow>
   \<exists>x'. apply_deciphering_and_integrity_check pdu c e' = Inr (r, x')"
  using p_security_verdict_same(2) [of _ e] p_security_verdict_same(2) [of _ e']
  by (auto simp: apply_deciphering_and_integrity_check_def Let_def rbind_eq_Inr prod_eq_iff split: option.splits if_splits)

lemma pdcp_handle_data_carried:
  assumes "pdcp_carries e c sdu pdu" "rx_sn_size (p_cfg e) \<noteq> pdcp_size_invalid" "c < max_count_hard (p_cfg e)"
    and "pdcp_rcvd_count (rx_sn_size (p_cfg e)) (rx_deliv e) (pdcp_compute_sn c (rx_sn_size (p_cfg e))) = c"
  obtains e2 where "p_same e e2" "pdcp_handle_data_pdu pdu e =
    rbind (p_store c sdu e2) (\<lambda>(stored, e3). if stored then p_stored c e3 else Inr e3)"
proof -
  let ?sz = "rx_sn_size (p_cfg e)"
  define e1 where "e1 = snd (p_check_max_count c e)"
  have e1: "p_check_max_count c e = (False, e1)" "p_same e e1"
    using p_check_max_count_same [where c = c and e = e] assms(3) by (auto simp: e1_def prod_eq_iff)
  obtain b x where b: "apply_deciphering_and_integrity_check pdu c e = Inr (Some b, x)" "pdcp_hdr_len ?sz \<le> length b"
      "drop (pdcp_hdr_len ?sz) b = sdu"
    using assms(1) by (auto simp: pdcp_carries_def)
  obtain e2 where e2: "apply_deciphering_and_integrity_check pdu c e1 = Inr (Some b, e2)"
    using apply_deciphering_result_cong [OF b(1), of e1] e1(2) by (auto simp: p_same_def)
  note same = p_same_trans [OF e1(2) apply_deciphering_same [OF e2]]
  have read: "pdcp_read_data_pdu_header ?sz pdu = Some (pdcp_compute_sn c ?sz)" "pdcp_hdr_len ?sz < length pdu"
    using assms(1) by (auto simp: pdcp_carries_def pdcp_read_data_pdu_header_def split: if_splits)
  have "rx_sn_size (p_cfg e2) = ?sz"
    using same by (simp add: p_same_def)
  then have "byte_buffer_trim_head (if rx_sn_size (p_cfg e2) = pdcp_size12bits then 2 else 3) b = Inr sdu"
    using b(2,3) hdr_size_eq [OF assms(2)] by (simp add: byte_buffer_trim_head_def)
  then have "pdcp_handle_data_pdu pdu e = rbind (p_store c sdu e2) (\<lambda>(stored, e3). if stored then p_stored c e3 else Inr e3)"
    using read e1(1) e2 assms(4) by (simp add: pdcp_handle_data_pdu_def)
  with same show thesis
    by (rule that)
qed

lemma pdcp_carries_not_empty: "pdcp_carries e c sdu pdu \<Longrightarrow> pdu \<noteq> []"
  by (auto simp: pdcp_carries_def pdcp_read_data_pdu_header_def split: if_splits)

lemma pdcp_carries_cong: "p_sec_engine e' = p_sec_engine e \<Longrightarrow> p_cfg e' = p_cfg e \<Longrightarrow> pdcp_carries e' c sdu pdu = pdcp_carries e c sdu pdu"
  using apply_deciphering_result_cong [of pdu c e _ _ e'] apply_deciphering_result_cong [of pdu c e' _ _ e]
  unfolding pdcp_carries_def by metis

lemma pdcp_handle_carried:
  assumes "pdcp_carries e c sdu pdu" "rx_sn_size (p_cfg e) \<noteq> pdcp_size_invalid" "c < max_count_hard (p_cfg e)"
    and "pdcp_rcvd_count (rx_sn_size (p_cfg e)) (rx_deliv e) (pdcp_compute_sn c (rx_sn_size (p_cfg e))) = c"
  obtains e2 where "p_same e e2" "pdcp_handle_pdu pdu e =
    rbind (p_store c sdu e2) (\<lambda>(stored, e3). if stored then p_stored c e3 else Inr e3)"
proof -
  define m where "m = metrics_add_pdus (length pdu) e"
  have m: "p_same e m" "p_cfg m = p_cfg e" "rx_deliv m = rx_deliv e" "p_sec_engine m = p_sec_engine e"
    by (simp_all add: m_def) (simp_all add: p_metrics_defs)
  have "pdcp_carries m c sdu pdu"
    using assms(1) m pdcp_carries_cong by blast
  then obtain e2 where e2: "p_same m e2" "pdcp_handle_data_pdu pdu m =
      rbind (p_store c sdu e2) (\<lambda>(stored, e3). if stored then p_stored c e3 else Inr e3)"
    using pdcp_handle_data_carried [of m c sdu pdu] assms(2-4) m by (metis (no_types, lifting))
  have "pdcp_handle_pdu pdu e = pdcp_handle_data_pdu pdu m"
    using assms(1) m(2) pdcp_carries_not_empty [OF assms(1)]
    by (auto simp: pdcp_handle_pdu_def Let_def m_def [symmetric] pdcp_carries_def)
  then show thesis
    using that [OF p_same_trans [OF m(1) e2(1)]] e2(2) by simp
qed

text \<open>Whatever the COUNT that was reconstructed: storing the PDU keeps the invariant.\<close>

lemma p_store_stored_ok:
  assumes "pdcp_rx_inv e" "c < max_count_hard (p_cfg e)" "uint sn < 2 ^ pdcp_sn_size_to_uint (rx_sn_size (p_cfg e))"
    and "c = pdcp_rcvd_count (rx_sn_size (p_cfg e)) (rx_deliv e) sn"
  shows "succeeds (rbind (p_store c sdu e) (\<lambda>(stored, e3). if stored then p_stored c e3 else Inr e3))
    (\<lambda>e'. pdcp_rx_inv e' \<and> p_cfg e' = p_cfg e \<and> p_sec_engine e' = p_sec_engine e)"
proof -
  let ?sz = "rx_sn_size (p_cfg e)"
  have core: "p_core e" and cfg: "?sz \<noteq> pdcp_size_invalid" "uint (max_count_hard (p_cfg e)) \<le> 4294967296 - 2 ^ pdcp_sn_size_to_uint ?sz"
      and d: "rx_deliv e \<le> max_count_hard (p_cfg e)"
    using assms(1) by (auto simp: pdcp_rx_inv_def p_core_def p_weak_def p_cfg_ok_def)
  have win: "unat c < unat (rx_deliv e) + unat (pdcp_window_size ?sz)"
  proof (cases "rx_deliv e \<le> c")
    case True
    have "uint c < 4294967296 - 2 ^ pdcp_sn_size_to_uint ?sz" "uint (rx_deliv e) \<le> 4294967296 - 2 ^ pdcp_sn_size_to_uint ?sz"
      using cfg(2) d assms(2) by (simp_all add: word_less_def word_le_def)
    then have "uint c < uint (rx_deliv e) + uint (pdcp_window_size ?sz)"
      using rcvd_count_window [OF cfg(1) assms(3), of "rx_deliv e"] True assms(4) by simp
    then show ?thesis
      by (simp only: uint_nat of_nat_add [symmetric] of_nat_less_iff)
  next
    case False
    then show ?thesis
      by (simp add: word_le_nat_alt)
  qed
  from core win show ?thesis
  proof (cases rule: p_store_ok [where pdu = sdu])
    case dropped
    then show ?thesis
      using assms(1) by simp
  next
    case (stored w)
    then show ?thesis
      using p_stored_ok [OF assms(1) stored(2,3,4) assms(2) stored(6) win] by simp
  qed
qed

lemma pdcp_handle_data_pdu_ok:
  assumes "pdcp_rx_inv e" "p_pdu_ok e pdu" "\<And>f. p_sec_engine e = Some f \<Longrightarrow> p_engine_ok f"
  shows "succeeds (pdcp_handle_data_pdu pdu e) (\<lambda>e'. pdcp_rx_inv e' \<and> p_cfg e' = p_cfg e \<and> p_sec_engine e' = p_sec_engine e)"
proof (cases "length pdu \<le> pdcp_hdr_len (rx_sn_size (p_cfg e)) \<or> pdcp_read_data_pdu_header (rx_sn_size (p_cfg e)) pdu = None")
  case True
  then show ?thesis
    using assms(1) by (auto simp: pdcp_handle_data_pdu_def) (auto simp: p_metrics_defs)
next
  case False
  let ?sz = "rx_sn_size (p_cfg e)" and ?ok = "\<lambda>e'. pdcp_rx_inv e' \<and> p_cfg e' = p_cfg e \<and> p_sec_engine e' = p_sec_engine e"
  obtain sn where sn: "pdcp_read_data_pdu_header ?sz pdu = Some sn" "pdcp_hdr_len ?sz < length pdu"
    using False by auto
  define c where "c = pdcp_rcvd_count ?sz (rx_deliv e) sn"
  define e1 where "e1 = snd (p_check_max_count c e)"
  have e1: "p_same e e1" "p_check_max_count c e = (max_count_hard (p_cfg e) \<le> c, e1)"
    using p_check_max_count_same [where c = c and e = e] by (simp_all add: e1_def prod_eq_iff)
  have sz: "?sz \<noteq> pdcp_size_invalid"
    using assms(1) by (simp add: pdcp_rx_inv_def p_core_def p_weak_def p_cfg_ok_def)
  have e1_same: "p_cfg e1 = p_cfg e" "p_sec_engine e1 = p_sec_engine e"
    using e1(1) by (simp_all add: p_same_def)
  have "p_pdu_ok e1 pdu"
    using assms(2) e1_same by (simp add: p_pdu_ok_def)
  note dec = apply_deciphering_ok [OF this, unfolded e1_same, OF assms(3) sn(2) sz, of c]
  obtain r e2 where r: "apply_deciphering_and_integrity_check pdu c e1 = Inr (r, e2)" "p_same e1 e2"
      "\<forall>b. r = Some b \<longrightarrow> pdcp_hdr_len ?sz \<le> length b"
    using succeedsD [OF dec] by auto
  have e2: "p_same e e2"
    using p_same_trans [OF e1(1) r(2)] .
  have ok: "?ok e1" "?ok e2" "rx_deliv e2 = rx_deliv e"
    using e1(1) e2 assms(1) by (auto simp: p_same_def)
  consider "max_count_hard (p_cfg e) \<le> c \<or> r = None" | b where "c < max_count_hard (p_cfg e)" "r = Some b"
    by force
  then show ?thesis
  proof cases
    case 1
    then show ?thesis
      using sn e1(2) r(1) ok by (auto simp: pdcp_handle_data_pdu_def c_def [symmetric])
  next
    case (2 b)
    have "byte_buffer_trim_head (if rx_sn_size (p_cfg e2) = pdcp_size12bits then 2 else 3) b = Inr (drop (pdcp_hdr_len ?sz) b)"
      using ok(2) hdr_size_eq [OF sz] r(3) 2(2) by (simp add: byte_buffer_trim_head_def)
    then have "pdcp_handle_data_pdu pdu e = rbind (p_store c (drop (pdcp_hdr_len ?sz) b) e2) (\<lambda>(stored, e3). if stored then p_stored c e3 else Inr e3)"
      using sn e1(2) r(1) 2(2) leD [of "max_count_hard (p_cfg e)" c] 2(1) by (auto simp: pdcp_handle_data_pdu_def c_def [symmetric])
    moreover have "succeeds \<dots> (\<lambda>e'. pdcp_rx_inv e' \<and> p_cfg e' = p_cfg e2 \<and> p_sec_engine e' = p_sec_engine e2)"
      using ok 2(1) pdcp_read_sn_bound [OF sn(1)] c_def by (intro p_store_stored_ok [where sn = sn]) simp_all
    ultimately show ?thesis
      using ok(2) by simp
  qed
qed

subsection \<open>Reordering\<close>

lemma upt_split: "a \<le> b \<Longrightarrow> b \<le> c \<Longrightarrow> [a..<c] = [a..<b] @ [b..<c]"
  by (metis le_add_diff_inverse upt_add_eq_append)

text \<open>The first COUNT that is missing among those received.\<close>

definition first_missing :: "nat list \<Rightarrow> nat" where
  "first_missing cs = length (takeWhile (\<lambda>c. c \<in> set cs) [0..<length cs])"

lemma first_missing_eq:
  assumes "{..<k} \<subseteq> set cs" "k \<notin> set cs"
  shows "first_missing cs = k"
proof -
  have "card {..<k} \<le> length cs"
    using card_mono [OF finite_set assms(1)] card_length [of cs] by simp
  then have "[0..<length cs] = [0..<k] @ [k..<length cs]"
    by (intro upt_split) simp_all
  moreover have "takeWhile (\<lambda>c. c \<in> set cs) [0..<k] = [0..<k]"
    using assms(1) by (intro takeWhile_eq_all_conv [THEN iffD2]) auto
  moreover have "takeWhile (\<lambda>c. c \<in> set cs) [k..<length cs] = []"
    using assms(2) by (cases "k < length cs") (simp_all add: upt_conv_Cons)
  ultimately show ?thesis
    using assms(1) by (simp add: first_missing_def takeWhile_append subset_iff)
qed

text \<open>The entity after PDUs with the COUNTs \<open>cs\<close>: what is consecutive is delivered, the rest is in the window.\<close>

definition p_got :: "(nat \<Rightarrow> byte list) \<Rightarrow> nat set \<Rightarrow> pdcp_entity_rx \<Rightarrow> bool" where
  "p_got sdu R e \<longleftrightarrow> pdcp_rx_inv e \<and> {..<unat (rx_deliv e)} \<subseteq> R \<and>
     p_sdus e = map (\<lambda>k. (of_nat k, sdu k)) [0..<unat (rx_deliv e)] \<and>
     (\<forall>k \<ge> unat (rx_deliv e). cm_lookup (p_rx_window e) k = (if k \<in> R then Some \<lparr>info_sdu = sdu k, info_count = of_nat k\<rparr> else None))"

lemma p_got_missing: "p_got sdu R e \<Longrightarrow> unat (rx_deliv e) \<notin> R"
  by (auto simp: p_got_def pdcp_rx_inv_def p_core_def split: if_splits)

lemma p_got_same: "p_same e e' \<Longrightarrow> p_got sdu R e' = p_got sdu R e"
  by (simp add: p_got_def p_same_def)

lemma p_timers_waits:
  assumes "rx_t_reordering (p_cfg e) \<noteq> reord_ms 0"
  shows "succeeds (p_timers e) (\<lambda>e'. rx_deliv e' = rx_deliv e \<and> p_sdus e' = p_sdus e \<and> p_rx_window e' = p_rx_window e)"
  using assms by (simp add: p_timers_def Let_def)

lemma p_consecutive_got:
  assumes "p_consecutive nxt c e e'" "p_sdus e = map (\<lambda>k. (of_nat k, sdu k)) [0..<unat c]" "{..<unat c} \<subseteq> R"
    and "\<forall>k \<ge> unat c. cm_lookup (p_rx_window e) k = (if k \<in> R then Some \<lparr>info_sdu = sdu k, info_count = of_nat k\<rparr> else None)"
  shows "{..<unat (rx_deliv e')} \<subseteq> R" "p_sdus e' = map (\<lambda>k. (of_nat k, sdu k)) [0..<unat (rx_deliv e')]"
    "\<forall>k \<ge> unat (rx_deliv e'). cm_lookup (p_rx_window e') k = (if k \<in> R then Some \<lparr>info_sdu = sdu k, info_count = of_nat k\<rparr> else None)"
proof -
  let ?d = "unat (rx_deliv e')"
  have le: "unat c \<le> ?d" and pass: "p_sdus e' = p_sdus e @ p_range (unat c) ?d (p_rx_window e)"
    and look: "cm_lookup (p_rx_window e') k = (if unat c \<le> k \<and> k < ?d then None else cm_lookup (p_rx_window e) k)" for k
    using assms(1) by (simp_all add: p_consecutive_def p_passed_def word_le_nat_alt)
  have mem: "k \<in> R" if "unat c \<le> k" "k < ?d" for k
    using assms(1,4) that by (auto simp: p_consecutive_def split: if_splits)
  then show "{..<?d} \<subseteq> R"
    using assms(3) by (meson lessThan_iff not_le subset_iff)
  have "p_range (unat c) ?d (p_rx_window e) = map (\<lambda>k. (of_nat k, sdu k)) [unat c..<?d]"
    using mem assms(4) by (auto simp: p_range_def filter_True)
  moreover have "[0..<?d] = [0..<unat c] @ [unat c..<?d]"
    using le by (intro upt_split) simp_all
  ultimately show "p_sdus e' = map (\<lambda>k. (of_nat k, sdu k)) [0..<?d]"
    using pass assms(2) by simp
  show "\<forall>k \<ge> ?d. cm_lookup (p_rx_window e') k = (if k \<in> R then Some \<lparr>info_sdu = sdu k, info_count = of_nat k\<rparr> else None)"
    using look assms(4) le by auto
qed

lemma p_stored_got:
  assumes "p_got sdu R e" "rx_t_reordering (p_cfg e) \<noteq> reord_ms 0" "rx_deliv e \<le> c" "cm_inv win"
    and "cm_size win = cm_size (p_rx_window e)" "c < max_count_hard (p_cfg e)"
    and look: "cm_lookup win = (cm_lookup (p_rx_window e))(unat c \<mapsto> \<lparr>info_sdu = sdu (unat c), info_count = c\<rparr>)"
    and win: "unat c < unat (rx_deliv e) + unat (pdcp_window_size (rx_sn_size (p_cfg e)))"
  shows "succeeds (p_stored c (e\<lparr>p_rx_window := win\<rparr>))
    (\<lambda>e'. p_got sdu (insert (unat c) R) e' \<and> p_cfg e' = p_cfg e \<and> p_sec_engine e' = p_sec_engine e)"
proof -
  let ?R = "insert (unat c) R"
  define e1 where "e1 = (if c \<ge> rx_next e then e\<lparr>p_rx_window := win, rx_next := c + 1\<rparr> else e\<lparr>p_rx_window := win\<rparr>)"
  have inv: "pdcp_rx_inv e"
    using assms(1) by (simp add: p_got_def)
  have weak: "p_weak e1"
    unfolding e1_def using inv assms(3-8) by (intro p_stored_weak) (simp_all add: pdcp_rx_inv_def)
  have e1: "rx_deliv e1 = rx_deliv e" "p_cfg e1 = p_cfg e" "p_sdus e1 = p_sdus e" "p_rx_window e1 = win"
    by (simp_all add: e1_def)
  have got1: "p_sdus e1 = map (\<lambda>k. (of_nat k, sdu k)) [0..<unat (rx_deliv e1)]" "{..<unat (rx_deliv e1)} \<subseteq> ?R"
      "\<forall>k \<ge> unat (rx_deliv e1). cm_lookup (p_rx_window e1) k = (if k \<in> ?R then Some \<lparr>info_sdu = sdu k, info_count = of_nat k\<rparr> else None)"
    using assms(1) e1 look by (auto simp: p_got_def)
  have eq: "p_stored c (e\<lparr>p_rx_window := win\<rparr>) =
      rbind (if c = rx_deliv e1 then deliver_all_consecutive_counts e1 else Inr e1) p_timers"
    by (simp add: p_stored_def e1_def Let_def)
  obtain e2 where e2: "(if c = rx_deliv e1 then deliver_all_consecutive_counts e1 else Inr e1) = Inr e2" "p_cfg e2 = p_cfg e"
      "{..<unat (rx_deliv e2)} \<subseteq> ?R" "p_sdus e2 = map (\<lambda>k. (of_nat k, sdu k)) [0..<unat (rx_deliv e2)]"
      "\<forall>k \<ge> unat (rx_deliv e2). cm_lookup (p_rx_window e2) k = (if k \<in> ?R then Some \<lparr>info_sdu = sdu k, info_count = of_nat k\<rparr> else None)"
  proof (cases "c = rx_deliv e1")
    case True
    obtain e2 where e2: "deliver_all_consecutive_counts e1 = Inr e2" "p_frame e1 e2" "p_consecutive (rx_next e1) (rx_deliv e1) e1 e2"
      using succeedsD [OF deliver_consecutive_ok [OF weak]] by blast
    then show thesis
      using True e1(2) p_consecutive_got [OF e2(3) got1] by (intro that [of e2]) (simp_all add: p_frame_def)
  next
    case False
    then show thesis
      using e1 got1 by (intro that [of e1]) simp_all
  qed
  obtain e3 where e3: "p_timers e2 = Inr e3" "rx_deliv e3 = rx_deliv e2" "p_sdus e3 = p_sdus e2" "p_rx_window e3 = p_rx_window e2"
    using succeedsD [OF p_timers_waits [of e2]] assms(2) e2(2) by auto
  have run: "p_stored c (e\<lparr>p_rx_window := win\<rparr>) = Inr e3"
    using eq e2(1) e3(1) by simp
  then have "pdcp_rx_inv e3 \<and> p_cfg e3 = p_cfg e \<and> p_sec_engine e3 = p_sec_engine e"
    using p_stored_ok [OF inv assms(3-6) look win] by simp
  then show ?thesis
    using run e2 e3 by (simp add: p_got_def)
qed

text \<open>The COUNTs arrive within the window around the first one that is missing.\<close>

primrec in_reach :: "nat \<Rightarrow> nat list \<Rightarrow> nat list \<Rightarrow> bool" where
  "in_reach W old [] \<longleftrightarrow> True"
| "in_reach W old (c # cs) \<longleftrightarrow> c < first_missing old + W \<and> first_missing old \<le> c + W \<and> in_reach W (old @ [c]) cs"

primrec pdcp_rx_run :: "byte list list \<Rightarrow> pdcp_entity_rx \<Rightarrow> pdcp_entity_rx result" where
  "pdcp_rx_run [] e = Inr e"
| "pdcp_rx_run (p # ps) e = rbind (pdcp_handle_pdu p e) (pdcp_rx_run ps)"

lemma p_store_got:
  assumes "p_got sdu R e" "rx_t_reordering (p_cfg e) \<noteq> reord_ms 0" "c < max_count_hard (p_cfg e)"
    and "unat c < unat (rx_deliv e) + unat (pdcp_window_size (rx_sn_size (p_cfg e)))"
  shows "succeeds (rbind (p_store c (sdu (unat c)) e) (\<lambda>(stored, e3). if stored then p_stored c e3 else Inr e3))
    (\<lambda>e'. p_got sdu (insert (unat c) R) e' \<and> p_cfg e' = p_cfg e \<and> p_sec_engine e' = p_sec_engine e)"
proof -
  have core: "p_core e"
    using assms(1) by (simp add: p_got_def pdcp_rx_inv_def)
  from core assms(4) show ?thesis
  proof (cases rule: p_store_ok [where pdu = "sdu (unat c)"])
    case dropped
    have "unat c \<in> R"
      using dropped(2) assms(1) by (cases "c < rx_deliv e") (auto simp: p_got_def word_less_nat_alt not_less split: if_splits)
    then show ?thesis
      using dropped(1) assms(1) by (simp add: insert_absorb)
  next
    case (stored w)
    then show ?thesis
      using p_stored_got [OF assms(1,2) stored(2-4) assms(3) stored(6) assms(4)] by simp
  qed
qed

lemma pdcp_handle_got:
  assumes "p_got sdu R e" "rx_t_reordering (p_cfg e) \<noteq> reord_ms 0" "c < unat (max_count_hard (p_cfg e))"
    and "c < unat (rx_deliv e) + unat (pdcp_window_size (rx_sn_size (p_cfg e)))"
    and "unat (rx_deliv e) \<le> c + unat (pdcp_window_size (rx_sn_size (p_cfg e)))"
    and "pdcp_carries e (of_nat c) (sdu c) pdu"
  shows "succeeds (pdcp_handle_pdu pdu e)
    (\<lambda>e'. p_got sdu (insert c R) e' \<and> p_cfg e' = p_cfg e \<and> p_sec_engine e' = p_sec_engine e)"
proof -
  let ?c = "of_nat c :: u32" and ?sz = "rx_sn_size (p_cfg e)"
  have c: "unat ?c = c"
    using assms(3) u32_bound [of "max_count_hard (p_cfg e)"] by (simp add: unsigned_of_nat take_bit_nat_eq_self)
  have sz: "?sz \<noteq> pdcp_size_invalid"
    using assms(1) by (simp add: p_got_def pdcp_rx_inv_def p_core_def p_weak_def p_cfg_ok_def)
  have hard: "?c < max_count_hard (p_cfg e)"
    using assms(3) c by (simp add: word_less_nat_alt)
  have "int c < int (unat (rx_deliv e) + unat (pdcp_window_size ?sz))" "int (unat (rx_deliv e)) \<le> int (c + unat (pdcp_window_size ?sz))"
    using assms(4,5) by (simp_all only: of_nat_less_iff of_nat_le_iff)
  then have "uint (rx_deliv e) - uint (pdcp_window_size ?sz) \<le> uint ?c" "uint ?c < uint (rx_deliv e) + uint (pdcp_window_size ?sz)"
    unfolding uint_nat c by simp_all
  note eq = rcvd_count_eq [OF sz this]
  obtain e2 where e2: "p_same e e2" "pdcp_handle_pdu pdu e =
      rbind (p_store ?c (sdu c) e2) (\<lambda>(stored, e3). if stored then p_stored ?c e3 else Inr e3)"
    by (rule pdcp_handle_carried [OF assms(6) sz hard eq])
  moreover have "p_cfg e2 = p_cfg e" "p_sec_engine e2 = p_sec_engine e" "rx_deliv e2 = rx_deliv e"
    using e2(1) by (simp_all add: p_same_def)
  ultimately show ?thesis
    using p_store_got [of sdu R e2 ?c] p_got_same [OF e2(1)] assms(1,2,4) hard c by simp
qed

lemma pdcp_run_got:
  assumes "p_got sdu (set old) e" "rx_t_reordering (p_cfg e) \<noteq> reord_ms 0"
    and "in_reach (unat (pdcp_window_size (rx_sn_size (p_cfg e)))) old (map fst ps)"
    and "\<forall>(c, pdu)\<in>set ps. c < unat (max_count_hard (p_cfg e)) \<and> pdcp_carries e (of_nat c) (sdu c) pdu"
  shows "succeeds (pdcp_rx_run (map snd ps) e) (p_got sdu (set (old @ map fst ps)))"
  using assms
proof (induction ps arbitrary: e old)
  case Nil
  then show ?case
    by simp
next
  case (Cons p ps)
  obtain c pdu where p: "p = (c, pdu)"
    by (cases p)
  have "first_missing old = unat (rx_deliv e)"
    using Cons.prems(1) p_got_missing [OF Cons.prems(1)] by (intro first_missing_eq) (simp_all add: p_got_def)
  then have "succeeds (pdcp_handle_pdu pdu e)
      (\<lambda>e'. p_got sdu (insert c (set old)) e' \<and> p_cfg e' = p_cfg e \<and> p_sec_engine e' = p_sec_engine e)"
    using Cons.prems p by (intro pdcp_handle_got) auto
  then show ?case
  proof (simp only: p list.map snd_conv pdcp_rx_run.simps succeeds_simps, elim succeeds_mono)
    fix e'
    assume e': "p_got sdu (insert c (set old)) e' \<and> p_cfg e' = p_cfg e \<and> p_sec_engine e' = p_sec_engine e"
    have "succeeds (pdcp_rx_run (map snd ps) e') (p_got sdu (set ((old @ [c]) @ map fst ps)))"
      using e' Cons.prems p pdcp_carries_cong [of e' e] by (intro Cons.IH) auto
    then show "succeeds (pdcp_rx_run (map snd ps) e') (p_got sdu (set (old @ fst (c, pdu) # map fst ps)))"
      by simp
  qed
qed

lemma p_got_new:
  assumes "p_got sdu (set cs) e"
  shows "p_sdus e = map (\<lambda>k. (of_nat k, sdu k)) [0..<first_missing cs]"
  using assms p_got_missing [OF assms] first_missing_eq [of "unat (rx_deliv e)" cs] by (simp add: p_got_def)

subsection \<open>Re-establishment\<close>

lemma p_discard_loop_ok:
  assumes "cm_inv (p_rx_window e)" "c \<le> nxt"
  shows "succeeds (p_discard_loop nxt c e) (\<lambda>e'. \<exists>win d. e' = e\<lparr>p_rx_window := win, rx_deliv := d\<rparr> \<and> cm_inv win \<and>
    cm_size win = cm_size (p_rx_window e) \<and> (c = nxt \<longrightarrow> d = rx_deliv e) \<and> (c \<noteq> nxt \<longrightarrow> d = nxt) \<and>
    (\<forall>k. cm_lookup win k = (if unat c \<le> k \<and> k < unat nxt then None else cm_lookup (p_rx_window e) k)))"
  using assms
proof (induction nxt c e rule: p_discard_loop.induct)
  case (1 nxt c e)
  show ?case
  proof (cases "c = nxt")
    case True
    then show ?thesis
      using 1 by (subst p_discard_loop.simps) (auto intro!: exI [of _ "p_rx_window e"])
  next
    case False
    then have c: "c < nxt" "c + 1 \<le> nxt" "unat (c + 1) = Suc (unat c)"
      using "1.prems"(2) unat_next [of c nxt] by (simp_all add: inc_le)
    obtain w where w: "(if cm_contains (unat c) (p_rx_window e) then window_remove_sn (unat c) (p_rx_window e)
        else Inr (p_rx_window e)) = Inr w" "cm_inv w" "cm_size w = cm_size (p_rx_window e)"
        "cm_lookup w = (cm_lookup (p_rx_window e))(unat c := None)"
    proof (cases "cm_contains (unat c) (p_rx_window e)")
      case True
      then show thesis
        using circ.remove_present [OF "1.prems"(1), of "unat c"] that by (auto simp: cm_contains_iff)
    next
      case False
      then show thesis
        using "1.prems"(1) by (intro that [of "p_rx_window e"]) (auto simp: cm_contains_iff)
    qed
    let ?e1 = "e\<lparr>p_rx_window := w, rx_deliv := c + 1\<rparr>"
    have "succeeds (p_discard_loop nxt (c + 1) ?e1) (\<lambda>e'. \<exists>win d. e' = ?e1\<lparr>p_rx_window := win, rx_deliv := d\<rparr> \<and> cm_inv win \<and>
        cm_size win = cm_size (p_rx_window ?e1) \<and> (c + 1 = nxt \<longrightarrow> d = rx_deliv ?e1) \<and> (c + 1 \<noteq> nxt \<longrightarrow> d = nxt) \<and>
        (\<forall>k. cm_lookup win k = (if unat (c + 1) \<le> k \<and> k < unat nxt then None else cm_lookup (p_rx_window ?e1) k)))"
      using False w c by (intro "1.IH") simp_all
    then have "succeeds (p_discard_loop nxt (c + 1) ?e1) (\<lambda>e'. \<exists>win d. e' = e\<lparr>p_rx_window := win, rx_deliv := d\<rparr> \<and> cm_inv win \<and>
        cm_size win = cm_size (p_rx_window e) \<and> (c = nxt \<longrightarrow> d = rx_deliv e) \<and> (c \<noteq> nxt \<longrightarrow> d = nxt) \<and>
        (\<forall>k. cm_lookup win k = (if unat c \<le> k \<and> k < unat nxt then None else cm_lookup (p_rx_window e) k)))"
    proof (rule succeeds_mono, elim exE conjE)
      fix e' win d
      assume "e' = ?e1\<lparr>p_rx_window := win, rx_deliv := d\<rparr>" "cm_inv win" "cm_size win = cm_size (p_rx_window ?e1)"
        "c + 1 = nxt \<longrightarrow> d = rx_deliv ?e1" "c + 1 \<noteq> nxt \<longrightarrow> d = nxt"
        and look: "\<forall>k. cm_lookup win k = (if unat (c + 1) \<le> k \<and> k < unat nxt then None else cm_lookup (p_rx_window ?e1) k)"
      moreover have "\<forall>k. cm_lookup win k = (if unat c \<le> k \<and> k < unat nxt then None else cm_lookup (p_rx_window e) k)"
        using look w(4) c(1,3) by (auto simp: word_less_nat_alt)
      ultimately show "\<exists>win d. e' = e\<lparr>p_rx_window := win, rx_deliv := d\<rparr> \<and> cm_inv win \<and>
        cm_size win = cm_size (p_rx_window e) \<and> (c = nxt \<longrightarrow> d = rx_deliv e) \<and> (c \<noteq> nxt \<longrightarrow> d = nxt) \<and>
        (\<forall>k. cm_lookup win k = (if unat c \<le> k \<and> k < unat nxt then None else cm_lookup (p_rx_window e) k))"
        using w(3) False by (intro exI [of _ win] exI [of _ d]) (cases "c + 1 = nxt"; simp)
    qed
    then show ?thesis
      using False w(1) by (subst p_discard_loop.simps) simp
  qed
qed

text \<open>The window is empty and the rest of the state is that of an entity without SDUs.\<close>

lemma discard_all_ok:
  assumes "pdcp_rx_inv e"
  shows "succeeds (discard_all_sdus e) (\<lambda>e'. \<exists>win. e' = e\<lparr>p_rx_window := win, rx_deliv := rx_next e\<rparr> \<and> cm_inv win \<and>
    cm_size win = cm_size (p_rx_window e) \<and> cm_lookup win = Map.empty)"
proof -
  have e: "cm_inv (p_rx_window e)" "rx_deliv e \<le> rx_next e"
    and keys: "cm_lookup (p_rx_window e) k = Some i \<Longrightarrow> unat (rx_deliv e) \<le> k \<and> k < unat (rx_next e)" for k i
    using assms by (auto simp: pdcp_rx_inv_def p_core_def p_weak_def)
  have none: "cm_lookup win = Map.empty"
    if "\<forall>k. cm_lookup win k = (if unat (rx_deliv e) \<le> k \<and> k < unat (rx_next e) then None else cm_lookup (p_rx_window e) k)" for win :: "pdcp_rx_sdu_info circular_map"
  proof
    fix k
    show "cm_lookup win k = None"
      using that keys [of k] by (cases "cm_lookup (p_rx_window e) k") auto
  qed
  show ?thesis
    unfolding discard_all_sdus_def
  proof (rule succeeds_mono [OF p_discard_loop_ok [OF e]], elim exE conjE)
    fix e' win d
    assume "e' = e\<lparr>p_rx_window := win, rx_deliv := d\<rparr>" "cm_inv win" "cm_size win = cm_size (p_rx_window e)"
      "rx_deliv e = rx_next e \<longrightarrow> d = rx_deliv e" "rx_deliv e \<noteq> rx_next e \<longrightarrow> d = rx_next e"
      "\<forall>k. cm_lookup win k = (if unat (rx_deliv e) \<le> k \<and> k < unat (rx_next e) then None else cm_lookup (p_rx_window e) k)"
    then show "\<exists>win. e' = e\<lparr>p_rx_window := win, rx_deliv := rx_next e\<rparr> \<and> cm_inv win \<and>
      cm_size win = cm_size (p_rx_window e) \<and> cm_lookup win = Map.empty"
      using none [of win] by (intro exI [of _ win]) (cases "rx_deliv e = rx_next e"; simp)
  qed
qed

lemma deliver_all_ok:
  assumes "cm_inv (p_rx_window e)" "rx_deliv e \<le> rx_next e"
    and "\<And>k i. cm_lookup (p_rx_window e) k = Some i \<Longrightarrow> unat (rx_deliv e) \<le> k \<and> k < unat (rx_next e)"
  shows "succeeds (deliver_all_sdus e) (\<lambda>e'. p_frame e e' \<and> cm_inv (p_rx_window e') \<and> cm_lookup (p_rx_window e') = Map.empty \<and>
    cm_size (p_rx_window e') = cm_size (p_rx_window e) \<and>
    p_sdus e' = p_sdus e @ p_range (unat (rx_deliv e)) (unat (rx_next e)) (p_rx_window e))"
  unfolding deliver_all_sdus_def
proof (rule succeeds_mono [OF p_deliver_all_loop_ok [OF assms(1,2)]])
  fix e'
  assume e': "p_passed (unat (rx_deliv e)) (unat (rx_next e)) e e' \<and> rx_deliv e' = rx_deliv e"
  then have "cm_lookup (p_rx_window e') k = None" for k
    using assms(3) [of k] by (cases "cm_lookup (p_rx_window e) k") (auto simp: p_passed_def)
  with e' show "p_frame e e' \<and> cm_inv (p_rx_window e') \<and> cm_lookup (p_rx_window e') = Map.empty \<and>
    cm_size (p_rx_window e') = cm_size (p_rx_window e) \<and>
    p_sdus e' = p_sdus e @ p_range (unat (rx_deliv e)) (unat (rx_next e)) (p_rx_window e)"
    by (auto simp: p_passed_def)
qed

definition p_domain_ok :: "sec_128_as_config \<Rightarrow> pdcp_entity_rx \<Rightarrow> bool" where
  "p_domain_ok sec e \<longleftrightarrow> sec_dom sec = (if p_is_srb e then sec_rrc else sec_up)"

text \<open>The engines can be constructed when their keys and algorithms are there.\<close>

definition engines_ok :: "(sec_128_as_config \<Rightarrow> security_direction \<Rightarrow> bool \<Rightarrow> bool \<Rightarrow> security_fun result) \<Rightarrow> sec_128_as_config \<Rightarrow> bool" where
  "engines_ok mk sec \<longleftrightarrow> (\<forall>d i c. (i \<longrightarrow> k_128_int sec \<noteq> None \<and> integ_algo sec \<noteq> None) \<longrightarrow> (\<exists>f. mk sec d i c = Inr f))"

lemma configure_ok:
  assumes "p_domain_ok sec e" "p_is_srb e \<Longrightarrow> i" "engines_ok mk sec"
  shows "succeeds (pdcp_configure_security mk sec i c e) (\<lambda>e'. e' = e \<or> (\<exists>f. mk sec (rx_direction (p_cfg e)) i c = Inr f \<and>
    e' = e\<lparr>p_integrity_enabled := i, p_ciphering_enabled := c, p_sec_engine := Some f\<rparr>))"
proof (cases "i \<and> (k_128_int sec = None \<or> integ_algo sec = None)")
  case False
  then obtain f where "mk sec (rx_direction (p_cfg e)) i c = Inr f"
    using assms(3) unfolding engines_ok_def by blast
  with False show ?thesis
    using assms(1,2) by (cases "rx_rb_type (p_cfg e)") (auto simp: pdcp_configure_security_def p_domain_ok_def)
qed (use assms in \<open>cases "rx_rb_type (p_cfg e)"; auto simp: pdcp_configure_security_def p_domain_ok_def\<close>)

text \<open>The SDUs that re-establishment passes up, and the invariant of the entity behind it: the record of
  deliveries starts anew.\<close>

definition p_fresh :: "pdcp_entity_rx \<Rightarrow> pdcp_entity_rx" where
  "p_fresh e = e\<lparr>p_sdus := []\<rparr>"

definition p_leftover :: "pdcp_entity_rx \<Rightarrow> (u32 \<times> byte list) list" where
  "p_leftover e = (if p_is_srb e \<or> \<not> p_is_um e then [] else p_range (unat (rx_deliv e)) (unat (rx_next e)) (p_rx_window e))"

lemma p_fresh_inv:
  assumes "p_cfg_ok (p_cfg e)" "cm_inv (p_rx_window e)" "cm_lookup (p_rx_window e) = Map.empty"
    and "cm_size (p_rx_window e) = unat (pdcp_window_size (rx_sn_size (p_cfg e)))" "\<not> reordering_timer e" "rx_next e = 0" "rx_deliv e = 0"
  shows "pdcp_rx_inv (p_fresh e)"
  using assms by (simp add: p_fresh_def pdcp_rx_inv_def p_core_def p_weak_def p_timer_ok_def)

definition p_cleared :: "pdcp_entity_rx \<Rightarrow> pdcp_entity_rx \<Rightarrow> bool" where
  "p_cleared e e' \<longleftrightarrow> p_cfg e' = p_cfg e \<and> p_integrity_enabled e' = p_integrity_enabled e \<and> p_sec_engine e' = p_sec_engine e \<and>
     p_sdus e' = p_sdus e @ p_leftover e \<and>
     pdcp_rx_inv (p_fresh (if p_is_srb e' \<or> p_is_um e' then e'\<lparr>rx_next := 0, rx_deliv := 0, rx_reord := 0\<rparr> else e'))"

lemma p_range_empty: "cm_lookup w = Map.empty \<Longrightarrow> p_range a b w = []" "p_range a a w = []"
  by (simp_all add: p_range_def)

lemma reestablish_srb:
  assumes "pdcp_rx_inv e" "p_is_srb e"
  shows "succeeds (rbind (discard_all_sdus e) (\<lambda>e1. let e2 = e1\<lparr>reordering_timer := False\<rparr> in
    if p_is_um e2 then deliver_all_sdus e2 else Inr e2)) (p_cleared e)"
  unfolding succeeds_simps
proof (rule succeeds_mono [OF discard_all_ok [OF assms(1)]], elim exE conjE)
  fix e1 win
  assume e1: "e1 = e\<lparr>p_rx_window := win, rx_deliv := rx_next e\<rparr>" "cm_inv win" "cm_size win = cm_size (p_rx_window e)" "cm_lookup win = Map.empty"
  let ?e2 = "e1\<lparr>reordering_timer := False\<rparr>"
  have inv: "p_cfg_ok (p_cfg e)" "cm_size (p_rx_window e) = unat (pdcp_window_size (rx_sn_size (p_cfg e)))"
    using assms(1) by (auto simp: pdcp_rx_inv_def p_core_def p_weak_def)
  have clear: "p_cleared e e'" if "p_frame ?e2 e'" "p_sdus e' = p_sdus e" "cm_inv (p_rx_window e')" "cm_lookup (p_rx_window e') = Map.empty"
      "cm_size (p_rx_window e') = cm_size win" for e'
    using that inv e1 assms(2) by (auto simp: p_cleared_def p_leftover_def p_frame_def intro!: p_fresh_inv)
  show "succeeds (let e2 = ?e2 in if p_is_um e2 then deliver_all_sdus e2 else Inr e2) (p_cleared e)"
  proof (cases "p_is_um ?e2")
    case True
    have "succeeds (deliver_all_sdus ?e2) (p_cleared e)"
      by (rule succeeds_mono [OF deliver_all_ok]) (use e1 clear in \<open>auto simp: p_range_empty\<close>)
    then show ?thesis
      using True by (simp add: Let_def)
  next
    case False
    then show ?thesis
      using clear [of ?e2] e1 by (simp add: Let_def)
  qed
qed

lemma reestablish_um:
  assumes "pdcp_rx_inv e" "\<not> p_is_srb e" "p_is_um e"
  shows "succeeds (deliver_all_sdus (e\<lparr>reordering_timer := False\<rparr>)) (p_cleared e)"
proof (rule succeeds_mono [OF deliver_all_ok])
  let ?e2 = "e\<lparr>reordering_timer := False\<rparr>"
  have inv: "p_cfg_ok (p_cfg e)" "cm_size (p_rx_window e) = unat (pdcp_window_size (rx_sn_size (p_cfg e)))"
    using assms(1) by (auto simp: pdcp_rx_inv_def p_core_def p_weak_def)
  show "cm_inv (p_rx_window ?e2)" "rx_deliv ?e2 \<le> rx_next ?e2"
    using assms(1) by (simp_all add: pdcp_rx_inv_def p_core_def p_weak_def)
  show "unat (rx_deliv ?e2) \<le> k \<and> k < unat (rx_next ?e2)" if "cm_lookup (p_rx_window ?e2) k = Some i" for k i
    using assms(1) that by (simp add: pdcp_rx_inv_def p_core_def p_weak_def)
  fix e'
  assume "p_frame ?e2 e' \<and> cm_inv (p_rx_window e') \<and> cm_lookup (p_rx_window e') = Map.empty \<and>
    cm_size (p_rx_window e') = cm_size (p_rx_window ?e2) \<and>
    p_sdus e' = p_sdus ?e2 @ p_range (unat (rx_deliv ?e2)) (unat (rx_next ?e2)) (p_rx_window ?e2)"
  then show "p_cleared e e'"
    using inv assms(2,3) by (auto simp: p_cleared_def p_leftover_def p_frame_def intro!: p_fresh_inv)
qed

lemma reestablish_am: "pdcp_rx_inv e \<Longrightarrow> \<not> p_is_srb e \<Longrightarrow> \<not> p_is_um e \<Longrightarrow> p_cleared e e"
  by (auto simp: p_cleared_def p_leftover_def p_fresh_def pdcp_rx_inv_def p_core_def p_weak_def p_timer_ok_def)

lemma pdcp_rx_inv_security [simp]:
  "pdcp_rx_inv (e\<lparr>p_integrity_enabled := i\<rparr>) = pdcp_rx_inv e" "pdcp_rx_inv (e\<lparr>p_ciphering_enabled := i\<rparr>) = pdcp_rx_inv e"
  "pdcp_rx_inv (e\<lparr>p_sec_engine := f\<rparr>) = pdcp_rx_inv e"
  by (simp_all add: pdcp_rx_inv_def p_core_def p_weak_def p_timer_ok_def)

lemma p_fresh_security [simp]:
  "pdcp_rx_inv (p_fresh (e\<lparr>p_integrity_enabled := i\<rparr>)) = pdcp_rx_inv (p_fresh e)"
  "pdcp_rx_inv (p_fresh (e\<lparr>p_ciphering_enabled := i\<rparr>)) = pdcp_rx_inv (p_fresh e)"
  "pdcp_rx_inv (p_fresh (e\<lparr>p_sec_engine := f\<rparr>)) = pdcp_rx_inv (p_fresh e)"
  by (simp_all add: p_fresh_def pdcp_rx_inv_def p_core_def p_weak_def p_timer_ok_def)

lemma pdcp_reestablish_ok:
  assumes "pdcp_rx_inv e" "p_domain_ok sec e" "p_is_srb e \<Longrightarrow> p_integrity_enabled e" "engines_ok mk sec"
  shows "succeeds (pdcp_reestablish mk sec e) (\<lambda>e'. pdcp_rx_inv (p_fresh e') \<and> p_cfg e' = p_cfg e \<and> p_sdus e' = p_sdus e @ p_leftover e \<and>
    (p_is_srb e \<or> p_is_um e \<longrightarrow> rx_next e' = 0 \<and> rx_deliv e' = 0) \<and>
    (p_sec_engine e' = p_sec_engine e \<or> (\<exists>d i c f. mk sec d i c = Inr f \<and> p_sec_engine e' = Some f)))"
proof -
  let ?clear = "rbind (if p_is_srb e then discard_all_sdus e else Inr e) (\<lambda>e1. if p_is_srb e1 \<or> p_is_um e1
      then let e2 = e1\<lparr>reordering_timer := False\<rparr> in if p_is_um e2 then deliver_all_sdus e2 else Inr e2 else Inr e1)"
  let ?sec = "\<lambda>e3. let e4 = (if p_is_srb e3 \<or> p_is_um e3 then e3\<lparr>rx_next := 0, rx_deliv := 0, rx_reord := 0\<rparr> else e3)
     in pdcp_configure_security mk sec (p_integrity_enabled e4) (p_ciphering_enabled e4) e4"
  have "succeeds ?clear (p_cleared e)"
  proof (cases "p_is_srb e")
    case True
    then have "?clear = rbind (discard_all_sdus e) (\<lambda>e1. let e2 = e1\<lparr>reordering_timer := False\<rparr> in
        if p_is_um e2 then deliver_all_sdus e2 else Inr e2)"
      using succeedsD [OF discard_all_ok [OF assms(1)]] by auto
    then show ?thesis
      using reestablish_srb [OF assms(1) True] by simp
  next
    case False
    then show ?thesis
      using reestablish_um [OF assms(1) False] reestablish_am [OF assms(1) False] by (simp add: Let_def)
  qed
  then obtain e3 where e3: "?clear = Inr e3" "p_cleared e e3"
    by (rule exE [OF succeedsD]) blast
  define e4 where "e4 = (if p_is_srb e3 \<or> p_is_um e3 then e3\<lparr>rx_next := 0, rx_deliv := 0, rx_reord := 0\<rparr> else e3)"
  have e4: "p_cfg e4 = p_cfg e" "p_integrity_enabled e4 = p_integrity_enabled e" "p_sec_engine e4 = p_sec_engine e"
      "p_sdus e4 = p_sdus e @ p_leftover e" "pdcp_rx_inv (p_fresh e4)"
      "p_is_srb e \<or> p_is_um e \<longrightarrow> rx_next e4 = 0 \<and> rx_deliv e4 = 0"
    using e3(2) by (auto simp: p_cleared_def e4_def)
  have "pdcp_reestablish mk sec e = rbind ?clear ?sec"
    unfolding pdcp_reestablish_def rbind_assoc by simp
  then have eq: "pdcp_reestablish mk sec e = pdcp_configure_security mk sec (p_integrity_enabled e4) (p_ciphering_enabled e4) e4"
    using e3(1) by (simp add: e4_def Let_def)
  show ?thesis
    unfolding eq
  proof (rule succeeds_mono [OF configure_ok])
    show "p_domain_ok sec e4" "p_is_srb e4 \<Longrightarrow> p_integrity_enabled e4" "engines_ok mk sec"
      using assms(2,3,4) e4 by (simp_all add: p_domain_ok_def)
    fix e'
    assume "e' = e4 \<or> (\<exists>f. mk sec (rx_direction (p_cfg e4)) (p_integrity_enabled e4) (p_ciphering_enabled e4) = Inr f \<and>
        e' = e4\<lparr>p_integrity_enabled := p_integrity_enabled e4, p_ciphering_enabled := p_ciphering_enabled e4, p_sec_engine := Some f\<rparr>)"
    then show "pdcp_rx_inv (p_fresh e') \<and> p_cfg e' = p_cfg e \<and> p_sdus e' = p_sdus e @ p_leftover e \<and>
        (p_is_srb e \<or> p_is_um e \<longrightarrow> rx_next e' = 0 \<and> rx_deliv e' = 0) \<and>
        (p_sec_engine e' = p_sec_engine e \<or> (\<exists>d i c f. mk sec d i c = Inr f \<and> p_sec_engine e' = Some f))"
      by (elim disjE) (use e4 in auto)
  qed
qed

subsection \<open>Reachable states\<close>

lemma pdcp_handle_pdu_ok:
  assumes "pdcp_rx_inv e" "p_pdu_ok e buf" "\<And>f. p_sec_engine e = Some f \<Longrightarrow> p_engine_ok f"
  shows "succeeds (pdcp_handle_pdu buf e) (\<lambda>e'. pdcp_rx_inv e' \<and> p_cfg e' = p_cfg e \<and> p_sec_engine e' = p_sec_engine e)"
proof -
  define m where "m = metrics_add_pdus (length buf) e"
  have m: "pdcp_rx_inv m" "p_cfg m = p_cfg e" "p_sec_engine m = p_sec_engine e"
    using assms(1) by (simp_all add: m_def) (simp_all add: p_metrics_defs)
  have "p_pdu_ok m buf"
    using assms(2) m by (simp add: p_pdu_ok_def)
  note data = pdcp_handle_data_pdu_ok [OF m(1) this, unfolded m(2,3), OF assms(3)]
  consider "buf = []" | "buf \<noteq> []" "p_is_srb m \<or> pdcp_pdu_get_dc (hd buf) = dc_data"
    | "buf \<noteq> []" "\<not> p_is_srb m" "pdcp_pdu_get_dc (hd buf) = dc_control"
    by (cases "pdcp_pdu_get_dc (hd buf)") auto
  then show ?thesis
  proof cases
    case 1
    then show ?thesis
      using assms(1) by (simp add: pdcp_handle_pdu_def Let_def) (simp add: p_metrics_defs)
  next
    case 2
    then show ?thesis
      using data by (simp add: pdcp_handle_pdu_def Let_def m_def [symmetric])
  next
    case 3
    then show ?thesis
      using m by (simp add: pdcp_handle_pdu_def pdcp_handle_control_pdu_def Let_def m_def [symmetric] split: pdcp_control_pdu_type.split)
  qed
qed

lemma pdcp_timer_expired_ok:
  assumes "pdcp_rx_inv e" "reordering_timer e"
  shows "succeeds (pdcp_timer_expired e) (\<lambda>e'. pdcp_rx_inv e' \<and> p_cfg e' = p_cfg e \<and> p_sec_engine e' = p_sec_engine e)"
proof -
  let ?e = "e\<lparr>reordering_timer := False\<rparr>"
  have "p_weak ?e" "rx_deliv ?e \<le> rx_reord ?e" "rx_reord ?e \<le> rx_next ?e" "\<not> reordering_timer ?e"
      "rx_t_reordering (p_cfg ?e) \<noteq> reord_infinity"
    using assms by (auto simp: pdcp_rx_inv_def p_core_def p_weak_def p_timer_ok_def)
  from expire_ok [OF this] show ?thesis
    by (simp add: pdcp_timer_expired_def)
qed

lemma pdcp_new_inv: "pdcp_entity_rx_new cfg = Inr e \<Longrightarrow> p_cfg_ok cfg \<Longrightarrow> pdcp_rx_inv e \<and> p_cfg e = cfg \<and> p_sec_engine e = None"
  by (auto simp: pdcp_entity_rx_new_def pdcp_rx_inv_def p_core_def p_weak_def p_timer_ok_def cm_lookup_new cm_new_inv pdcp_window_size_def
      split: if_splits)

text \<open>The states of an entity: PDUs arrive, the timer expires, security is configured with engines that cut off no
  more than the code of a message, and the entity is re-established, after which the deliveries are recorded anew.\<close>

inductive pdcp_rx_reach :: "pdcp_rx_config \<Rightarrow> pdcp_entity_rx \<Rightarrow> bool" for cfg where
  reach_new: "pdcp_entity_rx_new cfg = Inr e \<Longrightarrow> pdcp_rx_reach cfg e"
| reach_pdu: "pdcp_rx_reach cfg e \<Longrightarrow> p_pdu_ok e buf \<Longrightarrow> pdcp_handle_pdu buf e = Inr e' \<Longrightarrow> pdcp_rx_reach cfg e'"
| reach_expired: "pdcp_rx_reach cfg e \<Longrightarrow> reordering_timer e \<Longrightarrow> pdcp_timer_expired e = Inr e' \<Longrightarrow> pdcp_rx_reach cfg e'"
| reach_security: "pdcp_rx_reach cfg e \<Longrightarrow> (\<And>s d i c f. mk s d i c = Inr f \<Longrightarrow> p_engine_ok f) \<Longrightarrow>
    pdcp_configure_security mk sec i c e = Inr e' \<Longrightarrow> pdcp_rx_reach cfg e'"
| reach_again: "pdcp_rx_reach cfg e \<Longrightarrow> (\<And>s d i c f. mk s d i c = Inr f \<Longrightarrow> p_engine_ok f) \<Longrightarrow> engines_ok mk sec \<Longrightarrow> p_domain_ok sec e \<Longrightarrow>
    (p_is_srb e \<longrightarrow> p_integrity_enabled e) \<Longrightarrow> pdcp_reestablish mk sec e = Inr e' \<Longrightarrow> pdcp_rx_reach cfg (p_fresh e')"

lemma p_fresh_sel [simp]: "p_cfg (p_fresh e) = p_cfg e" "p_sec_engine (p_fresh e) = p_sec_engine e"
  by (simp_all add: p_fresh_def)

lemma configure_result:
  assumes "pdcp_configure_security mk sec i c e = Inr e'"
  shows "e' = e \<or> (\<exists>f. mk sec (rx_direction (p_cfg e)) i c = Inr f \<and>
    e' = e\<lparr>p_integrity_enabled := i, p_ciphering_enabled := c, p_sec_engine := Some f\<rparr>)"
  using assms by (auto simp: pdcp_configure_security_def rbind_eq_Inr split: if_splits)

lemma pdcp_reach_inv:
  assumes "pdcp_rx_reach cfg e" "p_cfg_ok cfg"
  shows "pdcp_rx_inv e \<and> p_cfg e = cfg \<and> (\<forall>f. p_sec_engine e = Some f \<longrightarrow> p_engine_ok f)"
  using assms
proof (induction rule: pdcp_rx_reach.induct)
  case (reach_new e)
  then show ?case
    using pdcp_new_inv by auto
next
  case (reach_pdu e buf e')
  then show ?case
    using pdcp_handle_pdu_ok [of e buf] by simp
next
  case (reach_expired e e')
  then show ?case
    using pdcp_timer_expired_ok [of e] by simp
next
  case (reach_security e mk sec i c e')
  then show ?case
    using configure_result [OF reach_security(3)] by (auto simp del: disj_not1)
next
  case (reach_again e mk sec e')
  then have "pdcp_rx_inv (p_fresh e') \<and> p_cfg e' = p_cfg e \<and>
      (p_sec_engine e' = p_sec_engine e \<or> (\<exists>d i c f. mk sec d i c = Inr f \<and> p_sec_engine e' = Some f))"
    using pdcp_reestablish_ok [of e sec mk] by auto
  then show ?case
    using reach_again by auto
qed

subsection \<open>Receiving the first PDU\<close>

lemma p_store_first:
  assumes "cm_inv (p_rx_window e)" "cm_lookup (p_rx_window e) = Map.empty" "0 < cm_size (p_rx_window e)" "rx_deliv e \<le> c"
  obtains win where "p_store c pdu e = Inr (True, e\<lparr>p_rx_window := win\<rparr>)" "cm_inv win"
proof -
  let ?w = "p_rx_window e"
  obtain w1 where w1: "window_add_sn (unat c) \<lparr>info_sdu = [], info_count = 0\<rparr> ?w = Inr w1" "cm_inv w1" "cm_lookup w1 (unat c) \<noteq> None"
    using circ.add_in_range [OF assms(1), of "unat c" "unat c"] assms(2,3) by fastforce
  from circ.put_present [OF w1(2,3), of "\<lparr>info_sdu = pdu, info_count = c\<rparr>"]
  obtain w2 where w2: "cm_put (unat c) \<lparr>info_sdu = pdu, info_count = c\<rparr> w1 = Inr w2" "cm_inv w2"
    by blast
  have "\<not> c < rx_deliv e"
    using assms(4) by simp
  then have "p_store c pdu e = Inr (True, e\<lparr>p_rx_window := w2\<rparr>)"
    using assms(2) w1(1) w2(1) by (simp add: p_store_def cm_contains_iff)
  then show thesis
    using w2(2) by (rule that)
qed

lemma underflow_count: "pdcp_rcvd_count pdcp_size12bits 0 0x800 = 0xfffff800"
  by code_simp

lemma p_expire_all:
  assumes "cm_inv (p_rx_window e)" "rx_deliv e \<le> rx_reord e" "rx_reord e = rx_next e"
  shows "succeeds (handle_t_reordering_expire e) (\<lambda>e'. rx_deliv e' = rx_next e)"
proof -
  let ?m = "metrics_add_t_reordering_timeouts e"
  have m: "cm_inv (p_rx_window ?m)" "rx_deliv ?m = rx_deliv e"
    using assms(1) by (simp_all add: p_metrics_defs)
  have next': "rx_deliv e1 = rx_next e1" if "p_passed a b ?m e1" "rx_deliv e1 = rx_reord e" for a b e1
    using that assms(3) by (simp add: p_passed_def p_frame_def p_metrics_defs)
  show ?thesis
    unfolding handle_t_reordering_expire_def succeeds_simps
  proof (rule succeeds_mono [OF p_expire_loop_ok [OF m(1) assms(2) m(2)]], elim conjE)
    fix e1
    assume e1: "p_passed (unat (rx_deliv e)) (unat (rx_reord e)) ?m e1" "rx_deliv e1 = rx_reord e"
    then have "deliver_all_consecutive_counts e1 = Inr e1"
      using next' [OF e1] by (simp add: deliver_all_consecutive_counts_def p_consecutive_loop.simps)
    then show "succeeds (deliver_all_consecutive_counts e1) (\<lambda>e2. rx_deliv (if rx_deliv e2 < rx_next e2 \<and> rx_t_reordering (p_cfg e2) \<noteq> reord_ms 0
        then e2\<lparr>rx_reord := rx_next e2, reordering_timer := True\<rparr> else e2) = rx_next e)"
      using next' [OF e1] e1(2) assms(3) by simp
  qed
qed

subsection \<open>Status reports\<close>

lemma p_bitmap_loop_repr:
  assumes "enc_repr enc bits"
  shows "succeeds (p_bitmap_loop n i win enc) (\<lambda>enc'. enc_repr enc' (bits @ map (\<lambda>k. cm_contains k win) [unat i..<unat n]))"
  using assms
proof (induction n i win enc arbitrary: bits rule: p_bitmap_loop.induct)
  case (1 n i win enc)
  show ?case
  proof (cases "i < n")
    case False
    then show ?thesis
      using "1.prems" by (subst p_bitmap_loop.simps) (simp add: word_less_nat_alt)
  next
    case True
    let ?v = "if cm_contains (unat i) win then 1 else 0 :: u64"
    have v: "word_bits 1 ?v = [cm_contains (unat i) win]"
      by (simp add: word_bits_Suc)
    obtain enc1 where enc1: "pack ?v 1 enc = Inr enc1" "enc_repr enc1 (bits @ [cm_contains (unat i) win])"
      using succeedsD [OF pack_repr [OF "1.prems", of 1 ?v]] unfolding v by auto
    have "[unat i..<unat n] = unat i # [unat (i + 1)..<unat n]"
      using True unat_next [OF True] by (simp add: upt_conv_Cons word_less_nat_alt)
    then show ?thesis
      using "1.IH" [OF True enc1] True enc1(1) by (subst p_bitmap_loop.simps) simp
  qed
qed

text \<open>The largest COUNT a report covers.\<close>

definition p_report_end :: "pdcp_entity_rx \<Rightarrow> u32" where
  "p_report_end e = (if rx_deliv e + 1 < rx_next e \<and> rx_next e - (rx_deliv e + 1) > 71960 then rx_deliv e + 1 + 71960 else rx_next e)"

lemma compile_status_report_repr:
  "succeeds (compile_status_report e) (\<lambda>bytes. \<exists>pad. bits_of_bytes bytes =
     word_bits 8 (0 :: u64) @ word_bits 32 (rx_deliv e) @
     map (\<lambda>k. cm_contains k (p_rx_window e)) [unat (rx_deliv e + 1)..<unat (p_report_end e)] @ replicate pad False \<and> pad < 8)"
proof -
  have w: "word_bits (Suc 0) (0 :: u64) @ word_bits 3 (0 :: u64) @ word_bits 4 (0 :: u64) = word_bits 8 (0 :: u64)"
    by code_simp
  have d: "word_bits 32 (ucast (rx_deliv e) :: u64) = word_bits 32 (rx_deliv e)"
    by (rule nth_equalityI) (auto simp: bit_simps)
  obtain a where a: "pack 0 1 enc_new = Inr a" "enc_repr a (word_bits 1 (0 :: u64))"
    using succeedsD [OF pack_repr [OF enc_repr_new, of 1 0]] by auto
  obtain b where b: "pack 0 3 a = Inr b" "enc_repr b (word_bits 1 (0 :: u64) @ word_bits 3 (0 :: u64))"
    using succeedsD [OF pack_repr [OF a(2), of 3 0]] by auto
  obtain c where c: "pack 0 4 b = Inr c" "enc_repr c (word_bits 8 (0 :: u64))"
    using succeedsD [OF pack_repr [OF b(2), of 4 0]] w by auto
  obtain f where f: "pack (ucast (rx_deliv e)) 32 c = Inr f" "enc_repr f (word_bits 8 (0 :: u64) @ word_bits 32 (rx_deliv e))"
    using succeedsD [OF pack_repr [OF c(2), of 32 "ucast (rx_deliv e)"]] d by auto
  obtain g where g: "p_bitmap_loop (p_report_end e) (rx_deliv e + 1) (p_rx_window e) f = Inr g"
      "enc_repr g ((word_bits 8 (0 :: u64) @ word_bits 32 (rx_deliv e)) @
        map (\<lambda>k. cm_contains k (p_rx_window e)) [unat (rx_deliv e + 1)..<unat (p_report_end e)])"
    using succeedsD [OF p_bitmap_loop_repr [OF f(2), of "p_report_end e" "rx_deliv e + 1" "p_rx_window e"]] by auto
  have "compile_status_report e = Inr (enc_bytes g)"
    using a(1) b(1) c(1) f(1) g(1) by (simp add: compile_status_report_def Let_def pdcp_control_pdu_max_size_def p_report_end_def)
  then show ?thesis
    using g(2) by (auto simp: enc_repr_def)
qed


lemma p_report_length: "unat (p_report_end e) - unat (rx_deliv e + 1) \<le> 71960"
proof (cases "rx_deliv e + 1 < rx_next e")
  case True
  then have d: "unat (rx_next e - (rx_deliv e + 1)) = unat (rx_next e) - unat (rx_deliv e + 1)" "unat (rx_deliv e + 1) < unat (rx_next e)"
    using unat_sub [OF less_imp_le [OF True]] by (simp_all add: word_less_nat_alt)
  show ?thesis
  proof (cases "rx_next e - (rx_deliv e + 1) > 71960")
    case long: True
    then have "71960 < unat (rx_next e) - unat (rx_deliv e + 1)"
      using d by (simp add: word_less_nat_alt)
    then have "unat (rx_deliv e + 1) + 71960 < 4294967296"
      using u32_bound [of "rx_next e"] by linarith
    moreover have "unat b + 71960 < 4294967296 \<Longrightarrow> unat (b + 71960) = unat b + 71960" for b :: u32
      by (simp add: unat_word_ariths)
    ultimately have "unat (rx_deliv e + 1 + 71960) = unat (rx_deliv e + 1) + 71960"
      by blast
    then show ?thesis
      using True long by (simp add: p_report_end_def)
  next
    case False
    then have "p_report_end e = rx_next e" "unat (rx_next e - (rx_deliv e + 1)) \<le> 71960"
      by (simp_all only: p_report_end_def simp_thms if_False) (simp add: not_less word_le_nat_alt)
    then show ?thesis
      using d by simp
  qed
next
  case False
  then show ?thesis
    by (simp add: p_report_end_def word_less_nat_alt)
qed

subsection \<open>Properties\<close>


definition pdcp_demo_cfg :: "pdcp_rb_type \<Rightarrow> pdcp_rx_config" where
  "pdcp_demo_cfg t = \<lparr>rx_rb_type = t, rx_rlc_mode = mode_um, rx_sn_size = pdcp_size12bits, rx_direction = sec_uplink,
     rx_t_reordering = reord_ms 100, max_count_notify = 0xc0000000, max_count_hard = 0xd0000000\<rparr>"


text \<open>The COUNT of a PDU is recovered from its sequence number alone, as long as it is less than a window away from
  the next COUNT to be delivered, also across the ends of the hyper frames.\<close>

theorem pdcp_count_recovered:
  assumes "sz \<noteq> pdcp_size_invalid" "uint deliv - uint (pdcp_window_size sz) \<le> uint c" "uint c < uint deliv + uint (pdcp_window_size sz)"
  shows "pdcp_rcvd_count sz deliv (pdcp_compute_sn c sz) = c"
  using assms by (rule rcvd_count_eq)

theorem pdcp_count_recovered_witness: "pdcp_rcvd_count pdcp_size12bits 4090 (pdcp_compute_sn 5000 pdcp_size12bits) = 5000"
  by (rule pdcp_count_recovered) (simp_all add: uint_window_size)


text \<open>C37. Before security is set up, an SRB PDU of five bytes aborts the process: the four bytes of the message code are cut off
  and one byte is left, less than the header that is to be cut off next.\<close>

theorem pdcp_short_srb_pdu_aborts:
  assumes "pdcp_entity_rx_new cfg = Inr e" "rx_rb_type cfg = rb_srb" "rx_sn_size cfg = pdcp_size12bits" "max_count_hard cfg \<noteq> 0"
  shows "pdcp_handle_pdu [0, 0, x, y, z] e = Inl Assertion_Failed"
proof -
  have "pdcp_rcvd_count pdcp_size12bits 0 0 = 0"
    by (simp add: pdcp_rcvd_count_def pdcp_compute_sn_def pdcp_compute_hfn_def pdcp_compute_count_def pdcp_window_size_def)
  moreover have "\<not> max_count_hard cfg \<le> 0"
    using assms(4) by (simp add: word_le_nat_alt unat_gt_0)
  ultimately show ?thesis
    using assms by (auto simp: pdcp_entity_rx_new_def pdcp_handle_pdu_def pdcp_handle_data_pdu_def pdcp_read_data_pdu_header_def
        pdcp_hdr_len_def p_metrics_defs p_check_max_count_def apply_deciphering_and_integrity_check_def sec_mac_len_def
        byte_buffer_trim_head_def Let_def split: if_splits)
qed

theorem pdcp_short_srb_pdu_aborts_witness:
  "\<exists>e. pdcp_entity_rx_new (pdcp_demo_cfg rb_srb) = Inr e \<and> pdcp_handle_pdu [0, 0, 1, 2, 3] e = Inl Assertion_Failed"
proof -
  obtain e where "pdcp_entity_rx_new (pdcp_demo_cfg rb_srb) = Inr e"
    by (simp add: pdcp_entity_rx_new_def pdcp_demo_cfg_def)
  then show ?thesis
    using pdcp_short_srb_pdu_aborts [of "pdcp_demo_cfg rb_srb" e 1 2 3] by (simp add: pdcp_demo_cfg_def)
qed


text \<open>C38. The second PDU check of the COUNT fails at the start: the hyper frame number before the first one wraps around.
  A PDU with sequence number 2048 as the first one of a bearer without integrity protection is taken for COUNT
  4294965248, below the limit the receiver is configured with by default. It starts the timer, and when
  the timer expires all COUNTs of the bearer have passed.\<close>

theorem pdcp_hfn_underflow:
  assumes "pdcp_entity_rx_new cfg = Inr e" "rx_rb_type cfg = rb_drb" "rx_sn_size cfg = pdcp_size12bits"
    and "max_count_notify cfg = 0xc0000000" "max_count_hard cfg = 0xfffffffe" "rx_t_reordering cfg = reord_ms t" "t \<noteq> 0"
  shows "\<exists>e1 e2. pdcp_handle_pdu [0x88, 0, b] e = Inr e1 \<and> rx_next e1 = 0xfffff801 \<and>
    p_notifications e1 = [On_Max_Count_Reached] \<and> reordering_timer e1 \<and>
    pdcp_timer_expired e1 = Inr e2 \<and> rx_deliv e2 = 0xfffff801"
proof -
  define n where "n = (p_notify On_Max_Count_Reached (metrics_add_pdus 3 e))\<lparr>max_count_notified := True\<rparr>"
  have e: "p_cfg e = cfg" "p_sec_engine e = None" "rx_deliv e = 0" "rx_next e = 0" "\<not> reordering_timer e" "p_notifications e = []"
      "p_rx_window e = cm_new 2048" "\<not> max_count_notified e"
    using assms(1,3) by (auto simp: pdcp_entity_rx_new_def pdcp_window_size_def)
  have n: "p_cfg n = cfg" "p_sec_engine n = None" "rx_deliv n = 0" "rx_next n = 0" "\<not> reordering_timer n"
      "p_notifications n = [On_Max_Count_Reached]" "p_rx_window n = cm_new 2048"
    using e by (simp_all add: n_def p_metrics_defs)
  obtain win where win: "p_store 0xfffff800 [b] n = Inr (True, n\<lparr>p_rx_window := win\<rparr>)" "cm_inv win"
    using p_store_first [of n "0xfffff800" "[b]"] n by (auto simp: cm_new_inv cm_lookup_new)
  let ?e1 = "n\<lparr>p_rx_window := win, rx_next := 0xfffff801, rx_reord := 0xfffff801, reordering_timer := True\<rparr>"
  have check: "p_check_max_count 0xfffff800 (metrics_add_pdus 3 e) = (False, n)"
    using e assms(4,5) by (simp add: p_check_max_count_def n_def p_metrics_defs)
  have "pdcp_read_data_pdu_header pdcp_size12bits [0x88, 0, b] = Some 0x800" "pdcp_hdr_len pdcp_size12bits = 2" "pdcp_pdu_get_dc 0x88 = dc_data"
    by (simp_all add: pdcp_read_data_pdu_header_def pdcp_hdr_len_def pdcp_pdu_get_dc_def)
  moreover have "p_stored 0xfffff800 (n\<lparr>p_rx_window := win\<rparr>) = Inr ?e1"
    using n assms(6,7) by (simp add: p_stored_def p_timers_def Let_def)
  ultimately have run: "pdcp_handle_pdu [0x88, 0, b] e = Inr ?e1"
    using e assms(2,3) check underflow_count win(1) n
    by (simp add: pdcp_handle_pdu_def pdcp_handle_data_pdu_def Let_def apply_deciphering_and_integrity_check_def byte_buffer_trim_head_def p_metrics_defs)
  have "succeeds (pdcp_timer_expired ?e1) (\<lambda>e2. rx_deliv e2 = rx_next ?e1)"
    unfolding pdcp_timer_expired_def using win(2) n(3) p_expire_all [of "?e1\<lparr>reordering_timer := False\<rparr>"] by simp
  then show ?thesis
    using run n(6) by (auto dest: succeedsD)
qed

theorem pdcp_hfn_underflow_witness:
  "\<exists>e e1. pdcp_entity_rx_new (pdcp_demo_cfg rb_drb\<lparr>max_count_hard := 0xfffffffe\<rparr>) = Inr e \<and>
     pdcp_handle_pdu [0x88, 0, 1] e = Inr e1 \<and> rx_next e1 = 0xfffff801"
proof -
  obtain e where "pdcp_entity_rx_new (pdcp_demo_cfg rb_drb\<lparr>max_count_hard := 0xfffffffe\<rparr>) = Inr e"
    by (simp add: pdcp_entity_rx_new_def pdcp_demo_cfg_def)
  then show ?thesis
    using pdcp_hfn_underflow [of "pdcp_demo_cfg rb_drb\<lparr>max_count_hard := 0xfffffffe\<rparr>" e 100 1] by (auto simp: pdcp_demo_cfg_def)
qed

text \<open>A status report is always compiled and fits a control PDU: the header, the next COUNT to be delivered and one bit
  for every COUNT after it up to the last one received or the size limit, set exactly if the SDU is in the window, and clear bits up to the next byte.\<close>

theorem status_report_content:
  "\<exists>bytes pad. compile_status_report e = Inr bytes \<and> length bytes \<le> 9000 \<and> pad < 8 \<and>
     bits_of_bytes bytes = word_bits 8 (0 :: byte) @ word_bits 32 (rx_deliv e) @
       map (\<lambda>k. cm_contains k (p_rx_window e)) [unat (rx_deliv e + 1)..<unat (p_report_end e)] @ replicate pad False"
proof -
  obtain bytes pad where r: "compile_status_report e = Inr bytes" "pad < 8" "bits_of_bytes bytes = word_bits 8 (0 :: u64) @ word_bits 32 (rx_deliv e) @
       map (\<lambda>k. cm_contains k (p_rx_window e)) [unat (rx_deliv e + 1)..<unat (p_report_end e)] @ replicate pad False"
    using succeedsD [OF compile_status_report_repr [of e]] by blast
  have "8 * length bytes = 40 + (unat (p_report_end e) - unat (rx_deliv e + 1)) + pad"
    using arg_cong [OF r(3), of length] by simp
  then have "length bytes \<le> 9000"
    using r(2) p_report_length [of e] by linarith
  moreover have "word_bits 8 (0 :: u64) = word_bits 8 (0 :: byte)"
    by code_simp
  ultimately show ?thesis
    using r by auto
qed

end
