(* ===== verification/Pdcp_Tx_Correct.thy ===== *)
theory Pdcp_Tx_Correct
  imports Pdcp_Tx Pdcp_Rx_Correct "HOL-Library.Sublist"
begin

text \<open>The transmitting PDCP entity is correct: the order of its state variables and the contents of its window are kept by
  every operation, its loops end, every SDU that is accepted goes out once under the next COUNT, a retransmission repeats the
  PDU that was sent first, and a status report of the receiving entity acknowledges exactly what that entity holds.\<close>

subsection \<open>Invariant\<close>

text \<open>SDUs the engines have room for.\<close>

definition t_sdu_ok :: "byte list \<Rightarrow> bool" where
  "t_sdu_ok sdu \<longleftrightarrow> sdu \<noteq> [] \<and> length sdu \<le> 9000"

definition t_cfg_ok :: "pdcp_tx_config \<Rightarrow> bool" where
  "t_cfg_ok cfg \<longleftrightarrow> tx_sn_size cfg \<noteq> pdcp_size_invalid \<and> (tx_rb_type cfg = rb_srb \<longrightarrow> tx_sn_size cfg = pdcp_size12bits)"

text \<open>The three state variables in order; the window holds COUNTs between the lower edge and the next one.\<close>

definition t_inv :: "pdcp_entity_tx \<Rightarrow> bool" where
  "t_inv e \<longleftrightarrow> t_cfg_ok (t_cfg e) \<and> cm_inv (t_window e) \<and> cm_size (t_window e) = unat (t_window_size e) \<and>
     tx_next_ack e \<le> tx_trans e \<and> tx_trans e \<le> tx_next e \<and> tx_next e \<le> tx_max_count_hard (t_cfg e) \<and>
     (\<forall>k i. cm_lookup (t_window e) k = Some i \<longrightarrow> unat (tx_next_ack e) \<le> k \<and> k < unat (tx_next e) \<and> unat (tinfo_count i) = k \<and>
        (t_is_am e \<longrightarrow> t_sdu_ok (tinfo_sdu i))) \<and>
     (discard_timer (t_cfg e) = None \<longrightarrow> cm_lookup (t_window e) = Map.empty)"

text \<open>The data PDUs handed down.\<close>

fun t_data_pdu :: "pdcp_tx_lower \<Rightarrow> (u32 \<times> byte list \<times> bool) option" where
  "t_data_pdu (On_New_Data_Pdu c b r) = Some (c, b, r)"
| "t_data_pdu _ = None"

definition t_data :: "pdcp_entity_tx \<Rightarrow> (u32 \<times> byte list \<times> bool) list" where
  "t_data e = List.map_filter t_data_pdu (t_lower e)"

lemma t_data_updates [simp]:
  "t_data (t_lower_notify (On_Discard_Pdu sn) e) = t_data e" "t_data (write_control_pdu_to_lower_layers b e) = t_data e"
  "t_data (write_data_pdu_to_lower_layers c b r e) = t_data e @ [(c, b, r)]" "t_data (t_notify n e) = t_data e"
  "t_data (t_metrics_add_sdus k e) = t_data e" "t_data (t_metrics_add_discard_timouts e) = t_data e"
  "t_data (e\<lparr>t_window := w\<rparr>) = t_data e" "t_data (e\<lparr>tx_next := c\<rparr>) = t_data e" "t_data (e\<lparr>tx_trans := c\<rparr>) = t_data e"
  "t_data (e\<lparr>tx_next_ack := c\<rparr>) = t_data e" "t_data (e\<lparr>t_max_count_notified := f\<rparr>) = t_data e"
  "t_data (e\<lparr>t_max_count_overflow := f\<rparr>) = t_data e"
  by (simp_all add: t_data_def t_metrics_defs List.map_filter_def)

text \<open>What removing a set of COUNTs from the window leaves alone.\<close>

definition t_removed :: "nat set \<Rightarrow> pdcp_entity_tx \<Rightarrow> pdcp_entity_tx \<Rightarrow> bool" where
  "t_removed K e e' \<longleftrightarrow> t_inv e' \<and> t_cfg e' = t_cfg e \<and> t_sec_engine e' = t_sec_engine e \<and>
     t_integrity_enabled e' = t_integrity_enabled e \<and> t_ciphering_enabled e' = t_ciphering_enabled e \<and>
     tx_next e' = tx_next e \<and> t_data e' = t_data e \<and>
     (\<forall>k. cm_lookup (t_window e') k = (if k \<in> K then None else cm_lookup (t_window e) k))"

lemma t_removed_refl: "t_inv e \<Longrightarrow> \<forall>k\<in>K. cm_lookup (t_window e) k = None \<Longrightarrow> t_removed K e e"
  by (auto simp: t_removed_def)

lemma t_removed_trans: "t_removed K e e' \<Longrightarrow> t_removed L e' e'' \<Longrightarrow> t_removed (K \<union> L) e e''"
  by (auto simp: t_removed_def)

lemma t_removed_inv: "t_removed K e e' \<Longrightarrow> t_inv e'"
  by (simp add: t_removed_def)

lemma t_inv_bounds: "t_inv e \<Longrightarrow> unat (tx_next_ack e) \<le> unat (tx_trans e) \<and> unat (tx_trans e) \<le> unat (tx_next e)"
  by (simp add: t_inv_def word_le_nat_alt)

lemma t_inv_entry:
  "t_inv e \<Longrightarrow> cm_lookup (t_window e) k = Some i \<Longrightarrow> unat (tx_next_ack e) \<le> k \<and> k < unat (tx_next e) \<and> unat (tinfo_count i) = k \<and>
     (t_is_am e \<longrightarrow> t_sdu_ok (tinfo_sdu i)) \<and> discard_timer (t_cfg e) \<noteq> None"
  by (auto simp: t_inv_def)

subsection \<open>Discarding\<close>

lemma t_advance_ack_spec:
  assumes "ack \<le> nxt"
  shows "ack \<le> t_advance_ack nxt ack win \<and> t_advance_ack nxt ack win \<le> nxt \<and>
    (\<forall>k. unat ack \<le> k \<and> k < unat (t_advance_ack nxt ack win) \<longrightarrow> \<not> cm_contains k win)"
  using assms
proof (induction nxt ack win rule: t_advance_ack.induct)
  case (1 nxt ack win)
  show ?case
  proof (cases "ack < nxt \<and> \<not> cm_contains (unat ack) win")
    case True
    then have step: "t_advance_ack nxt ack win = t_advance_ack nxt (ack + 1) win" "unat (ack + 1) = Suc (unat ack)" "ack + 1 \<le> nxt"
      using unat_next [of ack nxt] by (simp_all add: t_advance_ack.simps [of nxt ack] inc_le)
    have "\<not> cm_contains k win" if "unat ack \<le> k" "k < unat (t_advance_ack nxt (ack + 1) win)" for k
      using that "1.IH" [OF True step(3)] True step(2) by (cases "k = unat ack") auto
    then show ?thesis
      unfolding step(1) using "1.IH" [OF True step(3)] step(2) by (auto simp: word_le_nat_alt)
  next
    case False
    then show ?thesis
      using "1.prems" by (auto simp: t_advance_ack.simps [of nxt ack])
  qed
qed

lemma discard_pdu_ok:
  assumes "t_inv e"
  shows "succeeds (discard_pdu c e) (t_removed {unat c} e)"
proof (cases "discard_timer (t_cfg e) = None \<or> c < tx_next_ack e \<or> tx_next e \<le> c \<or> \<not> cm_contains (unat c) (t_window e)")
  case True
  then have "discard_pdu c e = Inr e"
    by (auto simp: discard_pdu_def)
  moreover have "cm_lookup (t_window e) (unat c) = None"
    using True t_inv_entry [OF assms, of "unat c"]
    by (cases "cm_lookup (t_window e) (unat c)") (auto simp: word_less_nat_alt word_le_nat_alt cm_contains_iff domIff)
  ultimately show ?thesis
    using assms by (simp add: t_removed_refl)
next
  case False
  define e1 where "e1 = t_lower_notify (On_Discard_Pdu (t_SN c e)) e"
  have e1: "t_window e1 = t_window e" "tx_next e1 = tx_next e" "tx_next_ack e1 = tx_next_ack e" "tx_trans e1 = tx_trans e" "t_cfg e1 = t_cfg e"
      "t_sec_engine e1 = t_sec_engine e" "t_integrity_enabled e1 = t_integrity_enabled e" "t_ciphering_enabled e1 = t_ciphering_enabled e"
      "t_data e1 = t_data e"
    by (simp_all add: e1_def) (simp_all add: t_lower_notify_def)
  have inv: "cm_inv (t_window e)" "tx_next_ack e \<le> tx_next e" "tx_trans e \<le> tx_next e"
    using assms by (auto simp: t_inv_def)
  have "cm_lookup (t_window e) (unat c) \<noteq> None"
    using False by (simp add: cm_contains_iff domIff)
  from circ.remove_present [OF inv(1) this]
  obtain w where w: "window_remove_sn (unat c) (t_window e) = Inr w" "cm_inv w" "cm_size w = cm_size (t_window e)"
      "cm_lookup w = (cm_lookup (t_window e))(unat c := None)"
    by blast
  define ack where "ack = t_advance_ack (tx_next e) (tx_next_ack e) w"
  have ack: "tx_next_ack e \<le> ack" "ack \<le> tx_next e" "\<And>k. unat (tx_next_ack e) \<le> k \<Longrightarrow> k < unat ack \<Longrightarrow> cm_lookup w k = None"
    using t_advance_ack_spec [OF inv(2), of w] by (auto simp: ack_def cm_contains_iff domIff)
  let ?e' = "e1\<lparr>t_window := w, tx_next_ack := ack, tx_trans := (if tx_trans e < ack then ack else tx_trans e)\<rparr>"
  have "discard_pdu c e = Inr ?e'"
    using False w(1) by (auto simp: discard_pdu_def Let_def e1 e1_def [symmetric] ack_def)
  moreover have "t_inv ?e'"
    unfolding t_inv_def
  proof (intro conjI allI impI)
    fix k i
    assume "cm_lookup (t_window ?e') k = Some i"
    then have k: "cm_lookup w k = Some i" "cm_lookup (t_window e) k = Some i"
      using w(4) by (auto split: if_splits)
    then show "unat (tx_next_ack ?e') \<le> k" "k < unat (tx_next ?e')" "unat (tinfo_count i) = k" "t_is_am ?e' \<Longrightarrow> t_sdu_ok (tinfo_sdu i)"
      using ack(3) [of k] assms e1 by (auto simp: t_inv_def not_le [symmetric])
  qed (use assms e1 w ack inv in \<open>auto simp: t_inv_def\<close>)
  ultimately show ?thesis
    using e1 w(4) by (simp add: t_removed_def)
qed

lemma t_stop_loop_ok:
  assumes "unat h + 1 < 4294967296" "unat (tx_next_ack e) \<le> unat h + 1" "cm_inv (t_window e)"
  shows "\<exists>w. t_stop_loop h e = Some (Inr (e\<lparr>t_window := w, tx_next_ack := h + 1\<rparr>)) \<and> cm_inv w \<and> cm_size w = cm_size (t_window e) \<and>
    (\<forall>k. cm_lookup w k = (if unat (tx_next_ack e) \<le> k \<and> k \<le> unat h then None else cm_lookup (t_window e) k))"
  using assms
proof (induction "unat h + 1 - unat (tx_next_ack e)" arbitrary: e)
  case 0
  have h: "unat (h + 1) = unat h + 1"
    using assms(1) by (simp add: unat_word_ariths)
  then have "tx_next_ack e = h + 1"
    using 0 by (intro word_unat_eq_iff [THEN iffD2]) simp
  moreover have "\<not> h + 1 \<le> h"
    using h by (simp add: word_le_nat_alt)
  ultimately show ?case
    using 0 h by (subst t_stop_loop.simps) (auto intro!: exI [of _ "t_window e"])
next
  case (Suc n)
  let ?a = "tx_next_ack e"
  have le: "?a \<le> h" and a: "unat (?a + 1) = unat ?a + 1"
    using Suc by (auto simp: word_le_nat_alt unat_word_ariths)
  obtain w where w: "(if cm_contains (unat ?a) (t_window e) then window_remove_sn (unat ?a) (t_window e) else Inr (t_window e)) = Inr w"
      "cm_inv w" "cm_size w = cm_size (t_window e)" "cm_lookup w = (cm_lookup (t_window e))(unat ?a := None)"
  proof (cases "cm_contains (unat ?a) (t_window e)")
    case True
    then show thesis
      using circ.remove_present [OF Suc.prems(3), of "unat ?a"] that by (auto simp: cm_contains_iff)
  next
    case False
    then show thesis
      using Suc.prems(3) by (intro that [of "t_window e"]) (auto simp: cm_contains_iff)
  qed
  let ?e1 = "e\<lparr>t_window := w, tx_next_ack := ?a + 1\<rparr>"
  have "\<exists>w'. t_stop_loop h ?e1 = Some (Inr (?e1\<lparr>t_window := w', tx_next_ack := h + 1\<rparr>)) \<and> cm_inv w' \<and> cm_size w' = cm_size (t_window ?e1) \<and>
    (\<forall>k. cm_lookup w' k = (if unat (tx_next_ack ?e1) \<le> k \<and> k \<le> unat h then None else cm_lookup (t_window ?e1) k))"
    using Suc.hyps(2) Suc.prems(1) le a w(2) by (intro Suc.hyps(1)) (auto simp: word_le_nat_alt)
  then show ?case
    using le w a by (subst t_stop_loop.simps) (auto simp: word_le_nat_alt)
qed

lemma stop_discard_timer_ok:
  assumes "t_inv e"
  shows "succeeds (stop_discard_timer h e)
    (t_removed (if discard_timer (t_cfg e) = None \<or> h < tx_next_ack e \<or> tx_next e \<le> h then {} else {..unat h}) e)"
proof (cases "discard_timer (t_cfg e) = None \<or> h < tx_next_ack e \<or> tx_next e \<le> h")
  case True
  then show ?thesis
    using assms by (auto simp: stop_discard_timer_def t_removed_refl)
next
  case False
  then have h: "unat h < unat (tx_next e)" "unat (tx_next_ack e) \<le> unat h" "unat (h + 1) = unat h + 1"
    using unat_next [of h "tx_next e"] by (auto simp: word_less_nat_alt word_le_nat_alt)
  have "unat h + 1 < 4294967296" "unat (tx_next_ack e) \<le> unat h + 1" "cm_inv (t_window e)"
    using h u32_bound [of "tx_next e"] assms by (auto simp: t_inv_def)
  from t_stop_loop_ok [OF this]
  obtain w where w: "t_stop_loop h e = Some (Inr (e\<lparr>t_window := w, tx_next_ack := h + 1\<rparr>))" "cm_inv w" "cm_size w = cm_size (t_window e)"
      "\<And>k. cm_lookup w k = (if unat (tx_next_ack e) \<le> k \<and> k \<le> unat h then None else cm_lookup (t_window e) k)"
    by blast
  let ?e' = "e\<lparr>t_window := w, tx_next_ack := h + 1, tx_trans := (if tx_trans e < h + 1 then h + 1 else tx_trans e)\<rparr>"
  have "stop_discard_timer h e = Inr ?e'"
    using False w(1) by (auto simp: stop_discard_timer_def)
  moreover have below: "cm_lookup w k = (if k \<le> unat h then None else cm_lookup (t_window e) k)" for k
    using w(4) [of k] t_inv_entry [OF assms, of k] by (cases "cm_lookup (t_window e) k") auto
  moreover have "t_inv ?e'"
    unfolding t_inv_def
  proof (intro conjI allI impI)
    fix k i
    assume "cm_lookup (t_window ?e') k = Some i"
    then have k: "unat h < k" "cm_lookup (t_window e) k = Some i"
      using below [of k] by (auto split: if_splits)
    show "unat (tx_next_ack ?e') \<le> k" "k < unat (tx_next ?e')" "unat (tinfo_count i) = k" "t_is_am ?e' \<Longrightarrow> t_sdu_ok (tinfo_sdu i)"
      using k(1) t_inv_entry [OF assms k(2)] h(3) by auto
  qed (use assms w below h in \<open>auto simp: t_inv_def word_le_nat_alt word_less_nat_alt\<close>)
  ultimately have "succeeds (stop_discard_timer h e) (t_removed {..unat h} e)"
    by (simp add: t_removed_def)
  then show ?thesis
    using False by (simp only: if_False)
qed

lemma discard_callback_ok:
  assumes "t_inv e"
  shows "succeeds (discard_callback c e) (t_removed {unat c} e)"
proof -
  let ?m = "t_metrics_add_discard_timouts e"
  have "t_inv ?m"
    using assms by (simp add: t_inv_def t_metrics_add_discard_timouts_def)
  moreover have "t_removed K ?m = t_removed K e" for K
    by (rule ext) (simp add: t_removed_def, simp add: t_metrics_add_discard_timouts_def)
  ultimately show ?thesis
    using discard_pdu_ok [of ?m c] by (simp add: discard_callback_def)
qed

subsection \<open>Notifications\<close>

lemma count_estimation_eq:
  "notification_count_estimation sn e =
     pdcp_rcvd_count (tx_sn_size (t_cfg e)) (if discard_timer (t_cfg e) \<noteq> None then tx_next_ack e else tx_trans e) sn"
  by (simp add: notification_count_estimation_def pdcp_rcvd_count_def Let_def)

lemma t_inv_trans: "t_inv e \<Longrightarrow> tx_next_ack e \<le> t \<Longrightarrow> t \<le> tx_next e \<Longrightarrow> t_inv (e\<lparr>tx_trans := t\<rparr>)"
  by (simp add: t_inv_def)

lemma t_removed_from_trans: "t_removed K (e\<lparr>tx_trans := t\<rparr>) e' = t_removed K e e'"
  by (simp add: t_removed_def)

lemma t_removedI: "succeeds r (t_removed K e) \<Longrightarrow> succeeds r (\<lambda>e'. \<exists>K. t_removed K e e')"
  by (erule succeeds_mono) auto

lemma handle_transmit_notification_ok:
  assumes "t_inv e"
  shows "succeeds (handle_transmit_notification sn e) (\<lambda>e'. \<exists>K. t_removed K e e')"
proof -
  define c where "c = notification_count_estimation sn e"
  let ?e1 = "e\<lparr>tx_trans := c + 1\<rparr>"
  have same: "\<exists>K. t_removed K e e"
    using t_removed_refl [OF assms, of "{}"] by blast
  have "t_inv ?e1" if "tx_trans e \<le> c" "c < tx_next e"
    using assms that unat_next [OF that(2)] by (intro t_inv_trans) (auto simp: t_inv_def word_le_nat_alt word_less_nat_alt)
  note inv = this
  have "succeeds (Inr ?e1) (\<lambda>e'. \<exists>K. t_removed K e e')" "succeeds (stop_discard_timer c ?e1) (\<lambda>e'. \<exists>K. t_removed K e e')"
    if "tx_trans e \<le> c" "c < tx_next e"
    using t_removed_refl [OF inv [OF that], of "{}"] t_removedI [OF stop_discard_timer_ok [OF inv [OF that], of c]]
    by (auto simp: t_removed_from_trans)
  then show ?thesis
    using same by (auto simp: handle_transmit_notification_def Let_def c_def [symmetric] not_less)
qed

lemma handle_delivery_notification_ok:
  assumes "t_inv e"
  shows "succeeds (handle_delivery_notification sn e) (\<lambda>e'. \<exists>K. t_removed K e e')"
  using t_removed_refl [OF assms, of "{}"] t_removedI [OF stop_discard_timer_ok [OF assms, of "notification_count_estimation sn e"]]
  by (auto simp: handle_delivery_notification_def Let_def)

subsection \<open>Status reports\<close>

lemma t_fmc_loop_ok:
  assumes "t_inv e"
  shows "succeeds (t_fmc_loop fmc c e) (t_removed {unat c..<unat fmc} e)"
  using assms
proof (induction fmc c e rule: t_fmc_loop.induct)
  case (1 fmc c e)
  show ?case
  proof (cases "c < fmc")
    case True
    have set: "{unat c} \<union> {unat (c + 1)..<unat fmc} = {unat c..<unat fmc}"
      using unat_next [OF True] True by (auto simp: word_less_nat_alt)
    show ?thesis
      unfolding t_fmc_loop.simps [of fmc c] if_P [OF True] succeeds_simps
    proof (rule succeeds_mono [OF discard_pdu_ok [OF "1.prems"]])
      fix e1
      assume "discard_pdu c e = Inr e1" and e1: "t_removed {unat c} e e1"
      show "succeeds (t_fmc_loop fmc (c + 1) e1) (t_removed {unat c..<unat fmc} e)"
        using t_removed_trans [OF e1, where L = "{unat (c + 1)..<unat fmc}"] set by (intro succeeds_mono [OF "1.IH" [OF True \<open>discard_pdu c e = Inr e1\<close> t_removed_inv [OF e1]]]) auto
    qed
  next
    case False
    then show ?thesis
      using "1.prems" by (subst t_fmc_loop.simps) (auto simp: word_less_nat_alt intro!: t_removed_refl)
  qed
qed

text \<open>The COUNTs a bitmap reports.\<close>

definition bitmap_counts :: "u32 \<Rightarrow> bool list \<Rightarrow> nat set" where
  "bitmap_counts fmc bits = {unat (fmc + 1 + of_nat j) |j. j < length bits \<and> bits ! j}"

lemma bitmap_counts_simps: "bitmap_counts fmc [] = {}"
  "bitmap_counts fmc (b # bits) = (if b then {unat (fmc + 1)} else {}) \<union> bitmap_counts (fmc + 1) bits"
proof -
  show "bitmap_counts fmc [] = {}"
    by (simp add: bitmap_counts_def)
  have "(\<exists>j < Suc n. P j) \<longleftrightarrow> P 0 \<or> (\<exists>j < n. P (Suc j))" for n and P :: "nat \<Rightarrow> bool"
    using less_Suc_eq_0_disj by auto
  note split = this [of "length bits" "\<lambda>j. x = unat (fmc + 1 + of_nat j) \<and> (b # bits) ! j" for x]
  show "bitmap_counts fmc (b # bits) = (if b then {unat (fmc + 1)} else {}) \<union> bitmap_counts (fmc + 1) bits"
  proof (rule set_eqI)
    fix x
    show "x \<in> bitmap_counts fmc (b # bits) \<longleftrightarrow> x \<in> (if b then {unat (fmc + 1)} else {}) \<union> bitmap_counts (fmc + 1) bits"
      using split [of x] by (auto simp: bitmap_counts_def ac_simps)
  qed
qed

lemma t_bitmap_loop_ok:
  assumes "t_inv e" "dec_inv dec"
  shows "\<exists>e'. t_bitmap_loop dec fmc e = Some (Inr e') \<and> t_removed (bitmap_counts fmc (dec_bits dec)) e e'"
  using assms
proof (induction "length (dec_bits dec)" arbitrary: dec fmc e)
  case 0
  obtain v :: u32 and d where "unpack 1 dec = Inr (False, v, d)"
    using succeedsD [OF unpack_spec [OF 0(3), of 1, where 'a = 32]] 0(1) by fastforce
  then show ?case
    using 0 by (subst t_bitmap_loop.simps) (auto simp: bitmap_counts_simps intro!: t_removed_refl)
next
  case (Suc n)
  obtain b bs where bits: "dec_bits dec = b # bs"
    using Suc.hyps(2) by (cases "dec_bits dec") auto
  obtain d where d: "unpack 1 dec = Inr (True, of_bool b :: u32, d)" "dec_inv d" "dec_bits d = bs"
    using succeedsD [OF unpack_spec [OF Suc.prems(2), of 1, where 'a = 32]] bits by (auto simp: bits_num_def)
  let ?step = "if (of_bool b :: u32) = 1 then discard_pdu (fmc + 1) e else Inr e"
  obtain e1 where e1: "?step = Inr e1" "t_removed (if b then {unat (fmc + 1)} else {}) e e1"
    using succeedsD [OF discard_pdu_ok [OF Suc.prems(1), of "fmc + 1"]] t_removed_refl [OF Suc.prems(1), of "{}"] by (cases b) auto
  obtain e' where e': "t_bitmap_loop d (fmc + 1) e1 = Some (Inr e')" "t_removed (bitmap_counts (fmc + 1) bs) e1 e'"
    using Suc.hyps(1) [of d e1 "fmc + 1"] Suc.hyps(2) bits d t_removed_inv [OF e1(2)] by auto
  have "t_bitmap_loop dec fmc e = Some (Inr e')"
    using d(1) e1(1) e'(1) by (subst t_bitmap_loop.simps) simp
  then show ?case
    using t_removed_trans [OF e1(2) e'(2)] bits by (auto simp: bitmap_counts_simps)
qed

lemma unpack_total:
  assumes "dec_inv d" "n \<le> LENGTH('a)"
  obtains ok v d' where "unpack n d = Inr (ok, v :: 'a::len word, d')" "dec_inv d'"
  using succeedsD [OF unpack_spec [OF assms]] by (auto intro: that)

lemma handle_status_report_ok:
  assumes "t_inv e"
  shows "succeeds (handle_status_report bytes e) (\<lambda>e'. \<exists>K. t_removed K e e')"
proof -
  have same: "\<exists>K. t_removed K e e"
    using t_removed_refl [OF assms, of "{}"] by blast
  obtain o1 and dc :: u32 and d1 where d1: "unpack 1 (dec_new bytes) = Inr (o1, dc, d1)" "dec_inv d1"
    by (rule unpack_total [of "dec_new bytes" 1, where 'a = 32]) auto
  obtain o2 and cpt :: u32 and d2 where d2: "unpack 3 d1 = Inr (o2, cpt, d2)" "dec_inv d2"
    by (rule unpack_total [OF d1(2), of 3, where 'a = 32]) auto
  obtain o3 and res :: u32 and d3 where d3: "unpack 4 d2 = Inr (o3, res, d3)" "dec_inv d3"
    by (rule unpack_total [OF d2(2), of 4, where 'a = 32]) auto
  obtain o4 and fmc :: u32 and d4 where d4: "unpack 32 d3 = Inr (o4, fmc, d4)" "dec_inv d4"
    by (rule unpack_total [OF d3(2), of 32, where 'a = 32]) auto
  obtain e1 where e1: "t_fmc_loop fmc (tx_next_ack e) e = Inr e1" "t_removed {unat (tx_next_ack e)..<unat fmc} e e1"
    using succeedsD [OF t_fmc_loop_ok [OF assms]] by blast
  obtain e2 K where e2: "t_bitmap_loop d4 fmc e1 = Some (Inr e2)" "t_removed K e1 e2"
    using t_bitmap_loop_ok [OF t_removed_inv [OF e1(2)] d4(2)] by blast
  show ?thesis
    using same d1 d2 d3 d4 e1 e2 t_removed_trans [OF e1(2) e2(2)] by (auto simp: handle_status_report_def)
qed

subsection \<open>Transmission\<close>

definition t_info :: "byte list \<Rightarrow> pdcp_entity_tx \<Rightarrow> pdcp_tx_sdu_info" where
  "t_info sdu e = \<lparr>tinfo_count = tx_next e, tinfo_sdu = (if t_is_am e then sdu else []),
     tinfo_timer = (discard_timer (t_cfg e) \<noteq> Some discard_infinity)\<rparr>"

lemma t_inv_next_free: "t_inv e \<Longrightarrow> cm_lookup (t_window e) (unat (tx_next e)) = None"
  using t_inv_entry [of e "unat (tx_next e)"] by (cases "cm_lookup (t_window e) (unat (tx_next e))") auto

lemma t_store_ok:
  assumes "t_inv e"
  shows "succeeds (t_store sdu e) (\<lambda>e'. \<exists>w. e' = e\<lparr>t_window := w\<rparr> \<and> cm_inv w \<and> cm_size w = cm_size (t_window e) \<and>
    (discard_timer (t_cfg e) = None \<longrightarrow> w = t_window e) \<and>
    (discard_timer (t_cfg e) \<noteq> None \<longrightarrow> cm_lookup w = (\<lambda>j. if j = unat (tx_next e) then Some (t_info sdu e)
       else if j mod cm_size (t_window e) = unat (tx_next e) mod cm_size (t_window e) then None else cm_lookup (t_window e) j)))"
proof (cases "discard_timer (t_cfg e)")
  case None
  then show ?thesis
    using assms by (auto simp: t_store_def t_inv_def intro: exI [of _ "t_window e"])
next
  case (Some d)
  let ?n = "unat (tx_next e)"
  have free: "cm_lookup (t_window e) ?n = None" and inv: "cm_inv (t_window e)"
    using t_inv_next_free [OF assms] assms by (auto simp: t_inv_def)
  obtain w1 where w1: "window_add_sn ?n \<lparr>tinfo_count = 0, tinfo_sdu = [], tinfo_timer = False\<rparr> (t_window e) = Inr w1" "cm_inv w1"
      "cm_size w1 = cm_size (t_window e)"
      "cm_lookup w1 = (\<lambda>j. if j = ?n then Some \<lparr>tinfo_count = 0, tinfo_sdu = [], tinfo_timer = False\<rparr>
         else if j mod cm_size (t_window e) = ?n mod cm_size (t_window e) then None else cm_lookup (t_window e) j)"
    using circ.add_new [OF inv free] by blast
  have "cm_lookup w1 ?n \<noteq> None"
    by (simp add: w1(4))
  from circ.put_present [OF w1(2) this, of "t_info sdu e"]
  obtain w2 where w2: "cm_put ?n (t_info sdu e) w1 = Inr w2" "cm_inv w2" "cm_size w2 = cm_size w1" "cm_lookup w2 = (cm_lookup w1)(?n \<mapsto> t_info sdu e)"
    by blast
  have "\<not> cm_contains ?n (t_window e)"
    using free by (simp add: cm_contains_iff domIff)
  then have "t_store sdu e = Inr (e\<lparr>t_window := w2\<rparr>)"
    using w1(1) w2(1) Some by (simp add: t_store_def t_info_def)
  then show ?thesis
    using w1 w2 Some by (auto intro!: exI [of _ w2])
qed

text \<open>Engines that protect every message they have room for.\<close>

definition t_engine_ok :: "security_fun \<Rightarrow> bool" where
  "t_engine_ok f \<longleftrightarrow> (\<forall>buf h c. h < length buf \<and> length buf + 24 \<le> sec_max_pdu_size \<longrightarrow> (\<exists>b. f buf h c = Inr (Inr b)))"

definition t_engines_ok :: "pdcp_entity_tx \<Rightarrow> bool" where
  "t_engines_ok e \<longleftrightarrow> (\<forall>f. t_sec_engine e = Some f \<longrightarrow> t_engine_ok f)"

text \<open>The data PDU of an SDU under a COUNT.\<close>

definition t_pdu :: "pdcp_entity_tx \<Rightarrow> u32 \<Rightarrow> byte list \<Rightarrow> byte list result" where
  "t_pdu e c sdu = apply_ciphering_and_integrity_protection
     (pdcp_header_bytes (t_is_srb e) (tx_sn_size (t_cfg e)) (t_SN c e) @ sdu) c e"

lemma apply_ciphering_cong:
  "t_sec_engine e' = t_sec_engine e \<Longrightarrow> t_cfg e' = t_cfg e \<Longrightarrow>
   apply_ciphering_and_integrity_protection buf c e' = apply_ciphering_and_integrity_protection buf c e"
  by (simp add: apply_ciphering_and_integrity_protection_def)

lemma t_pdu_cong: "t_sec_engine e' = t_sec_engine e \<Longrightarrow> t_cfg e' = t_cfg e \<Longrightarrow> t_pdu e' c sdu = t_pdu e c sdu"
  by (simp add: t_pdu_def apply_ciphering_cong [of e' e])

lemma length_header_bytes: "length (pdcp_header_bytes srb sz sn) = pdcp_hdr_len sz"
  by (cases sz) (simp_all add: pdcp_header_bytes_def pdcp_hdr_len_def Let_def)

lemma t_pdu_total:
  assumes "t_engines_ok e" "t_sdu_ok sdu"
  obtains b where "t_pdu e c sdu = Inr b"
proof (cases "t_sec_engine e")
  case None
  then show thesis
    using that by (simp add: t_pdu_def apply_ciphering_and_integrity_protection_def)
next
  case (Some f)
  let ?buf = "pdcp_header_bytes (t_is_srb e) (tx_sn_size (t_cfg e)) (t_SN c e) @ sdu"
  have h: "(if tx_sn_size (t_cfg e) = pdcp_size12bits then 2 else 3) = pdcp_hdr_len (tx_sn_size (t_cfg e))"
    by (simp add: pdcp_hdr_len_def)
  have "pdcp_hdr_len (tx_sn_size (t_cfg e)) < length ?buf" "length ?buf + 24 \<le> sec_max_pdu_size"
    using assms(2) by (auto simp: length_header_bytes t_sdu_ok_def sec_max_pdu_size_def pdcp_hdr_len_def)
  then obtain b where "f ?buf (pdcp_hdr_len (tx_sn_size (t_cfg e))) c = Inr (Inr b)"
    using assms(1) Some unfolding t_engines_ok_def t_engine_ok_def by blast
  then show thesis
    using that Some by (simp add: t_pdu_def apply_ciphering_and_integrity_protection_def Let_def h)
qed

lemma write_header_ok:
  "t_cfg_ok (t_cfg e) \<Longrightarrow> pdcp_write_data_pdu_header (t_is_srb e) (tx_sn_size (t_cfg e)) sn buf =
     Inr (True, pdcp_header_bytes (t_is_srb e) (tx_sn_size (t_cfg e)) sn @ buf)"
  by (auto simp: pdcp_write_data_pdu_header_def t_cfg_ok_def)

text \<open>The fields that metrics and notifications leave alone.\<close>

definition t_same :: "pdcp_entity_tx \<Rightarrow> pdcp_entity_tx \<Rightarrow> bool" where
  "t_same e e' \<longleftrightarrow> t_cfg e' = t_cfg e \<and> t_sec_engine e' = t_sec_engine e \<and> t_integrity_enabled e' = t_integrity_enabled e \<and>
     t_ciphering_enabled e' = t_ciphering_enabled e \<and> tx_next e' = tx_next e \<and> tx_trans e' = tx_trans e \<and>
     tx_next_ack e' = tx_next_ack e \<and> t_window e' = t_window e \<and> t_data e' = t_data e"

lemma t_same_inv: "t_same e e' \<Longrightarrow> t_inv e' = t_inv e"
  by (simp add: t_same_def t_inv_def)

lemma t_same_removed: "t_same e e' \<Longrightarrow> t_inv e \<Longrightarrow> t_removed {} e e'"
  by (simp add: t_removed_def t_same_inv) (simp add: t_same_def)

lemma t_check_max_count_same:
  "t_same e (snd (t_check_max_count (t_metrics_add_sdus n e)))"
  "fst (t_check_max_count (t_metrics_add_sdus n e)) \<longleftrightarrow> tx_max_count_hard (t_cfg e) \<le> tx_next e"
  by (auto simp: t_check_max_count_def t_same_def) (auto simp: t_metrics_defs)

text \<open>An SDU was given a COUNT.\<close>

definition t_accepted :: "byte list \<Rightarrow> pdcp_entity_tx \<Rightarrow> pdcp_entity_tx \<Rightarrow> bool" where
  "t_accepted sdu e e' \<longleftrightarrow> t_inv e' \<and> t_cfg e' = t_cfg e \<and> t_sec_engine e' = t_sec_engine e \<and>
     t_integrity_enabled e' = t_integrity_enabled e \<and> t_ciphering_enabled e' = t_ciphering_enabled e \<and>
     unat (tx_next e') = unat (tx_next e) + 1 \<and> (\<exists>b. t_pdu e (tx_next e) sdu = Inr b \<and> t_data e' = t_data e @ [(tx_next e, b, False)]) \<and>
     (\<forall>k i. cm_lookup (t_window e') k = Some i \<longrightarrow> (if k = unat (tx_next e) then i = t_info sdu e else cm_lookup (t_window e) k = Some i))"

lemma t_sent_ok:
  assumes "t_inv e" "tx_next e < tx_max_count_hard (t_cfg e)" "t_sdu_ok sdu" "t_pdu e (tx_next e) sdu = Inr b" "t_store sdu e = Inr e2"
  shows "t_accepted sdu e ((write_data_pdu_to_lower_layers (tx_next e2) b False e2)\<lparr>tx_next := tx_next e2 + 1\<rparr>)" (is "t_accepted sdu e ?e4")
proof -
  obtain w where w: "e2 = e\<lparr>t_window := w\<rparr>" "cm_inv w" "cm_size w = cm_size (t_window e)"
      "discard_timer (t_cfg e) = None \<longrightarrow> w = t_window e"
      "discard_timer (t_cfg e) \<noteq> None \<longrightarrow> cm_lookup w = (\<lambda>j. if j = unat (tx_next e) then Some (t_info sdu e)
         else if j mod cm_size (t_window e) = unat (tx_next e) mod cm_size (t_window e) then None else cm_lookup (t_window e) j)"
    using succeedsD [OF t_store_ok [OF assms(1), of sdu]] assms(5) by auto
  have nxt: "unat (tx_next e + 1) = unat (tx_next e) + 1"
    using unat_next [OF assms(2)] by simp
  have e4: "t_cfg ?e4 = t_cfg e" "t_sec_engine ?e4 = t_sec_engine e" "t_integrity_enabled ?e4 = t_integrity_enabled e"
      "t_ciphering_enabled ?e4 = t_ciphering_enabled e" "t_window ?e4 = w" "tx_next ?e4 = tx_next e + 1" "tx_trans ?e4 = tx_trans e"
      "tx_next_ack ?e4 = tx_next_ack e" "t_data ?e4 = t_data e @ [(tx_next e, b, False)]"
    by (simp_all add: w(1)) (simp_all add: t_metrics_defs)
  have entry: "if k = unat (tx_next e) then i = t_info sdu e \<and> discard_timer (t_cfg e) \<noteq> None else cm_lookup (t_window e) k = Some i"
    if "cm_lookup w k = Some i" for k i
    using that w(4,5) t_inv_next_free [OF assms(1)] by (cases "discard_timer (t_cfg e) = None") (auto split: if_splits)
  have bounds: "tx_next_ack e \<le> tx_trans e" "tx_trans e \<le> tx_next e" "tx_next e + 1 \<le> tx_max_count_hard (t_cfg e)"
    using assms(1,2) by (auto simp: t_inv_def inc_le)
  have "t_inv ?e4"
    unfolding t_inv_def e4
  proof (intro conjI allI impI)
    fix k i
    assume "cm_lookup w k = Some i"
    from entry [OF this] show "unat (tx_next_ack e) \<le> k" "k < unat (tx_next e + 1)" "unat (tinfo_count i) = k"
        "t_is_am e \<Longrightarrow> t_sdu_ok (tinfo_sdu i)"
      using t_inv_entry [OF assms(1), of k i] t_inv_bounds [OF assms(1)] nxt assms(3) by (auto simp: t_info_def split: if_splits)
  next
    show "tx_trans e \<le> tx_next e + 1"
      using bounds nxt by (simp add: word_le_nat_alt)
    show "discard_timer (t_cfg e) = None \<Longrightarrow> cm_lookup w = Map.empty"
      using assms(1) w(4) by (simp add: t_inv_def)
  qed (use assms(1) w bounds in \<open>auto simp: t_inv_def\<close>)
  then show ?thesis
    unfolding t_accepted_def e4 using nxt assms(4) entry by (auto split: if_splits)
qed

lemma tx_next_write [simp]: "tx_next (write_data_pdu_to_lower_layers c b r e) = tx_next e"
  by (simp add: t_metrics_defs)

lemma t_accepted_removed:
  assumes "t_accepted sdu e e1" "t_removed K e1 e2"
  shows "t_accepted sdu e e2"
  using assms by (auto simp: t_accepted_def t_removed_def split: if_splits)

lemma pdcp_handle_sdu_ok:
  assumes "t_inv e" "t_engines_ok e" "t_sdu_ok sdu"
  shows "succeeds (pdcp_handle_sdu sdu e) (\<lambda>e'. t_removed {} e e' \<or> t_accepted sdu e e')"
proof -
  define e1 where "e1 = snd (t_check_max_count (t_metrics_add_sdus (length sdu) e))"
  have check: "t_check_max_count (t_metrics_add_sdus (length sdu) e) = (tx_max_count_hard (t_cfg e) \<le> tx_next e, e1)"
    using t_check_max_count_same(2) [of "length sdu" e] by (simp add: e1_def prod_eq_iff)
  have same: "t_same e e1"
    unfolding e1_def by (rule t_check_max_count_same)
  have e1: "t_inv e1" "t_engines_ok e1" "t_cfg e1 = t_cfg e" "tx_next e1 = tx_next e" "t_sec_engine e1 = t_sec_engine e" "t_data e1 = t_data e" "t_window e1 = t_window e"
      "t_integrity_enabled e1 = t_integrity_enabled e" "t_ciphering_enabled e1 = t_ciphering_enabled e"
    using t_same_inv [OF same] same assms by (auto simp: t_same_def t_engines_ok_def)
  obtain b where b: "t_pdu e1 (tx_next e1) sdu = Inr b"
    by (rule t_pdu_total [OF e1(2) assms(3)])
  obtain e2 where e2: "t_store sdu e1 = Inr e2"
    using succeedsD [OF t_store_ok [OF e1(1), of sdu]] by blast
  let ?e4 = "(write_data_pdu_to_lower_layers (tx_next e2) b False e2)\<lparr>tx_next := tx_next e2 + 1\<rparr>"
  have stay: "t_removed {} e e" "t_removed {} e e1"
    using t_removed_refl [OF assms(1), of "{}"] t_same_removed [OF same assms(1)] by simp_all
  have sent: "succeeds (if test_mode (t_cfg ?e4) then handle_transmit_notification sn ?e4 else Inr ?e4) (\<lambda>e'. t_removed {} e e' \<or> t_accepted sdu e e')"
    if "tx_next e1 < tx_max_count_hard (t_cfg e1)" for sn
  proof -
    have info: "t_info sdu e1 = t_info sdu e"
      using e1 by (simp add: t_info_def)
    have acc: "t_accepted sdu e1 e' \<Longrightarrow> t_accepted sdu e e'" for e'
      unfolding t_accepted_def info e1(3-9) t_pdu_cong [OF e1(5,3)] by simp
    note a = t_sent_ok [OF e1(1) that assms(3) b e2]
    have "t_inv ?e4"
      using a unfolding t_accepted_def by (elim conjE)
    then have "succeeds (handle_transmit_notification sn ?e4) (\<lambda>e'. \<exists>K. t_removed K ?e4 e')"
      by (rule handle_transmit_notification_ok)
    then have "succeeds (handle_transmit_notification sn ?e4) (\<lambda>e'. t_removed {} e e' \<or> t_accepted sdu e e')"
      by (rule succeeds_mono) (use acc t_accepted_removed [OF a] in blast)
    then show ?thesis
      using acc [OF a] by simp
  qed
  have cfg: "t_cfg_ok (t_cfg e1)"
    using e1(1) by (simp add: t_inv_def)
  show ?thesis
    unfolding pdcp_handle_sdu_def check
    using stay sent b e2 write_header_ok [OF cfg] e1(3,4) by (auto simp: Let_def t_pdu_def not_le)
qed

subsection \<open>Retransmission\<close>

text \<open>Stored SDUs are sent again under their COUNTs; nothing else changes.\<close>

definition t_again :: "pdcp_entity_tx \<Rightarrow> pdcp_entity_tx \<Rightarrow> bool" where
  "t_again e e' \<longleftrightarrow> t_inv e' \<and> t_cfg e' = t_cfg e \<and> t_sec_engine e' = t_sec_engine e \<and>
     t_integrity_enabled e' = t_integrity_enabled e \<and> t_ciphering_enabled e' = t_ciphering_enabled e \<and>
     tx_next e' = tx_next e \<and> cm_lookup (t_window e') = cm_lookup (t_window e) \<and>
     (\<exists>new. t_data e' = t_data e @ new \<and> (\<forall>(c, b, r)\<in>set new. r \<and>
        (\<exists>i. cm_lookup (t_window e) (unat c) = Some i \<and> t_pdu e c (tinfo_sdu i) = Inr b)))"

lemma t_again_refl: "t_inv e \<Longrightarrow> t_again e e"
  by (simp add: t_again_def)

lemma t_again_trans:
  assumes "t_again e e1" "t_again e1 e2"
  shows "t_again e e2"
proof -
  obtain n1 n2 where "t_data e1 = t_data e @ n1" "t_data e2 = t_data e1 @ n2"
    and n1: "\<forall>(c, b, r)\<in>set n1. r \<and> (\<exists>i. cm_lookup (t_window e) (unat c) = Some i \<and> t_pdu e c (tinfo_sdu i) = Inr b)"
    and n2: "\<forall>(c, b, r)\<in>set n2. r \<and> (\<exists>i. cm_lookup (t_window e1) (unat c) = Some i \<and> t_pdu e1 c (tinfo_sdu i) = Inr b)"
    using assms by (auto simp: t_again_def)
  moreover have "cm_lookup (t_window e1) = cm_lookup (t_window e)" "\<And>c s. t_pdu e1 c s = t_pdu e c s"
    using assms(1) by (auto simp: t_again_def intro: t_pdu_cong)
  ultimately have "\<exists>new. t_data e2 = t_data e @ new \<and> (\<forall>(c, b, r)\<in>set new. r \<and>
      (\<exists>i. cm_lookup (t_window e) (unat c) = Some i \<and> t_pdu e c (tinfo_sdu i) = Inr b))"
    by (intro exI [of _ "n1 @ n2"]) auto
  then show ?thesis
    using assms by (simp add: t_again_def)
qed

lemma cm_at_lookup: "cm_lookup w k = Some i \<Longrightarrow> cm_at k w = Inr i"
  by (auto simp: cm_at_def cm_contains_iff cm_lookup_def split: option.splits if_splits)

lemma t_again_one:
  assumes "t_inv e" "cm_lookup (t_window e) (unat c) = Some i" "t_pdu e c (tinfo_sdu i) = Inr b"
  shows "t_again e (write_data_pdu_to_lower_layers c b True e)" (is "t_again e ?e'")
proof -
  have f: "t_cfg ?e' = t_cfg e" "t_sec_engine ?e' = t_sec_engine e" "t_integrity_enabled ?e' = t_integrity_enabled e"
      "t_ciphering_enabled ?e' = t_ciphering_enabled e" "tx_next ?e' = tx_next e" "tx_trans ?e' = tx_trans e"
      "tx_next_ack ?e' = tx_next_ack e" "t_window ?e' = t_window e"
    by (simp_all add: t_metrics_defs)
  then have "t_inv ?e'"
    using assms(1) by (simp add: t_inv_def)
  then show ?thesis
    using f assms(2,3) by (simp add: t_again_def)
qed

lemma t_retransmit_loop_ok:
  assumes "t_inv e" "t_engines_ok e" "t_is_am e"
  shows "succeeds (t_retransmit_loop nxt c e) (t_again e)"
  using assms
proof (induction nxt c e rule: t_retransmit_loop.induct)
  case (1 nxt c e)
  show ?case
  proof (cases "c < nxt \<and> cm_contains (unat c) (t_window e)")
    case True
    then obtain i where i: "cm_lookup (t_window e) (unat c) = Some i"
      by (auto simp: cm_contains_iff)
    have cnt: "tinfo_count i = c" and sdu: "t_sdu_ok (tinfo_sdu i)"
      using t_inv_entry [OF "1.prems"(1) i] "1.prems"(3) by (auto simp: word_unat_eq_iff)
    obtain b where b: "t_pdu e c (tinfo_sdu i) = Inr b"
      by (rule t_pdu_total [OF "1.prems"(2) sdu])
    let ?e' = "write_data_pdu_to_lower_layers c b True e"
    have again: "t_again e ?e'"
      by (rule t_again_one [OF "1.prems"(1) i b])
    have cfg: "t_cfg_ok (t_cfg e)"
      using "1.prems"(1) by (simp add: t_inv_def)
    have step: "t_retransmit_loop nxt c e = t_retransmit_loop nxt (c + 1) ?e'"
      using True cm_at_lookup [OF i] cnt b write_header_ok [OF cfg] by (subst t_retransmit_loop.simps) (simp add: t_pdu_def)
    note ih = "1.IH"(1) [of i "(True, ya)" True ya b for ya, unfolded cnt]
    have "succeeds (t_retransmit_loop nxt (c + 1) ?e') (t_again ?e')"
      using again "1.prems" True cm_at_lookup [OF i] b write_header_ok [OF cfg]
      by (intro ih) (auto simp: t_again_def t_engines_ok_def t_pdu_def cnt)
    then show ?thesis
      unfolding step by (rule succeeds_mono) (rule t_again_trans [OF again])
  next
    case False
    show ?thesis
    proof (cases "c < nxt")
      case True
      then show ?thesis
        using False "1.IH"(2) "1.prems" by (subst t_retransmit_loop.simps) simp
    next
      case False
      then show ?thesis
        using t_again_refl [OF "1.prems"(1)] by (subst t_retransmit_loop.simps) simp
    qed
  qed
qed

lemma retransmit_all_ok:
  assumes "t_inv e" "t_engines_ok e"
  shows "succeeds (retransmit_all_pdus e) (t_again e)"
proof -
  let ?e = "e\<lparr>tx_trans := tx_next_ack e\<rparr>"
  have inv: "t_inv ?e"
    using assms(1) t_inv_bounds [OF assms(1)] by (intro t_inv_trans) (auto simp: word_le_nat_alt)
  have "t_again ?e e' = t_again e e'" for e'
    using t_pdu_cong [of ?e e] by (simp add: t_again_def)
  then have eq: "t_again ?e = t_again e"
    by blast
  show ?thesis
    using t_again_refl [OF assms(1)] t_retransmit_loop_ok [OF inv, of "tx_next e" "tx_next_ack e"] assms(2)
    by (auto simp: retransmit_all_pdus_def eq t_engines_ok_def intro: pdcp_rlc_mode.exhaust [of "tx_rlc_mode (t_cfg e)"])
qed

subsection \<open>Control\<close>

definition t_domain_ok :: "sec_128_as_config \<Rightarrow> pdcp_entity_tx \<Rightarrow> bool" where
  "t_domain_ok sec e \<longleftrightarrow> sec_dom sec = (if t_is_srb e then sec_rrc else sec_up)"

lemma t_configure_result:
  assumes "pdcp_tx_configure_security mk sec i c e = Inr e'"
  shows "e' = e \<or> (\<exists>f. mk sec (tx_direction (t_cfg e)) i c = Inr f \<and>
    e' = e\<lparr>t_integrity_enabled := i, t_ciphering_enabled := c, t_sec_engine := Some f\<rparr>)"
  using assms by (auto simp: pdcp_tx_configure_security_def rbind_eq_Inr split: if_splits)

lemma t_configure_ok:
  assumes "t_domain_ok sec e" "t_is_srb e \<Longrightarrow> i" "engines_ok mk sec"
  shows "\<exists>e'. pdcp_tx_configure_security mk sec i c e = Inr e'"
proof (cases "i \<and> (k_128_int sec = None \<or> integ_algo sec = None)")
  case False
  then obtain f where "mk sec (tx_direction (t_cfg e)) i c = Inr f"
    using assms(3) unfolding engines_ok_def by blast
  with False show ?thesis
    using assms(1,2) by (cases "tx_rb_type (t_cfg e)") (auto simp: pdcp_tx_configure_security_def t_domain_ok_def)
qed (use assms in \<open>cases "tx_rb_type (t_cfg e)"; auto simp: pdcp_tx_configure_security_def t_domain_ok_def\<close>)

lemma t_inv_security [simp]:
  "t_inv (e\<lparr>t_integrity_enabled := i\<rparr>) = t_inv e" "t_inv (e\<lparr>t_ciphering_enabled := i\<rparr>) = t_inv e"
  "t_inv (e\<lparr>t_sec_engine := f\<rparr>) = t_inv e"
  by (simp_all add: t_inv_def)

lemma t_reset_inv: "t_inv e \<Longrightarrow> t_inv (pdcp_tx_reset e)"
  using cm_clear_spec [of "t_window e"] by (simp add: t_inv_def pdcp_tx_reset_def)

lemma t_reset_sel [simp]: "t_cfg (pdcp_tx_reset e) = t_cfg e" "t_sec_engine (pdcp_tx_reset e) = t_sec_engine e"
  "t_integrity_enabled (pdcp_tx_reset e) = t_integrity_enabled e" "tx_next (pdcp_tx_reset e) = 0"
  by (simp_all add: pdcp_tx_reset_def)

lemma pdcp_tx_reestablish_ok:
  assumes "t_inv e" "t_engines_ok e" "t_domain_ok sec e" "t_is_srb e \<longrightarrow> t_integrity_enabled e" "engines_ok mk sec"
    and "\<And>d i c f. mk sec d i c = Inr f \<Longrightarrow> t_engine_ok f"
  shows "succeeds (pdcp_tx_reestablish mk sec e) (\<lambda>e'. t_inv e' \<and> t_engines_ok e' \<and> t_cfg e' = t_cfg e \<and>
    (t_is_srb e \<or> t_is_um e \<longrightarrow> tx_next e' = 0))"
proof -
  define e1 where "e1 = (if t_is_srb e \<or> t_is_um e then pdcp_tx_reset e else e)"
  have e1: "t_inv e1" "t_cfg e1 = t_cfg e" "t_integrity_enabled e1 = t_integrity_enabled e" "t_sec_engine e1 = t_sec_engine e"
      "t_is_srb e \<or> t_is_um e \<longrightarrow> tx_next e1 = 0"
    using assms(1) t_reset_inv by (auto simp: e1_def)
  obtain e2 where e2: "pdcp_tx_configure_security mk sec (t_integrity_enabled e1) (t_ciphering_enabled e1) e1 = Inr e2"
    using t_configure_ok [of sec e1 "t_integrity_enabled e1" mk] assms(3,4,5) e1 by (auto simp: t_domain_ok_def)
  have ok2: "t_inv e2" "t_engines_ok e2" "t_cfg e2 = t_cfg e" "tx_next e2 = tx_next e1"
    using t_configure_result [OF e2] e1 assms(2,6) by (auto simp: t_engines_ok_def)
  have "succeeds (if t_is_am e2 then retransmit_all_pdus e2 else Inr e2) (\<lambda>e'. t_again e2 e')"
    using retransmit_all_ok [OF ok2(1,2)] t_again_refl [OF ok2(1)] by simp
  then show ?thesis
    unfolding pdcp_tx_reestablish_def Let_def e1_def [symmetric] e2 rbind_simps
    by (rule succeeds_mono) (use ok2 e1(5) in \<open>auto simp: t_again_def t_engines_ok_def\<close>)
qed

lemma t_again_control: "t_inv e \<Longrightarrow> t_again e (write_control_pdu_to_lower_layers b e)"
  by (simp add: t_again_def) (simp add: t_inv_def t_metrics_defs)

lemma data_recovery_ok:
  assumes "t_inv e" "t_engines_ok e" "tx_rb_type (t_cfg e) = rb_drb" "t_is_am e"
  shows "succeeds (data_recovery report e) (t_again e)"
proof -
  define e1 where "e1 = (if status_report_required (t_cfg e) then send_status_report report e else e)"
  have e1: "t_again e e1"
    using t_again_refl [OF assms(1)] t_again_control [OF assms(1)] by (simp add: e1_def send_status_report_def)
  then have "t_inv e1" "t_engines_ok e1"
    using assms(2) by (auto simp: t_again_def t_engines_ok_def)
  then have "succeeds (retransmit_all_pdus e1) (t_again e)"
    by (rule succeeds_mono [OF retransmit_all_ok]) (rule t_again_trans [OF e1])
  then show ?thesis
    using assms(3,4) by (simp add: data_recovery_def e1_def)
qed

subsection \<open>Sequences of inputs\<close>

datatype pdcp_tx_input =
    In_Sdu "byte list"
  | In_Transmitted u32
  | In_Delivered u32
  | In_Retransmitted u32
  | In_Retransmitted_Delivered u32
  | In_Discard u32
  | In_Status "byte list"
  | In_Recovery "byte list"

fun pdcp_tx_step :: "pdcp_tx_input \<Rightarrow> pdcp_entity_tx \<Rightarrow> pdcp_entity_tx result" where
  "pdcp_tx_step (In_Sdu sdu) e = pdcp_handle_sdu sdu e"
| "pdcp_tx_step (In_Transmitted sn) e = handle_transmit_notification sn e"
| "pdcp_tx_step (In_Delivered sn) e = handle_delivery_notification sn e"
| "pdcp_tx_step (In_Retransmitted sn) e = handle_retransmit_notification sn e"
| "pdcp_tx_step (In_Retransmitted_Delivered sn) e = handle_delivery_retransmitted_notification sn e"
| "pdcp_tx_step (In_Discard c) e = discard_callback c e"
| "pdcp_tx_step (In_Status status) e = handle_status_report status e"
| "pdcp_tx_step (In_Recovery report) e = data_recovery report e"

text \<open>SDUs of a size the engines have room for, and data recovery for acknowledged bearers only.\<close>

fun t_input_ok :: "pdcp_tx_config \<Rightarrow> pdcp_tx_input \<Rightarrow> bool" where
  "t_input_ok cfg (In_Sdu sdu) \<longleftrightarrow> t_sdu_ok sdu"
| "t_input_ok cfg (In_Recovery report) \<longleftrightarrow> tx_rb_type cfg = rb_drb \<and> tx_rlc_mode cfg = mode_am"
| "t_input_ok cfg _ \<longleftrightarrow> True"

fun t_took :: "pdcp_tx_input \<Rightarrow> pdcp_entity_tx \<Rightarrow> pdcp_entity_tx \<Rightarrow> byte list list" where
  "t_took (In_Sdu sdu) e e' = (if tx_next e' = tx_next e then [] else [sdu])"
| "t_took _ e e' = []"

text \<open>The SDUs that were given a COUNT, and the entity.\<close>

primrec pdcp_tx_run :: "pdcp_tx_input list \<Rightarrow> pdcp_entity_tx \<Rightarrow> (byte list list \<times> pdcp_entity_tx) result" where
  "pdcp_tx_run [] e = Inr ([], e)"
| "pdcp_tx_run (i # is) e =
     rbind (pdcp_tx_step i e) (\<lambda>e1. rbind (pdcp_tx_run is e1) (\<lambda>(sdus, e2). Inr (t_took i e e1 @ sdus, e2)))"

text \<open>What was sent for the SDUs: each once under the next COUNT, and again only as it was the first time.\<close>

definition t_sent :: "byte list list \<Rightarrow> pdcp_entity_tx \<Rightarrow> bool" where
  "t_sent sdus e \<longleftrightarrow> t_inv e \<and> t_engines_ok e \<and> length sdus = unat (tx_next e) \<and> list_all t_sdu_ok sdus \<and>
     map fst (filter (\<lambda>(c, b, r). \<not> r) (t_data e)) = map of_nat [0..<length sdus] \<and>
     (\<forall>(c, b, r)\<in>set (t_data e). unat c < length sdus \<and> t_pdu e c (sdus ! unat c) = Inr b) \<and>
     (t_is_am e \<longrightarrow> (\<forall>k i. cm_lookup (t_window e) k = Some i \<longrightarrow> tinfo_sdu i = sdus ! k))"

definition t_step_ok :: "byte list list \<Rightarrow> pdcp_entity_tx \<Rightarrow> pdcp_entity_tx \<Rightarrow> bool" where
  "t_step_ok sdus e e' \<longleftrightarrow> t_cfg e' = t_cfg e \<and> t_sec_engine e' = t_sec_engine e \<and> t_sent sdus e'"

lemma t_removed_sent:
  assumes "t_sent sdus e" "t_removed K e e'"
  shows "t_step_ok sdus e e'" "tx_next e' = tx_next e"
proof -
  have "\<And>c s. t_pdu e' c s = t_pdu e c s"
    using assms(2) by (auto simp: t_removed_def intro: t_pdu_cong)
  then show "t_step_ok sdus e e'" "tx_next e' = tx_next e"
    using assms by (auto simp: t_sent_def t_step_ok_def t_removed_def t_engines_ok_def)
qed

lemma t_again_sent:
  assumes "t_sent sdus e" "t_again e e'" "t_is_am e"
  shows "t_step_ok sdus e e'"
proof -
  obtain new where new: "t_data e' = t_data e @ new"
      "\<forall>(c, b, r)\<in>set new. r \<and> (\<exists>i. cm_lookup (t_window e) (unat c) = Some i \<and> t_pdu e c (tinfo_sdu i) = Inr b)"
    using assms(2) by (auto simp: t_again_def)
  have "filter (\<lambda>(c, b, r). \<not> r) new = []"
    using new(2) by (auto simp: filter_empty_conv)
  moreover have "\<And>c s. t_pdu e' c s = t_pdu e c s"
    using assms(2) by (auto simp: t_again_def intro: t_pdu_cong)
  moreover have "unat c < length sdus \<and> t_pdu e c (sdus ! unat c) = Inr b" if cbr: "(c, b, r) \<in> set new" for c b r
  proof -
    obtain i where i: "cm_lookup (t_window e) (unat c) = Some i" "t_pdu e c (tinfo_sdu i) = Inr b"
      using bspec [OF new(2) cbr] by auto
    then show ?thesis
      using t_inv_entry [OF _ i(1)] assms(1,3) by (auto simp: t_sent_def)
  qed
  ultimately show ?thesis
    using assms new(1) by (auto simp: t_sent_def t_step_ok_def t_again_def t_engines_ok_def)
qed

lemma t_accepted_sent:
  assumes "t_sent sdus e" "t_accepted sdu e e'" "t_sdu_ok sdu"
  shows "t_step_ok (sdus @ [sdu]) e e'" "tx_next e' \<noteq> tx_next e"
proof -
  obtain b where b: "t_pdu e (tx_next e) sdu = Inr b" "t_data e' = t_data e @ [(tx_next e, b, False)]"
    using assms(2) by (auto simp: t_accepted_def)
  have pdu: "\<And>c s. t_pdu e' c s = t_pdu e c s" and nxt: "unat (tx_next e') = Suc (length sdus)" and len: "unat (tx_next e) = length sdus"
    using assms(1,2) by (auto simp: t_accepted_def t_sent_def intro: t_pdu_cong)
  have "of_nat (length sdus) = tx_next e"
    by (simp flip: len)
  then have counts: "map fst (filter (\<lambda>(c, b, r). \<not> r) (t_data e')) = map of_nat [0..<length (sdus @ [sdu])]"
    using assms(1) b(2) by (simp add: t_sent_def)
  have data: "\<forall>(c, b, r)\<in>set (t_data e'). unat c < length (sdus @ [sdu]) \<and> t_pdu e' c ((sdus @ [sdu]) ! unat c) = Inr b"
    using assms(1) b len pdu by (auto simp: t_sent_def nth_append)
  have "(if k = length sdus then i = t_info sdu e else cm_lookup (t_window e) k = Some i)" if "cm_lookup (t_window e') k = Some i" for k i
    using assms(2) that len unfolding t_accepted_def by simp
  then have stored: "t_is_am e' \<longrightarrow> (\<forall>k i. cm_lookup (t_window e') k = Some i \<longrightarrow> tinfo_sdu i = (sdus @ [sdu]) ! k)"
    using assms(1,2) t_inv_entry [of e] len by (fastforce simp: t_sent_def t_accepted_def t_info_def nth_append split: if_splits)
  show "t_step_ok (sdus @ [sdu]) e e'"
    unfolding t_step_ok_def t_sent_def using counts data stored nxt assms by (simp add: t_sent_def t_accepted_def t_engines_ok_def)
  show "tx_next e' \<noteq> tx_next e"
    using nxt len by auto
qed

lemma pdcp_tx_step_ok:
  assumes "t_sent sdus e" "t_input_ok (t_cfg e) i"
  shows "succeeds (pdcp_tx_step i e) (\<lambda>e'. t_step_ok (sdus @ t_took i e e') e e')"
proof -
  have inv: "t_inv e" "t_engines_ok e"
    using assms(1) by (simp_all add: t_sent_def)
  have rem: "succeeds r (\<lambda>e'. \<exists>K. t_removed K e e') \<Longrightarrow> succeeds r (\<lambda>e'. t_step_ok sdus e e')" for r
    by (erule succeeds_mono) (use t_removed_sent [OF assms(1)] in blast)
  show ?thesis
  proof (cases i)
    case (In_Sdu sdu)
    show ?thesis
      unfolding In_Sdu pdcp_tx_step.simps t_took.simps
      by (rule succeeds_mono [OF pdcp_handle_sdu_ok [OF inv]])
        (use assms(2) In_Sdu t_removed_sent [OF assms(1)] t_accepted_sent [OF assms(1)] in auto)
  next
    case (In_Recovery report)
    then show ?thesis
      using succeeds_mono [OF data_recovery_ok [OF inv, of report]] assms(2) t_again_sent [OF assms(1)] by auto
  next
    case (In_Discard c)
    then show ?thesis
      using rem [OF t_removedI [OF discard_callback_ok [OF inv(1), of c]]] by simp
  qed (use rem handle_transmit_notification_ok [OF inv(1)] handle_delivery_notification_ok [OF inv(1)] handle_status_report_ok [OF inv(1)]
      t_removed_refl [OF inv(1), of "{}"] t_removed_sent [OF assms(1), of "{}" e]
      in \<open>auto simp: handle_retransmit_notification_def handle_delivery_retransmitted_notification_def\<close>)
qed

lemma pdcp_tx_run_ok:
  assumes "t_sent sdus e" "\<forall>i\<in>set is. t_input_ok (t_cfg e) i"
  shows "succeeds (pdcp_tx_run is e) (\<lambda>(acc, e'). t_step_ok (sdus @ acc) e e')"
  using assms
proof (induction "is" arbitrary: e sdus)
  case Nil
  then show ?case
    by (simp add: t_step_ok_def)
next
  case (Cons i "is")
  have "succeeds (pdcp_tx_step i e) (\<lambda>e1. t_step_ok (sdus @ t_took i e e1) e e1)"
    using Cons.prems by (intro pdcp_tx_step_ok) auto
  then show ?case
    unfolding pdcp_tx_run.simps succeeds_simps
  proof (rule succeeds_mono)
    fix e1
    assume e1: "t_step_ok (sdus @ t_took i e e1) e e1"
    then have "succeeds (pdcp_tx_run is e1) (\<lambda>(acc, e'). t_step_ok ((sdus @ t_took i e e1) @ acc) e1 e')"
      using Cons.prems by (intro Cons.IH) (auto simp: t_step_ok_def)
    then show "succeeds (pdcp_tx_run is e1) (\<lambda>x. succeeds (case x of (s, e2) \<Rightarrow> Inr (t_took i e e1 @ s, e2)) (\<lambda>(acc, e'). t_step_ok (sdus @ acc) e e'))"
      by (rule succeeds_mono) (use e1 in \<open>auto simp: t_step_ok_def\<close>)
  qed
qed

lemma pdcp_tx_new_sent:
  assumes "pdcp_entity_tx_new cfg = Inr e"
  shows "t_sent [] e" "t_cfg e = cfg" "t_sec_engine e = None" "t_cfg_ok cfg"
  using assms
  by (auto simp: pdcp_entity_tx_new_def create_tx_window_def t_sent_def t_inv_def t_cfg_ok_def t_engines_ok_def t_data_def List.map_filter_def
      cm_new_inv cm_lookup_new pdcp_window_size_def split: if_splits)

subsection \<open>Loops\<close>

lemma t_stop_loop_diverges:
  assumes "t_stop_loop h e = Some r"
  shows "h \<noteq> 0xffffffff \<or> \<not> cm_inv (t_window e)"
proof (rule t_stop_loop.raw_induct [where P = "\<lambda>h e r. h \<noteq> 0xffffffff \<or> \<not> cm_inv (t_window e)", OF _ assms], rule ccontr)
  fix loop h e r
  assume IH: "\<And>h e r. loop h e = Some r \<Longrightarrow> h \<noteq> 0xffffffff \<or> \<not> cm_inv (t_window e)"
    and body: "(if tx_next_ack e \<le> h
      then case (if cm_contains (unat (tx_next_ack e)) (t_window e) then window_remove_sn (unat (tx_next_ack e)) (t_window e)
                 else Inr (t_window e)) of
             Inl err \<Rightarrow> Some (Inl err) | Inr win \<Rightarrow> loop h (e\<lparr>t_window := win, tx_next_ack := tx_next_ack e + 1\<rparr>)
      else Some (Inr e)) = Some r"
    and "\<not> (h \<noteq> 0xffffffff \<or> \<not> cm_inv (t_window e))"
  then have h: "h = 0xffffffff" and inv: "cm_inv (t_window e)"
    by auto
  then have top: "tx_next_ack e \<le> h"
    using u32_bound [of "tx_next_ack e"] by (simp add: word_le_nat_alt)
  obtain w where w: "(if cm_contains (unat (tx_next_ack e)) (t_window e) then window_remove_sn (unat (tx_next_ack e)) (t_window e)
      else Inr (t_window e)) = Inr w" "cm_inv w"
    using circ.remove_present [OF inv, of "unat (tx_next_ack e)"] inv
    by (cases "cm_contains (unat (tx_next_ack e)) (t_window e)") (auto simp: cm_contains_iff)
  have "loop h (e\<lparr>t_window := w, tx_next_ack := tx_next_ack e + 1\<rparr>) = Some r"
    using body top unfolding w(1) by simp
  then show False
    using IH h w(2) by fastforce
qed

subsection \<open>Status reports\<close>

lemma unpack_first:
  assumes "dec_inv d" "dec_bits d = bits @ rest" "length bits = n" "n \<le> LENGTH('a)"
  shows "\<exists>d'. unpack n d = Inr (True, bits_num bits :: 'a::len word, d') \<and> dec_inv d' \<and> dec_bits d' = rest"
  using succeedsD [OF unpack_spec [OF assms(1,4)]] assms(2,3) by fastforce

lemma bitmap_counts_window:
  assumes "unat (fmc + 1) + length bits \<le> 2 ^ 32"
  shows "bitmap_counts fmc (bits @ replicate pad False) = {unat (fmc + 1) + j |j. j < length bits \<and> bits ! j}"
proof -
  have "unat (fmc + 1 + of_nat j) = unat (fmc + 1) + j" if "j < length bits" for j
  proof -
    have "unat (fmc + 1 + of_nat j) = (unat (fmc + 1) + unat (of_nat j :: u32)) mod 2 ^ 32"
      by (simp add: unat_word_ariths(1) [where 'a = 32])
    moreover have "unat (of_nat j :: u32) = j"
      using that assms by (simp add: unat_of_nat)
    ultimately show ?thesis
      using that assms by simp
  qed
  moreover have "j < length (bits @ replicate pad False) \<and> (bits @ replicate pad False) ! j \<longleftrightarrow> j < length bits \<and> bits ! j" for j
    by (auto simp: nth_append)
  ultimately show ?thesis
    unfolding bitmap_counts_def by (auto, metis)
qed

lemma handle_status_report_reads:
  assumes "t_inv e" "bits_of_bytes report = word_bits 8 (0 :: u64) @ word_bits 32 (fmc :: u32) @ bits"
  shows "\<exists>e'. handle_status_report report e = Inr e' \<and> t_removed ({unat (tx_next_ack e)..<unat fmc} \<union> bitmap_counts fmc bits) e e'"
proof -
  have zero: "word_bits 8 (0 :: u64) = [False] @ [False, False, False] @ [False, False, False, False]"
    by code_simp
  have num: "bits_num [False] = (0 :: u32)" "bits_num [False, False, False] = (0 :: u32)" "bits_num [False, False, False, False] = (0 :: u32)"
    by (simp_all add: bits_num_def)
  have "take_bit 32 fmc = fmc"
    by (rule bit_word_eqI) (auto simp: bit_simps dest: bit_imp_le_length)
  then have num': "bits_num (word_bits 32 fmc) = fmc"
    by (simp add: bits_num_word_bits)
  obtain d1 where d1: "unpack 1 (dec_new report) = Inr (True, 0 :: u32, d1)" "dec_inv d1"
      "dec_bits d1 = [False, False, False] @ [False, False, False, False] @ word_bits 32 fmc @ bits"
    using unpack_first [of "dec_new report" "[False]" _ 1, where 'a = 32] assms(2) zero num by auto
  obtain d2 where d2: "unpack 3 d1 = Inr (True, 0 :: u32, d2)" "dec_inv d2" "dec_bits d2 = [False, False, False, False] @ word_bits 32 fmc @ bits"
    using unpack_first [OF d1(2,3), of 3, where 'a = 32] num by auto
  obtain d3 where d3: "unpack 4 d2 = Inr (True, 0 :: u32, d3)" "dec_inv d3" "dec_bits d3 = word_bits 32 fmc @ bits"
    using unpack_first [OF d2(2,3), of 4, where 'a = 32] num by auto
  obtain d4 where d4: "unpack 32 d3 = Inr (True, fmc, d4)" "dec_inv d4" "dec_bits d4 = bits"
    using unpack_first [OF d3(2,3), of 32, where 'a = 32] num' by auto
  obtain e1 where e1: "t_fmc_loop fmc (tx_next_ack e) e = Inr e1" "t_removed {unat (tx_next_ack e)..<unat fmc} e e1"
    using succeedsD [OF t_fmc_loop_ok [OF assms(1)]] by blast
  obtain e2 where e2: "t_bitmap_loop d4 fmc e1 = Some (Inr e2)" "t_removed (bitmap_counts fmc bits) e1 e2"
    using t_bitmap_loop_ok [OF t_removed_inv [OF e1(2)] d4(2), of fmc] d4(3) by auto
  show ?thesis
    using d1(1) d2(1) d3(1) d4(1) e1(1) e2(1) t_removed_trans [OF e1(2) e2(2)] by (simp add: handle_status_report_def)
qed

lemma t_ack_removed:
  assumes "t_inv e" "t_removed ({unat (tx_next_ack e)..<n} \<union> K) e e'"
  shows "cm_lookup (t_window e') k = (if k < n \<or> k \<in> K then None else cm_lookup (t_window e) k)"
  using assms(2) t_inv_entry [OF assms(1), of k] by (cases "cm_lookup (t_window e) k") (auto simp: t_removed_def)

definition pdcp_demo_tx_cfg :: pdcp_tx_config where
  "pdcp_demo_tx_cfg = \<lparr>tx_rb_type = rb_drb, tx_rlc_mode = mode_am, tx_sn_size = pdcp_size12bits, tx_direction = sec_downlink,
     discard_timer = Some discard_infinity, status_report_required = True, tx_max_count_notify = 3000, tx_max_count_hard = 4000,
     rlc_sdu_queue = 100, test_mode = False\<rparr>"

lemma pdcp_tx_run_subseq:
  "pdcp_tx_run ins e = Inr (sdus, e') \<Longrightarrow> subseq sdus (concat (map (\<lambda>x. case x of In_Sdu sdu \<Rightarrow> [sdu] | _ \<Rightarrow> []) ins))"
proof (induction ins arbitrary: e sdus)
  case (Cons x ins)
  then obtain e1 acc where "sdus = t_took x e e1 @ acc" "subseq acc (concat (map (\<lambda>x. case x of In_Sdu sdu \<Rightarrow> [sdu] | _ \<Rightarrow> []) ins))"
    by (auto simp: rbind_eq_Inr)
  then show ?case
    by (cases x) auto
qed simp

text \<open>C6. A transmitting entity accepts every sequence of SDUs, notifications, timer expiries, status reports and recoveries. The SDUs
  it accepts are sent in their order under the COUNTs 0, 1, 2, and so on, each used for one first transmission; and no two
  different PDUs ever go out under one COUNT, since a retransmission carries the PDU of the first transmission again.\<close>

theorem pdcp_tx_one_pdu_per_count:
  assumes "pdcp_entity_tx_new cfg = Inr e0" "pdcp_tx_configure_security mk sec i c e0 = Inr e"
    and "\<forall>d i c f. mk sec d i c = Inr f \<longrightarrow> t_engine_ok f" "\<forall>x\<in>set ins. t_input_ok cfg x"
  shows "\<exists>sdus e'. pdcp_tx_run ins e = Inr (sdus, e') \<and> length sdus = unat (tx_next e') \<and>
    subseq sdus (concat (map (\<lambda>x. case x of In_Sdu sdu \<Rightarrow> [sdu] | _ \<Rightarrow> []) ins)) \<and>
    map fst (filter (\<lambda>(c, pdu, is_retx). \<not> is_retx) (t_data e')) = map of_nat [0..<length sdus] \<and>
    (\<forall>(c, pdu, is_retx)\<in>set (t_data e'). unat c < length sdus \<and> t_pdu e c (sdus ! unat c) = Inr pdu)"
proof -
  note new = pdcp_tx_new_sent [OF assms(1)]
  have "t_sent [] e" "t_cfg e = cfg"
    using t_configure_result [OF assms(2)] new assms(3) by (auto simp: t_sent_def t_engines_ok_def t_data_def)
  then obtain sdus e' where r: "pdcp_tx_run ins e = Inr (sdus, e')" "t_step_ok sdus e e'"
    using succeedsD [OF pdcp_tx_run_ok [of "[]" e ins]] assms(4) by auto
  have "t_pdu e' = t_pdu e"
    using r(2) by (intro ext t_pdu_cong) (auto simp: t_step_ok_def)
  then show ?thesis
    using r pdcp_tx_run_subseq [OF r(1)] by (auto simp: t_step_ok_def t_sent_def)
qed

text \<open>An engine that protects with four bytes and one that fails.\<close>

definition demo_engine :: security_fun where
  "demo_engine buf off cnt = Inr (Inr (buf @ replicate sec_mac_len 0))"

definition demo_tx_sec :: sec_128_as_config where
  "demo_tx_sec = \<lparr>sec_dom = sec_up, k_128_int = None, k_128_enc = [], integ_algo = None, cipher_algo = nea0\<rparr>"

theorem pdcp_tx_one_pdu_per_count_witness:
  "\<exists>e0 e sdus e'. pdcp_entity_tx_new pdcp_demo_tx_cfg = Inr e0 \<and>
     pdcp_tx_configure_security (\<lambda>_ _ _ _. Inr demo_engine) demo_tx_sec False True e0 = Inr e \<and>
     pdcp_tx_run [In_Sdu [1, 2], In_Transmitted 0, In_Sdu [3], In_Status [0, 0], In_Recovery []] e = Inr (sdus, e') \<and>
     (\<forall>(c, pdu, is_retx)\<in>set (t_data e'). t_pdu e c (sdus ! unat c) = Inr pdu)"
proof -
  obtain e0 where e0: "pdcp_entity_tx_new pdcp_demo_tx_cfg = Inr e0" "t_cfg e0 = pdcp_demo_tx_cfg"
    by (simp add: pdcp_entity_tx_new_def pdcp_demo_tx_cfg_def create_tx_window_def)
  obtain e where e: "pdcp_tx_configure_security (\<lambda>_ _ _ _. Inr demo_engine) demo_tx_sec False True e0 = Inr e"
    using e0(2) by (simp add: pdcp_tx_configure_security_def demo_tx_sec_def pdcp_demo_tx_cfg_def)
  show ?thesis
    using e0(1) e pdcp_tx_one_pdu_per_count [OF e0(1) e, of "[In_Sdu [1, 2], In_Transmitted 0, In_Sdu [3], In_Status [0, 0], In_Recovery []]"]
    by (auto simp: t_engine_ok_def demo_engine_def t_sdu_ok_def pdcp_demo_tx_cfg_def)
qed

text \<open>C10. The loop that stops discard timers ends exactly for COUNTs below the largest one, which the check in front of it
  ensures; so neither stopping timers nor a status report, whatever its bytes, keeps the entity busy for ever.\<close>

theorem pdcp_tx_loops_end:
  assumes "t_inv e"
  shows "((\<exists>r. t_stop_loop h e = Some r) \<longleftrightarrow> h \<noteq> 0xffffffff) \<and>
    stop_discard_timer h e \<noteq> Inl Endless_Loop \<and> handle_status_report status e \<noteq> Inl Endless_Loop"
proof -
  have win: "cm_inv (t_window e)"
    using assms by (simp add: t_inv_def)
  have "\<exists>r. t_stop_loop h e = Some r" if "h \<noteq> 0xffffffff"
  proof (cases "tx_next_ack e \<le> h")
    case True
    have "unat h \<noteq> 4294967295"
      using that by (simp add: word_unat_eq_iff)
    then have "unat h + 1 < 4294967296"
      using u32_bound [of h] by linarith
    then show ?thesis
      using t_stop_loop_ok [of h e] True win by (auto simp: word_le_nat_alt)
  qed (subst t_stop_loop.simps, simp)
  then have "(\<exists>r. t_stop_loop h e = Some r) \<longleftrightarrow> h \<noteq> 0xffffffff"
    using t_stop_loop_diverges [of h e] win by blast
  moreover obtain e1 e2 where "stop_discard_timer h e = Inr e1" "handle_status_report status e = Inr e2"
    using succeedsD [OF stop_discard_timer_ok [OF assms, of h]] succeedsD [OF handle_status_report_ok [OF assms, of status]] by blast
  ultimately show ?thesis
    by simp
qed

theorem pdcp_tx_loops_end_witness:
  "\<exists>e. pdcp_entity_tx_new pdcp_demo_tx_cfg = Inr e \<and> (\<exists>r. t_stop_loop 7 e = Some r) \<and> \<not> (\<exists>r. t_stop_loop 0xffffffff e = Some r)"
proof -
  obtain e where e: "pdcp_entity_tx_new pdcp_demo_tx_cfg = Inr e"
    by (simp add: pdcp_entity_tx_new_def pdcp_demo_tx_cfg_def create_tx_window_def)
  then have "t_inv e"
    using pdcp_tx_new_sent [OF e] by (simp add: t_sent_def)
  then show ?thesis
    using e pdcp_tx_loops_end [of e 7] pdcp_tx_loops_end [of e "0xffffffff"] by simp
qed

text \<open>C9. The status report a receiving entity compiles makes the transmitting entity forget exactly the SDUs that it reports: those below
  the next COUNT to be delivered and those in the receiving window that the report covers. Everything else stays in the window for a
  retransmission.\<close>

theorem status_report_acknowledges:
  assumes "t_inv e"
  shows "\<exists>report e'. compile_status_report r = Inr report \<and> handle_status_report report e = Inr e' \<and> t_inv e' \<and> tx_next e' = tx_next e \<and>
    (\<forall>k. cm_lookup (t_window e') k =
       (if k < unat (rx_deliv r) \<or> unat (rx_deliv r + 1) \<le> k \<and> k < unat (p_report_end r) \<and> cm_contains k (p_rx_window r)
        then None else cm_lookup (t_window e) k))"
proof -
  let ?from = "unat (rx_deliv r + 1)" and ?to = "unat (p_report_end r)"
  let ?bits = "map (\<lambda>k. cm_contains k (p_rx_window r)) [?from..<?to]"
  obtain report pad where r: "compile_status_report r = Inr report"
      "bits_of_bytes report = word_bits 8 (0 :: u64) @ word_bits 32 (rx_deliv r) @ ?bits @ replicate pad False"
    using succeedsD [OF compile_status_report_repr [of r]] by blast
  obtain e' where e': "handle_status_report report e = Inr e'"
      "t_removed ({unat (tx_next_ack e)..<unat (rx_deliv r)} \<union> bitmap_counts (rx_deliv r) (?bits @ replicate pad False)) e e'"
    using handle_status_report_reads [OF assms r(2)] by blast
  have "?from + length ?bits \<le> 2 ^ 32"
    using u32_bound [of "p_report_end r"] u32_bound [of "rx_deliv r + 1"] by simp
  from bitmap_counts_window [OF this, of pad]
  have "bitmap_counts (rx_deliv r) (?bits @ replicate pad False) = {?from + j |j. j < ?to - ?from \<and> cm_contains (?from + j) (p_rx_window r)}"
    by auto
  also have "\<dots> = {k. ?from \<le> k \<and> k < ?to \<and> cm_contains k (p_rx_window r)}"
    by (auto simp: le_iff_add)
  finally show ?thesis
    using r(1) e' t_ack_removed [OF assms e'(2)] by (auto simp: t_removed_def)
qed

theorem status_report_acknowledges_witness:
  "\<exists>e e' r report. pdcp_entity_tx_new pdcp_demo_tx_cfg = Inr e \<and> pdcp_entity_rx_new (pdcp_demo_cfg rb_drb) = Inr r \<and>
     compile_status_report r = Inr report \<and> handle_status_report report e = Inr e'"
proof -
  obtain e r where e: "pdcp_entity_tx_new pdcp_demo_tx_cfg = Inr e" "pdcp_entity_rx_new (pdcp_demo_cfg rb_drb) = Inr r"
    by (simp add: pdcp_entity_tx_new_def pdcp_demo_tx_cfg_def create_tx_window_def pdcp_entity_rx_new_def pdcp_demo_cfg_def)
  then have "t_inv e"
    using pdcp_tx_new_sent [OF e(1)] by (simp add: t_sent_def)
  then show ?thesis
    using e status_report_acknowledges [of e r] by blast
qed

text \<open>What the entity stores for an SDU that it accepts.\<close>

definition t_admits :: "pdcp_entity_tx \<Rightarrow> bool" where
  "t_admits e \<longleftrightarrow> tx_next e - tx_trans e < ucast (rlc_sdu_queue (t_cfg e)) \<and> tx_next e - tx_trans e < t_window_size e - 1 \<and>
     tx_next e < tx_max_count_hard (t_cfg e)"

lemma pdcp_handle_sdu_admitted:
  assumes "t_inv e" "t_engines_ok e" "t_sdu_ok sdu" "t_admits e" "\<not> test_mode (t_cfg e)" "discard_timer (t_cfg e) \<noteq> None"
  shows "\<exists>b e'. t_pdu e (tx_next e) sdu = Inr b \<and> pdcp_handle_sdu sdu e = Inr e' \<and> t_accepted sdu e e' \<and>
    tx_next_ack e' = tx_next_ack e \<and> t_lower e' = t_lower e @ [On_New_Data_Pdu (tx_next e) b False] \<and>
    cm_lookup (t_window e') = (\<lambda>j. if j = unat (tx_next e) then Some (t_info sdu e)
       else if j mod cm_size (t_window e) = unat (tx_next e) mod cm_size (t_window e) then None else cm_lookup (t_window e) j)"
proof -
  define e1 where "e1 = snd (t_check_max_count (t_metrics_add_sdus (length sdu) e))"
  have check: "t_check_max_count (t_metrics_add_sdus (length sdu) e) = (False, e1)" "t_same e e1"
    using t_check_max_count_same [where e = e and n = "length sdu"] assms(4) by (auto simp: e1_def prod_eq_iff t_admits_def)
  have e1: "t_inv e1" "t_engines_ok e1" "t_cfg e1 = t_cfg e" "tx_next e1 = tx_next e" "t_window e1 = t_window e" "t_sec_engine e1 = t_sec_engine e"
      "t_info sdu e1 = t_info sdu e"
    using t_same_inv [OF check(2)] check(2) assms(1,2) by (auto simp: t_same_def t_engines_ok_def t_info_def)
  have lower: "t_lower e1 = t_lower e" "tx_next_ack e1 = tx_next_ack e"
    unfolding e1_def by (simp_all add: t_check_max_count_def t_metrics_defs)
  obtain b where b: "t_pdu e1 (tx_next e1) sdu = Inr b" "t_pdu e (tx_next e) sdu = Inr b"
    using t_pdu_total [OF e1(2) assms(3)] t_pdu_cong [OF e1(6,3)] e1(4) by metis
  obtain w where w: "t_store sdu e1 = Inr (e1\<lparr>t_window := w\<rparr>)" "cm_lookup w = (\<lambda>j. if j = unat (tx_next e) then Some (t_info sdu e)
       else if j mod cm_size (t_window e) = unat (tx_next e) mod cm_size (t_window e) then None else cm_lookup (t_window e) j)"
    using succeedsD [OF t_store_ok [OF e1(1), of sdu, unfolded e1(3,4,5,7)]] assms(6) by blast
  let ?e' = "(write_data_pdu_to_lower_layers (tx_next e1) b False (e1\<lparr>t_window := w\<rparr>))\<lparr>tx_next := tx_next e1 + 1\<rparr>"
  have "\<not> tx_next e < tx_trans e" "t_cfg_ok (t_cfg e1)" "\<not> t_window_size e - 1 \<le> tx_next e - tx_trans e"
      "\<not> ucast (rlc_sdu_queue (t_cfg e)) \<le> tx_next e - tx_trans e" "\<not> test_mode (t_cfg ?e')"
    using assms(1,4,5) e1(3) by (simp_all add: t_inv_def not_less not_le t_admits_def t_metrics_defs)
  then have "pdcp_handle_sdu sdu e = Inr ?e'"
    unfolding pdcp_handle_sdu_def check(1)
    using b(1) w(1) write_header_ok [of e1] by (simp add: t_pdu_def Let_def)
  moreover have "succeeds (pdcp_handle_sdu sdu e) (\<lambda>e'. t_removed {} e e' \<or> t_accepted sdu e e')"
    by (rule pdcp_handle_sdu_ok [OF assms(1-3)])
  moreover have "tx_next ?e' = tx_next e + 1"
    by (simp add: e1(4) t_metrics_defs)
  ultimately show ?thesis
    using b w(2) lower by (auto simp: t_removed_def t_metrics_defs e1(4))
qed

lemma pdcp_demo_tx_ok:
  assumes "pdcp_entity_tx_new pdcp_demo_tx_cfg = Inr e"
  shows "t_engines_ok e" "t_admits e" "t_inv e" "tx_next e = 0" "tx_trans e = 0" "tx_next_ack e = 0"
  using assms pdcp_tx_new_sent [OF assms]
  by (auto simp: pdcp_entity_tx_new_def pdcp_demo_tx_cfg_def create_tx_window_def t_admits_def t_sent_def pdcp_window_size_def)

text \<open>C23. A delivery notification of RLC carries a sequence number. As long as the COUNT behind it is less than a window away from the
  oldest one that is not acknowledged, exactly that COUNT and those before it leave the window.\<close>

theorem pdcp_delivery_confirms:
  assumes "t_inv e" "t_is_am e" "discard_timer (t_cfg e) \<noteq> None" "tx_next_ack e \<le> c" "c < tx_next e"
    and "unat c < unat (tx_next_ack e) + unat (t_window_size e)"
  shows "\<exists>e'. handle_delivery_notification (t_SN c e) e = Inr e' \<and> t_inv e' \<and> tx_next e' = tx_next e \<and>
    (\<forall>k. cm_lookup (t_window e') k = (if k \<le> unat c then None else cm_lookup (t_window e) k))"
proof -
  let ?sz = "tx_sn_size (t_cfg e)"
  have sz: "?sz \<noteq> pdcp_size_invalid"
    using assms(1) by (simp add: t_inv_def t_cfg_ok_def)
  have "int (unat c) < int (unat (tx_next_ack e) + unat (t_window_size e))"
    using assms(6) by linarith
  then have "uint (tx_next_ack e) - uint (pdcp_window_size ?sz) \<le> uint c" "uint c < uint (tx_next_ack e) + uint (pdcp_window_size ?sz)"
    using assms(4) uint_nonnegative [of "pdcp_window_size ?sz"] by (simp_all add: word_le_def)
  then have cnt: "notification_count_estimation (t_SN c e) e = c"
    using rcvd_count_eq [OF sz] assms(3) by (simp add: count_estimation_eq)
  have "uint (t_SN c e) < uint (pdcp_sn_cardinality ?sz)"
    using sz uint_compute_sn [OF sz, of c] by (cases ?sz) (simp_all add: pdcp_sn_cardinality_def push_bit_eq_mult)
  then have "\<not> pdcp_sn_cardinality ?sz \<le> t_SN c e"
    by (simp add: word_less_def not_le)
  then have "handle_delivery_notification (t_SN c e) e = stop_discard_timer c e"
    using assms(2,3,5) cnt by (auto simp: handle_delivery_notification_def Let_def)
  moreover have "\<not> (discard_timer (t_cfg e) = None \<or> c < tx_next_ack e \<or> tx_next e \<le> c)"
    using assms(3-5) by (simp add: not_less not_le)
  then obtain e' where "stop_discard_timer c e = Inr e'" "t_removed {..unat c} e e'"
    using succeedsD [OF stop_discard_timer_ok [OF assms(1), of c]] by auto
  ultimately show ?thesis
    by (auto simp: t_removed_def)
qed

theorem pdcp_delivery_confirms_witness:
  "\<exists>e0 e e'. pdcp_entity_tx_new pdcp_demo_tx_cfg = Inr e0 \<and> pdcp_handle_sdu [7] e0 = Inr e \<and> cm_lookup (t_window e) 0 \<noteq> None \<and>
     handle_delivery_notification (t_SN 0 e) e = Inr e' \<and> cm_lookup (t_window e') 0 = None"
proof -
  obtain e0 where e0: "pdcp_entity_tx_new pdcp_demo_tx_cfg = Inr e0" "tx_next e0 = 0" "tx_trans e0 = 0" "tx_next_ack e0 = 0"
    by (simp add: pdcp_entity_tx_new_def pdcp_demo_tx_cfg_def create_tx_window_def)
  note new = pdcp_tx_new_sent [OF e0(1)]
  have inv: "t_inv e0"
    using new by (simp add: t_sent_def)
  obtain e where e: "pdcp_handle_sdu [7] e0 = Inr e" "t_accepted [7] e0 e" "tx_next_ack e = 0" "cm_lookup (t_window e) 0 \<noteq> None"
    using pdcp_handle_sdu_admitted [OF inv pdcp_demo_tx_ok(1) [OF e0(1)], of "[7]"] pdcp_demo_tx_ok(2) [OF e0(1)] new(2) e0
    by (auto simp: t_sdu_ok_def pdcp_demo_tx_cfg_def)
  then have f: "unat (tx_next e) = unat (1 :: u32)" "t_inv e" "t_cfg e = pdcp_demo_tx_cfg"
    using new(2) e0(2) by (simp_all add: t_accepted_def)
  then have n: "tx_next e = 1"
    by (simp only: word_unat_eq_iff)
  have "\<exists>e'. handle_delivery_notification (t_SN 0 e) e = Inr e' \<and> t_inv e' \<and> tx_next e' = tx_next e \<and>
    (\<forall>k. cm_lookup (t_window e') k = (if k \<le> unat (0 :: u32) then None else cm_lookup (t_window e) k))"
    using e f(2,3) n by (intro pdcp_delivery_confirms) (simp_all add: pdcp_demo_tx_cfg_def pdcp_window_size_def)
  then show ?thesis
    using e0(1) e by auto
qed

text \<open>C39. When the security engine reports an error, the value of a result that has none is taken: the exception leaves
  the entity, and upper layers never learn of a protocol failure.\<close>

theorem pdcp_tx_engine_error_throws:
  assumes "t_inv e" "t_admits e" "t_sec_engine e = Some engine" "\<forall>buf h. engine buf h (tx_next e) = Inr (Inl err)"
  shows "pdcp_handle_sdu sdu e = Inl Runtime_Error"
proof -
  define e1 where "e1 = snd (t_check_max_count (t_metrics_add_sdus (length sdu) e))"
  have e1: "t_check_max_count (t_metrics_add_sdus (length sdu) e) = (False, e1)" "t_cfg e1 = t_cfg e" "tx_next e1 = tx_next e" "t_sec_engine e1 = t_sec_engine e"
    using t_check_max_count_same [where e = e and n = "length sdu"] assms(2) by (auto simp: e1_def prod_eq_iff t_same_def t_admits_def)
  have "apply_ciphering_and_integrity_protection pdu (tx_next e) e1 = Inl Runtime_Error" for pdu
    using assms(3,4) e1 by (simp add: apply_ciphering_and_integrity_protection_def)
  moreover have "\<not> tx_next e < tx_trans e" "t_cfg_ok (t_cfg e)"
    using assms(1) by (simp_all add: t_inv_def not_less)
  ultimately show ?thesis
    using assms(2) e1 write_header_ok [of e1] by (simp add: pdcp_handle_sdu_def t_admits_def not_le leD)
qed

theorem pdcp_tx_engine_error_throws_witness:
  "\<exists>e. pdcp_entity_tx_new pdcp_demo_tx_cfg = Inr e \<and>
     pdcp_handle_sdu [1] (e\<lparr>t_sec_engine := Some (\<lambda>_ _ _. Inr (Inl ciphering_failure))\<rparr>) = Inl Runtime_Error"
proof -
  obtain e where e: "pdcp_entity_tx_new pdcp_demo_tx_cfg = Inr e"
    by (simp add: pdcp_entity_tx_new_def pdcp_demo_tx_cfg_def create_tx_window_def)
  then have "pdcp_handle_sdu [1] (e\<lparr>t_sec_engine := Some (\<lambda>_ _ _. Inr (Inl ciphering_failure))\<rparr>) = Inl Runtime_Error"
    using pdcp_demo_tx_ok [OF e]
    by (intro pdcp_tx_engine_error_throws [of _ "\<lambda>_ _ _. Inr (Inl ciphering_failure)"]) (simp_all add: t_admits_def)
  then show ?thesis
    using e by blast
qed

text \<open>C40. An SDU that is a whole window ahead of one that was transmitted but not acknowledged takes its place in the window: the check
  for an old element looks for the new COUNT and never finds it, so the old SDU is lost for a retransmission, lower layers are not
  told to discard it, and the lower edge of the window still names it.\<close>

theorem pdcp_tx_window_overwrites:
  assumes "t_inv e" "t_engines_ok e" "t_sdu_ok sdu" "t_admits e" "\<not> test_mode (t_cfg e)" "discard_timer (t_cfg e) \<noteq> None"
    and "cm_lookup (t_window e) k = Some info" "k + unat (t_window_size e) = unat (tx_next e)"
  shows "\<exists>e' pdu. pdcp_handle_sdu sdu e = Inr e' \<and> cm_lookup (t_window e') k = None \<and> tx_next_ack e' = tx_next_ack e \<and>
    t_lower e' = t_lower e @ [On_New_Data_Pdu (tx_next e) pdu False]"
proof -
  have size: "cm_size (t_window e) = unat (t_window_size e)"
    using assms(1) by (simp add: t_inv_def)
  have "k mod cm_size (t_window e) = unat (tx_next e) mod cm_size (t_window e)" "k \<noteq> unat (tx_next e)"
    using t_inv_entry [OF assms(1,7)] unfolding size assms(8) [symmetric] by auto
  then show ?thesis
    using pdcp_handle_sdu_admitted [OF assms(1-6)] by auto
qed

theorem pdcp_tx_window_overwrites_witness:
  "\<exists>e w e'. pdcp_entity_tx_new pdcp_demo_tx_cfg = Inr e \<and> cm_lookup w 0 \<noteq> None \<and>
     pdcp_handle_sdu [1] (e\<lparr>t_window := w, tx_next := 2048, tx_trans := 2048\<rparr>) = Inr e' \<and> cm_lookup (t_window e') 0 = None"
proof -
  obtain e where e: "pdcp_entity_tx_new pdcp_demo_tx_cfg = Inr e" "t_cfg e = pdcp_demo_tx_cfg" "t_window e = cm_new 2048"
    by (simp add: pdcp_entity_tx_new_def pdcp_demo_tx_cfg_def create_tx_window_def pdcp_window_size_def)
  note ok = pdcp_demo_tx_ok [OF e(1)]
  have "cm_inv (t_window e)" "cm_lookup (t_window e) 0 = None"
    using e(3) by (simp_all add: cm_new_inv cm_lookup_new)
  then obtain w where w: "cm_inv w" "cm_size w = 2048" "cm_lookup w = [0 \<mapsto> t_info [7] e]"
    using circ.add_new [of "t_window e" 0 "t_info [7] e"] e(3) by (auto simp: cm_lookup_new fun_eq_iff)
  let ?e = "e\<lparr>t_window := w, tx_next := 2048, tx_trans := 2048\<rparr>"
  have "t_inv ?e" "t_admits ?e" "t_engines_ok ?e"
    using ok w e(2) by (auto simp: t_inv_def t_admits_def t_engines_ok_def t_info_def pdcp_demo_tx_cfg_def t_sdu_ok_def pdcp_window_size_def split: if_splits)
  then obtain e' where "pdcp_handle_sdu [1] ?e = Inr e'" "cm_lookup (t_window e') 0 = None"
    using pdcp_tx_window_overwrites [of ?e "[1]" 0 "t_info [7] e"] e w by (auto simp: t_sdu_ok_def pdcp_demo_tx_cfg_def pdcp_window_size_def)
  moreover have "cm_lookup w 0 \<noteq> None"
    by (simp add: w(3))
  ultimately show ?thesis
    using e(1) by blast
qed

end
