(* ===== verification/Snow3g.thy ===== *)
theory Snow3g
  imports Prelude
begin

text \<open>
  The stream cipher SNOW 3G and the integrity function f9 built on it, \<^verbatim>\<open>lib/security/s3g.cpp\<close>. The lemmas show that
  \<^verbatim>\<open>s3g_MUL64\<close> is a sum over the bits of its second factor and distributes over exclusive or on both sides.
\<close>

subsection \<open>State\<close>

record S3G_STATE =
  s3g_lfsr :: "u32 list"
  s3g_fsm :: "u32 list"

definition SQ :: "byte list" where
  "SQ = [
     0x25, 0x24, 0x73, 0x67, 0xd7, 0xae, 0x5c, 0x30, 0xa4, 0xee, 0x6e, 0xcb, 0x7d, 0xb5, 0x82, 0xdb,
     0xe4, 0x8e, 0x48, 0x49, 0x4f, 0x5d, 0x6a, 0x78, 0x70, 0x88, 0xe8, 0x5f, 0x5e, 0x84, 0x65, 0xe2,
     0xd8, 0xe9, 0xcc, 0xed, 0x40, 0x2f, 0x11, 0x28, 0x57, 0xd2, 0xac, 0xe3, 0x4a, 0x15, 0x1b, 0xb9,
     0xb2, 0x80, 0x85, 0xa6, 0x2e, 0x02, 0x47, 0x29, 0x07, 0x4b, 0x0e, 0xc1, 0x51, 0xaa, 0x89, 0xd4,
     0xca, 0x01, 0x46, 0xb3, 0xef, 0xdd, 0x44, 0x7b, 0xc2, 0x7f, 0xbe, 0xc3, 0x9f, 0x20, 0x4c, 0x64,
     0x83, 0xa2, 0x68, 0x42, 0x13, 0xb4, 0x41, 0xcd, 0xba, 0xc6, 0xbb, 0x6d, 0x4d, 0x71, 0x21, 0xf4,
     0x8d, 0xb0, 0xe5, 0x93, 0xfe, 0x8f, 0xe6, 0xcf, 0x43, 0x45, 0x31, 0x22, 0x37, 0x36, 0x96, 0xfa,
     0xbc, 0x0f, 0x08, 0x52, 0x1d, 0x55, 0x1a, 0xc5, 0x4e, 0x23, 0x69, 0x7a, 0x92, 0xff, 0x5b, 0x5a,
     0xeb, 0x9a, 0x1c, 0xa9, 0xd1, 0x7e, 0x0d, 0xfc, 0x50, 0x8a, 0xb6, 0x62, 0xf5, 0x0a, 0xf8, 0xdc,
     0x03, 0x3c, 0x0c, 0x39, 0xf1, 0xb8, 0xf3, 0x3d, 0xf2, 0xd5, 0x97, 0x66, 0x81, 0x32, 0xa0, 0x00,
     0x06, 0xce, 0xf6, 0xea, 0xb7, 0x17, 0xf7, 0x8c, 0x79, 0xd6, 0xa7, 0xbf, 0x8b, 0x3f, 0x1f, 0x53,
     0x63, 0x75, 0x35, 0x2c, 0x60, 0xfd, 0x27, 0xd3, 0x94, 0xa5, 0x7c, 0xa1, 0x05, 0x58, 0x2d, 0xbd,
     0xd9, 0xc7, 0xaf, 0x6b, 0x54, 0x0b, 0xe0, 0x38, 0x04, 0xc8, 0x9d, 0xe7, 0x14, 0xb1, 0x87, 0x9c,
     0xdf, 0x6f, 0xf9, 0xda, 0x2a, 0xc4, 0x59, 0x16, 0x74, 0x91, 0xab, 0x26, 0x61, 0x76, 0x34, 0x2b,
     0xad, 0x99, 0xfb, 0x72, 0xec, 0x33, 0x12, 0xde, 0x98, 0x3b, 0xc0, 0x9b, 0x3e, 0x18, 0x10, 0x3a,
     0x56, 0xe1, 0x77, 0xc9, 0x1e, 0x9e, 0x95, 0xa3, 0x90, 0x19, 0xa8, 0x6c, 0x09, 0xd0, 0xf0, 0x86]"

definition S_box :: "byte list" where
  "S_box = [
     99, 124, 119, 123, 242, 107, 111, 197, 48, 1, 103, 43, 254, 215, 171, 118,
     202, 130, 201, 125, 250, 89, 71, 240, 173, 212, 162, 175, 156, 164, 114, 192,
     183, 253, 147, 38, 54, 63, 247, 204, 52, 165, 229, 241, 113, 216, 49, 21,
     4, 199, 35, 195, 24, 150, 5, 154, 7, 18, 128, 226, 235, 39, 178, 117,
     9, 131, 44, 26, 27, 110, 90, 160, 82, 59, 214, 179, 41, 227, 47, 132,
     83, 209, 0, 237, 32, 252, 177, 91, 106, 203, 190, 57, 74, 76, 88, 207,
     208, 239, 170, 251, 67, 77, 51, 133, 69, 249, 2, 127, 80, 60, 159, 168,
     81, 163, 64, 143, 146, 157, 56, 245, 188, 182, 218, 33, 16, 255, 243, 210,
     205, 12, 19, 236, 95, 151, 68, 23, 196, 167, 126, 61, 100, 93, 25, 115,
     96, 129, 79, 220, 34, 42, 144, 136, 70, 238, 184, 20, 222, 94, 11, 219,
     224, 50, 58, 10, 73, 6, 36, 92, 194, 211, 172, 98, 145, 149, 228, 121,
     231, 200, 55, 109, 141, 213, 78, 169, 108, 86, 244, 234, 101, 122, 174, 8,
     186, 120, 37, 46, 28, 166, 180, 198, 232, 221, 116, 31, 75, 189, 139, 138,
     112, 62, 181, 102, 72, 3, 246, 14, 97, 53, 87, 185, 134, 193, 29, 158,
     225, 248, 152, 17, 105, 217, 142, 148, 155, 30, 135, 233, 206, 85, 40, 223,
     140, 161, 137, 13, 191, 230, 66, 104, 65, 153, 45, 15, 176, 84, 187, 22]"

subsection \<open>Bytes\<close>

definition s3g_mul_x :: "byte \<Rightarrow> byte \<Rightarrow> byte" where
  "s3g_mul_x v c = (if v AND 0x80 \<noteq> 0 then push_bit 1 v XOR c else push_bit 1 v)"

primrec s3g_mul_x_pow :: "byte \<Rightarrow> nat \<Rightarrow> byte \<Rightarrow> byte" where
  "s3g_mul_x_pow v 0 c = v"
| "s3g_mul_x_pow v (Suc i) c = s3g_mul_x (s3g_mul_x_pow v i c) c"

definition s3g_bytes :: "byte \<Rightarrow> byte \<Rightarrow> byte \<Rightarrow> byte \<Rightarrow> u32" where
  "s3g_bytes r0 r1 r2 r3 = push_bit 24 (ucast r0) OR push_bit 16 (ucast r1) OR push_bit 8 (ucast r2) OR ucast r3"

definition s3g_mul_alpha :: "byte \<Rightarrow> u32" where
  "s3g_mul_alpha c = s3g_bytes (s3g_mul_x_pow c 23 0xa9) (s3g_mul_x_pow c 245 0xa9)
     (s3g_mul_x_pow c 48 0xa9) (s3g_mul_x_pow c 239 0xa9)"

definition s3g_div_alpha :: "byte \<Rightarrow> u32" where
  "s3g_div_alpha c = s3g_bytes (s3g_mul_x_pow c 16 0xa9) (s3g_mul_x_pow c 39 0xa9)
     (s3g_mul_x_pow c 6 0xa9) (s3g_mul_x_pow c 64 0xa9)"

definition s3g_mix :: "byte list \<Rightarrow> byte \<Rightarrow> u32 \<Rightarrow> u32" where
  "s3g_mix box c w =
     (let w0 = box ! unat (drop_bit 24 w AND 0xff);
          w1 = box ! unat (drop_bit 16 w AND 0xff);
          w2 = box ! unat (drop_bit 8 w AND 0xff);
          w3 = box ! unat (w AND 0xff);
          r0 = s3g_mul_x w0 c XOR w1 XOR w2 XOR (s3g_mul_x w3 c XOR w3);
          r1 = (s3g_mul_x w0 c XOR w0) XOR s3g_mul_x w1 c XOR w2 XOR w3;
          r2 = w0 XOR (s3g_mul_x w1 c XOR w1) XOR s3g_mul_x w2 c XOR w3;
          r3 = w0 XOR w1 XOR (s3g_mul_x w2 c XOR w2) XOR s3g_mul_x w3 c
      in s3g_bytes r0 r1 r2 r3)"

definition s3g_s1 :: "u32 \<Rightarrow> u32" where
  "s3g_s1 w = s3g_mix S_box 0x1b w"

definition s3g_s2 :: "u32 \<Rightarrow> u32" where
  "s3g_s2 w = s3g_mix SQ 0x69 w"

subsection \<open>Key stream\<close>

definition s3g_clock_lfsr :: "S3G_STATE \<Rightarrow> u32 \<Rightarrow> S3G_STATE" where
  "s3g_clock_lfsr state f =
     (let l = s3g_lfsr state;
          v = (push_bit 8 (l ! 0) AND 0xffffff00) XOR s3g_mul_alpha (ucast (drop_bit 24 (l ! 0) AND 0xff)) XOR l ! 2 XOR
              (drop_bit 8 (l ! 11) AND 0x00ffffff) XOR s3g_div_alpha (ucast (l ! 11 AND 0xff)) XOR f
      in state\<lparr>s3g_lfsr := tl l @ [v]\<rparr>)"

definition s3g_clock_fsm :: "S3G_STATE \<Rightarrow> u32 \<times> S3G_STATE" where
  "s3g_clock_fsm state =
     (let l = s3g_lfsr state; m = s3g_fsm state;
          f = (l ! 15 + m ! 0) XOR m ! 1;
          r = m ! 1 + (m ! 2 XOR l ! 5)
      in (f, state\<lparr>s3g_fsm := [r, s3g_s1 (m ! 0), s3g_s2 (m ! 1)]\<rparr>))"

primrec s3g_init_loop :: "nat \<Rightarrow> S3G_STATE \<Rightarrow> S3G_STATE" where
  "s3g_init_loop 0 state = state"
| "s3g_init_loop (Suc n) state = (let (f, state') = s3g_clock_fsm state in s3g_init_loop n (s3g_clock_lfsr state' f))"

definition s3g_load :: "u32 list \<Rightarrow> u32 list \<Rightarrow> S3G_STATE" where
  "s3g_load k iv =
     \<lparr>s3g_lfsr = [k ! 0 XOR 0xffffffff, k ! 1 XOR 0xffffffff, k ! 2 XOR 0xffffffff, k ! 3 XOR 0xffffffff,
        k ! 0, k ! 1, k ! 2, k ! 3,
        k ! 0 XOR 0xffffffff, k ! 1 XOR 0xffffffff XOR iv ! 3, k ! 2 XOR 0xffffffff XOR iv ! 2, k ! 3 XOR 0xffffffff,
        k ! 0 XOR iv ! 1, k ! 1, k ! 2, k ! 3 XOR iv ! 0],
      s3g_fsm = [0, 0, 0]\<rparr>"

definition s3g_initialize :: "u32 list \<Rightarrow> u32 list \<Rightarrow> S3G_STATE" where
  "s3g_initialize k iv = s3g_init_loop 32 (s3g_load k iv)"

primrec s3g_keystream_loop :: "nat \<Rightarrow> S3G_STATE \<Rightarrow> u32 list" where
  "s3g_keystream_loop 0 state = []"
| "s3g_keystream_loop (Suc n) state =
     (let (f, state') = s3g_clock_fsm state
      in (f XOR s3g_lfsr state' ! 0) # s3g_keystream_loop n (s3g_clock_lfsr state' 0))"

definition s3g_generate_keystream :: "S3G_STATE \<Rightarrow> nat \<Rightarrow> u32 list" where
  "s3g_generate_keystream state n = s3g_keystream_loop n (s3g_clock_lfsr (snd (s3g_clock_fsm state)) 0)"

subsection \<open>Integrity function\<close>

definition s3g_MUL64x :: "u64 \<Rightarrow> u64 \<Rightarrow> u64" where
  "s3g_MUL64x V c = (if V AND 0x8000000000000000 \<noteq> 0 then push_bit 1 V XOR c else push_bit 1 V)"

primrec s3g_MUL64xPOW :: "u64 \<Rightarrow> nat \<Rightarrow> u64 \<Rightarrow> u64" where
  "s3g_MUL64xPOW V 0 c = V"
| "s3g_MUL64xPOW V (Suc i) c = s3g_MUL64x (s3g_MUL64xPOW V i c) c"

definition s3g_MUL64 :: "u64 \<Rightarrow> u64 \<Rightarrow> u64 \<Rightarrow> u64" where
  "s3g_MUL64 V P c =
     fold (\<lambda>i result. if drop_bit i P AND 0x1 \<noteq> 0 then result XOR s3g_MUL64xPOW V i c else result) [0..<64] 0"

definition mask8bit :: "nat \<Rightarrow> byte" where
  "mask8bit n = 0xff XOR (push_bit (8 - n) 1 - 1)"

text \<open>Four bytes as a big-endian word.\<close>

definition s3g_key_word :: "byte list \<Rightarrow> nat \<Rightarrow> u32" where
  "s3g_key_word key i = push_bit 24 (ucast (key ! (4 * i))) XOR push_bit 16 (ucast (key ! (4 * i + 1))) XOR
     push_bit 8 (ucast (key ! (4 * i + 2))) XOR ucast (key ! (4 * i + 3))"

text \<open>Eight bytes as a big-endian word.\<close>

definition f9_block :: "byte list \<Rightarrow> nat \<Rightarrow> u64" where
  "f9_block bytes i = push_bit 56 (ucast (bytes ! (8 * i))) OR push_bit 48 (ucast (bytes ! (8 * i + 1))) OR
     push_bit 40 (ucast (bytes ! (8 * i + 2))) OR push_bit 32 (ucast (bytes ! (8 * i + 3))) OR
     push_bit 24 (ucast (bytes ! (8 * i + 4))) OR push_bit 16 (ucast (bytes ! (8 * i + 5))) OR
     push_bit 8 (ucast (bytes ! (8 * i + 6))) OR ucast (bytes ! (8 * i + 7))"

text \<open>The last, possibly incomplete block: the whole bytes and then the remaining bits.\<close>

function f9_last :: "byte list \<Rightarrow> nat \<Rightarrow> nat \<Rightarrow> nat \<Rightarrow> u64 \<Rightarrow> u64" where
  "f9_last bytes start i rem_bits M =
     (if rem_bits > 7
      then f9_last bytes start (i + 1) (rem_bits - 8) (M OR push_bit (8 * (7 - i)) (ucast (bytes ! (start + i))))
      else if rem_bits > 0
      then M OR push_bit (8 * (7 - i)) (ucast (bytes ! (start + i) AND mask8bit rem_bits))
      else M)"
  by auto
termination
  by (relation "measure (\<lambda>(bytes, start, i, rem_bits, M). rem_bits)") auto

declare f9_last.simps [simp del]

text \<open>The number of bits is at least one: for none the index of the last block wraps around and the loop
  reads far behind the message.\<close>

definition s3g_f9 :: "byte list \<Rightarrow> u32 \<Rightarrow> u32 \<Rightarrow> u32 \<Rightarrow> byte list \<Rightarrow> nat \<Rightarrow> byte list result" where
  "s3g_f9 key cnt fresh dir bytes n_bits =
     (if n_bits = 0 \<or> 8 * length bytes < n_bits then Inl Out_Of_Bounds
      else let K = map (\<lambda>i. s3g_key_word key (3 - i)) [0..<4];
               IV = [fresh XOR push_bit 15 dir, cnt XOR push_bit 31 dir, fresh, cnt];
               z = s3g_generate_keystream (s3g_initialize K IV) 5;
               P = push_bit 32 (ucast (z ! 0)) OR ucast (z ! 1) :: u64;
               Q = push_bit 32 (ucast (z ! 2)) OR ucast (z ! 3) :: u64;
               D = (if n_bits mod 64 = 0 then n_bits div 64 + 1 else n_bits div 64 + 2);
               c = 0x1b;
               EVAL = fold (\<lambda>i EVAL. s3g_MUL64 (EVAL XOR f9_block bytes i) P c) [0..<D - 2] 0;
               rem_bits = (if n_bits mod 64 = 0 then 64 else n_bits mod 64);
               M_D_2 = f9_last bytes (8 * (D - 2)) 0 rem_bits 0;
               EVAL = s3g_MUL64 (EVAL XOR M_D_2) P c;
               EVAL = s3g_MUL64 (EVAL XOR of_nat n_bits) Q c
           in Inr (map (\<lambda>i. ucast (drop_bit (56 - 8 * i) EVAL) XOR ucast (drop_bit (24 - 8 * i) (z ! 4))) [0..<4]))"

subsection \<open>The multiplication is bilinear\<close>

lemma s3g_MUL64x_xor: "s3g_MUL64x (V XOR W) c = s3g_MUL64x V c XOR s3g_MUL64x W c"
proof -
  have top: "U AND 0x8000000000000000 \<noteq> 0 \<longleftrightarrow> bit U 63" for U :: u64
    using and_exp_eq_0_iff_not_bit [of U 63] by simp
  show ?thesis
    by (simp add: s3g_MUL64x_def top bit_xor_iff push_bit_xor xor.assoc xor.commute xor.left_commute)
qed

lemma s3g_MUL64xPOW_xor: "s3g_MUL64xPOW (V XOR W) i c = s3g_MUL64xPOW V i c XOR s3g_MUL64xPOW W i c"
  by (induction i) (simp_all add: s3g_MUL64x_xor)

text \<open>The product as a sum over the bits of the second factor.\<close>

definition xor_sum :: "(nat \<Rightarrow> u64) \<Rightarrow> nat list \<Rightarrow> u64" where
  "xor_sum f is = foldr (\<lambda>i r. f i XOR r) is 0"

lemma xor_sum_xor: "xor_sum (\<lambda>i. f i XOR g i) is = xor_sum f is XOR xor_sum g is"
  by (induction "is") (simp_all add: xor_sum_def xor.assoc xor.left_commute)

lemma odd_bit: "drop_bit i P AND 0x1 \<noteq> 0 \<longleftrightarrow> bit P i" for P :: u64
  by (simp add: bit_iff_odd_drop_bit and_one_eq odd_iff_mod_2_eq_one)

lemma s3g_MUL64_sum: "s3g_MUL64 V P c = xor_sum (\<lambda>i. if bit P i then s3g_MUL64xPOW V i c else 0) [0..<64]"
proof -
  have "fold (\<lambda>i result. if drop_bit i P AND 0x1 \<noteq> 0 then result XOR s3g_MUL64xPOW V i c else result) is r =
      r XOR xor_sum (\<lambda>i. if bit P i then s3g_MUL64xPOW V i c else 0) is" for "is" r
    unfolding odd_bit by (induction "is" arbitrary: r) (simp_all add: xor_sum_def xor.assoc)
  then show ?thesis
    by (simp add: s3g_MUL64_def)
qed

lemma s3g_MUL64_xor_left: "s3g_MUL64 (V XOR W) P c = s3g_MUL64 V P c XOR s3g_MUL64 W P c"
  unfolding s3g_MUL64_sum xor_sum_xor [symmetric] s3g_MUL64xPOW_xor by (rule arg_cong [where f = "\<lambda>f. xor_sum f [0..<64]"]) auto

lemma s3g_MUL64_xor_right: "s3g_MUL64 V (P XOR Q) c = s3g_MUL64 V P c XOR s3g_MUL64 V Q c"
  unfolding s3g_MUL64_sum xor_sum_xor [symmetric] bit_xor_iff by (rule arg_cong [where f = "\<lambda>f. xor_sum f [0..<64]"]) auto

end
