(* ===== verification/Zuc.thy ===== *)
theory Zuc
  imports Prelude
begin

text \<open>
  The stream cipher ZUC, \<^verbatim>\<open>lib/security/zuc.cpp\<close>. The sixteen cells \<^verbatim>\<open>LFSR_S0\<close> to \<^verbatim>\<open>LFSR_S15\<close> of the shift register are
  a list. The cells are numbers modulo \<open>2\<^sup>3\<^sup>1 - 1\<close> in the range from 1 to \<open>2\<^sup>3\<^sup>1 - 1\<close>; the lemmas show that the code
  computes the linear recurrence of the specification in this representation and never leaves it.
\<close>

subsection \<open>State\<close>

record zuc_state_t =
  LFSR :: "u32 list"
  F_R1 :: u32
  F_R2 :: u32
  BRC_X0 :: u32
  BRC_X1 :: u32
  BRC_X2 :: u32
  BRC_X3 :: u32

definition MAKEU32 :: "byte \<Rightarrow> byte \<Rightarrow> byte \<Rightarrow> byte \<Rightarrow> u32" where
  "MAKEU32 a b c d = push_bit 24 (ucast a) OR push_bit 16 (ucast b) OR push_bit 8 (ucast c) OR ucast d"

definition MulByPow2 :: "u32 \<Rightarrow> nat \<Rightarrow> u32" where
  "MulByPow2 x k = (push_bit k x OR drop_bit (31 - k) x) AND 0x7fffffff"

definition MAKEU31 :: "byte \<Rightarrow> u32 \<Rightarrow> byte \<Rightarrow> u32" where
  "MAKEU31 a b c = push_bit 23 (ucast a) OR push_bit 8 b OR ucast c"

definition ROT :: "u32 \<Rightarrow> nat \<Rightarrow> u32" where
  "ROT a k = push_bit k a OR drop_bit (32 - k) a"

definition S0 :: "byte list" where
  "S0 = [
     0x3e, 0x72, 0x5b, 0x47, 0xca, 0xe0, 0x00, 0x33, 0x04, 0xd1, 0x54, 0x98, 0x09, 0xb9, 0x6d, 0xcb,
     0x7b, 0x1b, 0xf9, 0x32, 0xaf, 0x9d, 0x6a, 0xa5, 0xb8, 0x2d, 0xfc, 0x1d, 0x08, 0x53, 0x03, 0x90,
     0x4d, 0x4e, 0x84, 0x99, 0xe4, 0xce, 0xd9, 0x91, 0xdd, 0xb6, 0x85, 0x48, 0x8b, 0x29, 0x6e, 0xac,
     0xcd, 0xc1, 0xf8, 0x1e, 0x73, 0x43, 0x69, 0xc6, 0xb5, 0xbd, 0xfd, 0x39, 0x63, 0x20, 0xd4, 0x38,
     0x76, 0x7d, 0xb2, 0xa7, 0xcf, 0xed, 0x57, 0xc5, 0xf3, 0x2c, 0xbb, 0x14, 0x21, 0x06, 0x55, 0x9b,
     0xe3, 0xef, 0x5e, 0x31, 0x4f, 0x7f, 0x5a, 0xa4, 0x0d, 0x82, 0x51, 0x49, 0x5f, 0xba, 0x58, 0x1c,
     0x4a, 0x16, 0xd5, 0x17, 0xa8, 0x92, 0x24, 0x1f, 0x8c, 0xff, 0xd8, 0xae, 0x2e, 0x01, 0xd3, 0xad,
     0x3b, 0x4b, 0xda, 0x46, 0xeb, 0xc9, 0xde, 0x9a, 0x8f, 0x87, 0xd7, 0x3a, 0x80, 0x6f, 0x2f, 0xc8,
     0xb1, 0xb4, 0x37, 0xf7, 0x0a, 0x22, 0x13, 0x28, 0x7c, 0xcc, 0x3c, 0x89, 0xc7, 0xc3, 0x96, 0x56,
     0x07, 0xbf, 0x7e, 0xf0, 0x0b, 0x2b, 0x97, 0x52, 0x35, 0x41, 0x79, 0x61, 0xa6, 0x4c, 0x10, 0xfe,
     0xbc, 0x26, 0x95, 0x88, 0x8a, 0xb0, 0xa3, 0xfb, 0xc0, 0x18, 0x94, 0xf2, 0xe1, 0xe5, 0xe9, 0x5d,
     0xd0, 0xdc, 0x11, 0x66, 0x64, 0x5c, 0xec, 0x59, 0x42, 0x75, 0x12, 0xf5, 0x74, 0x9c, 0xaa, 0x23,
     0x0e, 0x86, 0xab, 0xbe, 0x2a, 0x02, 0xe7, 0x67, 0xe6, 0x44, 0xa2, 0x6c, 0xc2, 0x93, 0x9f, 0xf1,
     0xf6, 0xfa, 0x36, 0xd2, 0x50, 0x68, 0x9e, 0x62, 0x71, 0x15, 0x3d, 0xd6, 0x40, 0xc4, 0xe2, 0x0f,
     0x8e, 0x83, 0x77, 0x6b, 0x25, 0x05, 0x3f, 0x0c, 0x30, 0xea, 0x70, 0xb7, 0xa1, 0xe8, 0xa9, 0x65,
     0x8d, 0x27, 0x1a, 0xdb, 0x81, 0xb3, 0xa0, 0xf4, 0x45, 0x7a, 0x19, 0xdf, 0xee, 0x78, 0x34, 0x60]"

definition S1 :: "byte list" where
  "S1 = [
     0x55, 0xc2, 0x63, 0x71, 0x3b, 0xc8, 0x47, 0x86, 0x9f, 0x3c, 0xda, 0x5b, 0x29, 0xaa, 0xfd, 0x77,
     0x8c, 0xc5, 0x94, 0x0c, 0xa6, 0x1a, 0x13, 0x00, 0xe3, 0xa8, 0x16, 0x72, 0x40, 0xf9, 0xf8, 0x42,
     0x44, 0x26, 0x68, 0x96, 0x81, 0xd9, 0x45, 0x3e, 0x10, 0x76, 0xc6, 0xa7, 0x8b, 0x39, 0x43, 0xe1,
     0x3a, 0xb5, 0x56, 0x2a, 0xc0, 0x6d, 0xb3, 0x05, 0x22, 0x66, 0xbf, 0xdc, 0x0b, 0xfa, 0x62, 0x48,
     0xdd, 0x20, 0x11, 0x06, 0x36, 0xc9, 0xc1, 0xcf, 0xf6, 0x27, 0x52, 0xbb, 0x69, 0xf5, 0xd4, 0x87,
     0x7f, 0x84, 0x4c, 0xd2, 0x9c, 0x57, 0xa4, 0xbc, 0x4f, 0x9a, 0xdf, 0xfe, 0xd6, 0x8d, 0x7a, 0xeb,
     0x2b, 0x53, 0xd8, 0x5c, 0xa1, 0x14, 0x17, 0xfb, 0x23, 0xd5, 0x7d, 0x30, 0x67, 0x73, 0x08, 0x09,
     0xee, 0xb7, 0x70, 0x3f, 0x61, 0xb2, 0x19, 0x8e, 0x4e, 0xe5, 0x4b, 0x93, 0x8f, 0x5d, 0xdb, 0xa9,
     0xad, 0xf1, 0xae, 0x2e, 0xcb, 0x0d, 0xfc, 0xf4, 0x2d, 0x46, 0x6e, 0x1d, 0x97, 0xe8, 0xd1, 0xe9,
     0x4d, 0x37, 0xa5, 0x75, 0x5e, 0x83, 0x9e, 0xab, 0x82, 0x9d, 0xb9, 0x1c, 0xe0, 0xcd, 0x49, 0x89,
     0x01, 0xb6, 0xbd, 0x58, 0x24, 0xa2, 0x5f, 0x38, 0x78, 0x99, 0x15, 0x90, 0x50, 0xb8, 0x95, 0xe4,
     0xd0, 0x91, 0xc7, 0xce, 0xed, 0x0f, 0xb4, 0x6f, 0xa0, 0xcc, 0xf0, 0x02, 0x4a, 0x79, 0xc3, 0xde,
     0xa3, 0xef, 0xea, 0x51, 0xe6, 0x6b, 0x18, 0xec, 0x1b, 0x2c, 0x80, 0xf7, 0x74, 0xe7, 0xff, 0x21,
     0x5a, 0x6a, 0x54, 0x1e, 0x41, 0x31, 0x92, 0x35, 0xc4, 0x33, 0x07, 0x0a, 0xba, 0x7e, 0x0e, 0x34,
     0x88, 0xb1, 0x98, 0x7c, 0xf3, 0x3d, 0x60, 0x6c, 0x7b, 0xca, 0xd3, 0x1f, 0x32, 0x65, 0x04, 0x28,
     0x64, 0xbe, 0x85, 0x9b, 0x2f, 0x59, 0x8a, 0xd7, 0xb0, 0x25, 0xac, 0xaf, 0x12, 0x03, 0xe2, 0xf2]"

definition EK_d :: "u32 list" where
  "EK_d = [
     0x44d7, 0x26bc, 0x626b, 0x135e, 0x5789, 0x35e2, 0x7135, 0x09af,
     0x4d78, 0x2f13, 0x6bc4, 0x1af1, 0x5e26, 0x3c4d, 0x789a, 0x47ac]"

subsection \<open>Operations\<close>

definition AddM :: "u32 \<Rightarrow> u32 \<Rightarrow> u32" where
  "AddM a b = (let c = a + b in (c AND 0x7fffffff) + drop_bit 31 c)"

definition lfsr_feedback :: "u32 list \<Rightarrow> u32" where
  "lfsr_feedback s =
     (let f = s ! 0;
          f = AddM f (MulByPow2 (s ! 0) 8);
          f = AddM f (MulByPow2 (s ! 4) 20);
          f = AddM f (MulByPow2 (s ! 10) 21);
          f = AddM f (MulByPow2 (s ! 13) 17)
      in AddM f (MulByPow2 (s ! 15) 15))"

definition LFSRWithInitialisationMode :: "zuc_state_t \<Rightarrow> u32 \<Rightarrow> zuc_state_t" where
  "LFSRWithInitialisationMode state u =
     state\<lparr>LFSR := tl (LFSR state) @ [AddM (lfsr_feedback (LFSR state)) u]\<rparr>"

definition LFSRWithWorkMode :: "zuc_state_t \<Rightarrow> zuc_state_t" where
  "LFSRWithWorkMode state = state\<lparr>LFSR := tl (LFSR state) @ [lfsr_feedback (LFSR state)]\<rparr>"

definition BitReorganization :: "zuc_state_t \<Rightarrow> zuc_state_t" where
  "BitReorganization state =
     (let s = LFSR state
      in state\<lparr>BRC_X0 := push_bit 1 (s ! 15 AND 0x7fff8000) OR (s ! 14 AND 0xffff),
               BRC_X1 := push_bit 16 (s ! 11 AND 0xffff) OR drop_bit 15 (s ! 9),
               BRC_X2 := push_bit 16 (s ! 7 AND 0xffff) OR drop_bit 15 (s ! 5),
               BRC_X3 := push_bit 16 (s ! 2 AND 0xffff) OR drop_bit 15 (s ! 0)\<rparr>)"

definition zuc_L1 :: "u32 \<Rightarrow> u32" where
  "zuc_L1 X = X XOR ROT X 2 XOR ROT X 10 XOR ROT X 18 XOR ROT X 24"

definition zuc_L2 :: "u32 \<Rightarrow> u32" where
  "zuc_L2 X = X XOR ROT X 8 XOR ROT X 14 XOR ROT X 22 XOR ROT X 30"

definition zuc_sbox :: "u32 \<Rightarrow> u32" where
  "zuc_sbox u = MAKEU32 (S0 ! unat (drop_bit 24 u)) (S1 ! unat (drop_bit 16 u AND 0xff))
     (S0 ! unat (drop_bit 8 u AND 0xff)) (S1 ! unat (u AND 0xff))"

definition zuc_F :: "zuc_state_t \<Rightarrow> u32 \<times> zuc_state_t" where
  "zuc_F state =
     (let W = (BRC_X0 state XOR F_R1 state) + F_R2 state;
          W1 = F_R1 state + BRC_X1 state;
          W2 = F_R2 state XOR BRC_X2 state;
          u = zuc_L1 (push_bit 16 W1 OR drop_bit 16 W2);
          v = zuc_L2 (push_bit 16 W2 OR drop_bit 16 W1)
      in (W, state\<lparr>F_R1 := zuc_sbox u, F_R2 := zuc_sbox v\<rparr>))"

primrec zuc_init_loop :: "nat \<Rightarrow> zuc_state_t \<Rightarrow> zuc_state_t" where
  "zuc_init_loop 0 state = state"
| "zuc_init_loop (Suc nCount) state =
     (let (w, state') = zuc_F (BitReorganization state)
      in zuc_init_loop nCount (LFSRWithInitialisationMode state' (drop_bit 1 w)))"

text \<open>What the state holds before \<open>k\<close> and \<open>iv\<close> are loaded is not initialised in the code; it is overwritten before it is read.\<close>

definition zuc_load :: "byte list \<Rightarrow> byte list \<Rightarrow> zuc_state_t" where
  "zuc_load k iv = \<lparr>LFSR = map (\<lambda>i. MAKEU31 (k ! i) (EK_d ! i) (iv ! i)) [0..<16], F_R1 = 0, F_R2 = 0,
     BRC_X0 = 0, BRC_X1 = 0, BRC_X2 = 0, BRC_X3 = 0\<rparr>"

definition zuc_initialize :: "byte list \<Rightarrow> byte list \<Rightarrow> zuc_state_t" where
  "zuc_initialize k iv = zuc_init_loop 32 (zuc_load k iv)"

primrec zuc_keystream_loop :: "nat \<Rightarrow> zuc_state_t \<Rightarrow> u32 list \<times> zuc_state_t" where
  "zuc_keystream_loop 0 state = ([], state)"
| "zuc_keystream_loop (Suc n) state =
     (let (w, state') = zuc_F (BitReorganization state);
          (ks, state'') = zuc_keystream_loop n (LFSRWithWorkMode state')
      in ((w XOR BRC_X3 state') # ks, state''))"

definition zuc_generate_keystream :: "zuc_state_t \<Rightarrow> nat \<Rightarrow> u32 list \<times> zuc_state_t" where
  "zuc_generate_keystream state key_stream_len =
     zuc_keystream_loop key_stream_len (LFSRWithWorkMode (snd (zuc_F (BitReorganization state))))"

subsection \<open>Arithmetic modulo 2^31 - 1\<close>

definition zuc_cell :: "u32 \<Rightarrow> bool" where
  "zuc_cell x \<longleftrightarrow> 0 < uint x \<and> uint x \<le> 2147483647"

lemma uint_low31: "uint (c AND 0x7fffffff) = uint c mod 2147483648" for c :: u32
proof -
  have "c AND 0x7fffffff = take_bit 31 c"
    by (simp add: take_bit_eq_mask mask_eq_exp_minus_1)
  then show ?thesis
    using uint_take_bit [of 31 c] by simp
qed

lemma uint_AddM:
  assumes "uint a \<le> 2147483647" "uint b \<le> 2147483647"
  shows "uint (AddM a b) = (if uint a + uint b \<le> 2147483647 then uint a + uint b else uint a + uint b - 2147483647)"
proof -
  have c: "uint (a + b) = uint a + uint b"
    using assms by (simp add: uint_word_ariths)
  have "uint (drop_bit 31 (a + b)) = (uint a + uint b) div 2147483648"
    using c uint_drop_bit [of 31 "a + b"] by simp
  then have "uint (AddM a b) = ((uint a + uint b) mod 2147483648 + (uint a + uint b) div 2147483648) mod 4294967296"
    using c by (simp add: AddM_def Let_def uint_word_ariths uint_low31)
  moreover have "(A mod 2147483648 + A div 2147483648) mod 4294967296 = (if A \<le> 2147483647 then A else A - 2147483647)"
    if "0 \<le> A" "A \<le> 4294967294" for A :: int
  proof (cases "A \<le> 2147483647")
    case True
    then show ?thesis
      using that by simp
  next
    case False
    then have "A div 2147483648 = 1"
      using that div_pos_geq [of 2147483648 A] by simp
    moreover from this have "A mod 2147483648 = A - 2147483648"
      using minus_div_mult_eq_mod [of A 2147483648] by simp
    ultimately show ?thesis
      using that False by simp
  qed
  ultimately show ?thesis
    using assms by simp
qed

lemma AddM_cell:
  assumes "zuc_cell a" "uint b \<le> 2147483647"
  shows "zuc_cell (AddM a b)" "uint (AddM a b) mod 2147483647 = (uint a + uint b) mod 2147483647"
proof -
  have pos: "0 < uint a + uint b"
    using assms(1) uint_ge_0 [of b] unfolding zuc_cell_def by linarith
  show "zuc_cell (AddM a b)"
    using assms uint_AddM [of a b] pos unfolding zuc_cell_def by (cases "uint a + uint b \<le> 2147483647") simp_all
  have "(x - 2147483647) mod 2147483647 = x mod 2147483647" for x :: int
    by simp
  then show "uint (AddM a b) mod 2147483647 = (uint a + uint b) mod 2147483647"
    using assms uint_AddM [of a b] by (simp add: zuc_cell_def)
qed

lemma uint_MulByPow2:
  assumes "uint x \<le> 2147483647" "k \<le> 31"
  shows "uint (MulByPow2 x k) = uint x * 2 ^ k mod 2147483648 + uint x * 2 ^ k div 2147483648"
proof -
  let ?a = "take_bit 31 (push_bit k x)" and ?b = "drop_bit (31 - k) x"
  have "int (unat x) < int (2 ^ 31)"
    using assms(1) by simp
  then have "unat x < 2 ^ 31"
    by (simp only: of_nat_less_iff)
  then have x: "bit x i \<Longrightarrow> i < 31" for i
    by (rule bit_small)
  have m: "(0x7fffffff :: u32) = mask 31"
    by (simp add: mask_eq_exp_minus_1)
  have eq: "MulByPow2 x k = ?a OR ?b"
    unfolding MulByPow2_def m by (rule bit_word_eqI) (use assms(2) in \<open>auto simp: bit_simps dest: x\<close>)
  have "?a AND ?b = 0"
    by (rule bit_word_eqI) (use x assms(2) in \<open>force simp: bit_simps\<close>)
  then have sum: "?a OR ?b = ?a + ?b"
    by (simp add: disjunctive_add_eq_or)
  have a: "uint ?a = uint x * 2 ^ k mod 2147483648"
    using uint_take_bit [of 31 "push_bit k x"] unfolding unsigned_push_bit_eq
    by (simp add: push_bit_eq_mult [of k "uint x"] take_bit_eq_mod [of 32 "uint x * 2 ^ k"] mod_mod_cancel)
  have "uint ?b = uint x div 2 ^ (31 - k)"
    by (rule uint_drop_bit)
  also have "\<dots> = uint x * 2 ^ k div (2 ^ (31 - k) * 2 ^ k)"
    by simp
  also have "(2 :: int) ^ (31 - k) * 2 ^ k = 2147483648"
    using assms(2) by (simp flip: power_add)
  finally have b: "uint ?b = uint x * 2 ^ k div 2147483648" .
  have "uint ?b < 2147483648"
    using assms(1) \<open>uint ?b = uint x div 2 ^ (31 - k)\<close> zdiv_mono2 [of "uint x" 1 "2 ^ (31 - k)"] by simp
  moreover have "uint ?a < 2147483648"
    using a by simp
  ultimately have "0 \<le> uint ?a + uint ?b" "uint ?a + uint ?b < 4294967296"
    using uint_ge_0 [of ?a] uint_ge_0 [of ?b] by linarith+
  then have "uint (?a + ?b) = uint ?a + uint ?b"
    using mod_pos_pos_trivial [of "uint ?a + uint ?b" 4294967296] by (simp only: uint_word_ariths) simp
  then show ?thesis
    unfolding eq sum using a b by simp
qed

lemma MulByPow2_cell:
  assumes "zuc_cell x" "k \<le> 31"
  shows "zuc_cell (MulByPow2 x k)" "uint (MulByPow2 x k) mod 2147483647 = 2 ^ k * uint x mod 2147483647"
proof -
  let ?y = "uint x * 2 ^ k"
  have eq: "uint (MulByPow2 x k) = ?y mod 2147483648 + ?y div 2147483648"
    using assms by (intro uint_MulByPow2) (simp_all add: zuc_cell_def)
  have y: "?y = ?y div 2147483648 * 2147483648 + ?y mod 2147483648"
    by simp
  have "0 < ?y"
    using assms(1) by (simp add: zuc_cell_def)
  then have "uint (MulByPow2 x k) \<noteq> 0"
    using eq y by (smt (verit) pos_imp_zdiv_nonneg_iff pos_mod_sign)
  moreover have "uint (MulByPow2 x k) \<le> 2147483647"
    unfolding MulByPow2_def uint_low31 using pos_mod_bound [of 2147483648] by (simp add: zle_diff1_eq [symmetric])
  ultimately show "zuc_cell (MulByPow2 x k)"
    by (simp add: zuc_cell_def less_le)
  have "2 ^ k * uint x = uint (MulByPow2 x k) + ?y div 2147483648 * 2147483647"
    using eq y by (simp add: mult.commute)
  then show "uint (MulByPow2 x k) mod 2147483647 = 2 ^ k * uint x mod 2147483647"
    by (metis mod_mult_self1)
qed

subsection \<open>The shift register\<close>

definition zuc_cells :: "u32 list \<Rightarrow> bool" where
  "zuc_cells s \<longleftrightarrow> length s = 16 \<and> (\<forall>x\<in>set s. zuc_cell x)"

lemma AddM_Mul:
  assumes "zuc_cell f" "zuc_cell x" "k \<le> 31" "uint f mod 2147483647 = y mod 2147483647"
  shows "zuc_cell (AddM f (MulByPow2 x k))"
    "uint (AddM f (MulByPow2 x k)) mod 2147483647 = (y + 2 ^ k * uint x) mod 2147483647"
proof -
  have m: "uint (MulByPow2 x k) \<le> 2147483647"
    using MulByPow2_cell(1) [OF assms(2,3)] by (simp add: zuc_cell_def)
  show "zuc_cell (AddM f (MulByPow2 x k))"
    using assms(1) m by (rule AddM_cell)
  show "uint (AddM f (MulByPow2 x k)) mod 2147483647 = (y + 2 ^ k * uint x) mod 2147483647"
    using AddM_cell(2) [OF assms(1) m] mod_add_cong [OF assms(4) MulByPow2_cell(2) [OF assms(2,3)]] by (rule trans)
qed

lemma lfsr_feedback_cell:
  assumes "zuc_cells s"
  shows "zuc_cell (lfsr_feedback s)" "uint (lfsr_feedback s) mod 2147483647 =
    (2 ^ 15 * uint (s ! 15) + 2 ^ 17 * uint (s ! 13) + 2 ^ 21 * uint (s ! 10) + 2 ^ 20 * uint (s ! 4) + (1 + 2 ^ 8) * uint (s ! 0)) mod 2147483647"
proof -
  have c: "zuc_cell (s ! i)" if "i < 16" for i
    using assms that by (simp add: zuc_cells_def)
  note f1 = AddM_Mul [OF c c _ refl, of 0 0 8, simplified]
  note f2 = AddM_Mul [OF f1(1) c _ f1(2), of 4 20, simplified]
  note f3 = AddM_Mul [OF f2(1) c _ f2(2), of 10 21, simplified]
  note f4 = AddM_Mul [OF f3(1) c _ f3(2), of 13 17, simplified]
  note f5 = AddM_Mul [OF f4(1) c _ f4(2), of 15 15, simplified]
  show "zuc_cell (lfsr_feedback s)"
    using f5(1) by (simp add: lfsr_feedback_def Let_def)
  show "uint (lfsr_feedback s) mod 2147483647 =
    (2 ^ 15 * uint (s ! 15) + 2 ^ 17 * uint (s ! 13) + 2 ^ 21 * uint (s ! 10) + 2 ^ 20 * uint (s ! 4) + (1 + 2 ^ 8) * uint (s ! 0)) mod 2147483647"
    using f5(2) by (simp add: lfsr_feedback_def Let_def algebra_simps)
qed

lemma zuc_cells_shift: "zuc_cells s \<Longrightarrow> zuc_cell x \<Longrightarrow> zuc_cells (tl s @ [x])"
  by (cases s) (auto simp: zuc_cells_def)

lemma uint_half: "uint (drop_bit 1 w) \<le> 2147483647" for w :: u32
  using uint_drop_bit [of 1 w] uint_lt2p [of w] by simp

lemma init_mode_cells: "zuc_cells (LFSR st) \<Longrightarrow> zuc_cells (LFSR (LFSRWithInitialisationMode st (drop_bit 1 w)))"
  using zuc_cells_shift AddM_cell(1) [OF lfsr_feedback_cell(1) uint_half] by (simp add: LFSRWithInitialisationMode_def)

lemma work_mode_cells: "zuc_cells (LFSR st) \<Longrightarrow> zuc_cells (LFSR (LFSRWithWorkMode st))"
  using zuc_cells_shift lfsr_feedback_cell(1) by (simp add: LFSRWithWorkMode_def)

lemma zuc_F_cells [simp]: "LFSR (snd (zuc_F (BitReorganization st))) = LFSR st"
  by (simp add: zuc_F_def BitReorganization_def Let_def)

lemma zuc_init_loop_cells: "zuc_cells (LFSR st) \<Longrightarrow> zuc_cells (LFSR (zuc_init_loop n st))"
proof (induction n arbitrary: st)
  case (Suc n)
  then show ?case
    using Suc.IH [OF init_mode_cells, of "snd (zuc_F (BitReorganization st))" "fst (zuc_F (BitReorganization st))"]
    by (simp add: Let_def split_beta)
qed simp

lemma zuc_keystream_loop_cells:
  "zuc_cells (LFSR st) \<Longrightarrow> length (fst (zuc_keystream_loop n st)) = n \<and> zuc_cells (LFSR (snd (zuc_keystream_loop n st)))"
proof (induction n arbitrary: st)
  case (Suc n)
  have "zuc_cells (LFSR (LFSRWithWorkMode (snd (zuc_F (BitReorganization st)))))"
    using work_mode_cells [of "snd (zuc_F (BitReorganization st))"] Suc.prems by simp
  from Suc.IH [OF this] show ?case
    by (simp add: Let_def split_beta)
qed simp

lemma MAKEU31_cell:
  assumes "d \<noteq> 0" "unat d < 2 ^ 15"
  shows "zuc_cell (MAKEU31 a d b)"
proof -
  let ?x = "MAKEU31 a d b"
  have d: "bit d i \<Longrightarrow> i < 15" for i
    using assms(2) by (rule bit_small)
  have "?x = take_bit 31 ?x"
    unfolding MAKEU31_def
    by (rule bit_word_eqI) (auto simp: bit_simps dest: d bit_imp_le_length)
  then have "uint ?x < 2147483648"
    using uint_take_bit [of 31 ?x] by simp
  moreover have "uint ?x \<noteq> 0"
  proof
    assume "uint ?x = 0"
    then have "?x = 0"
      by (simp only: uint_0_iff)
    then have "\<not> bit ?x (i + 8)" for i
      by simp
    then have "\<not> bit d i" for i
      using d [of i] unfolding MAKEU31_def by (auto simp: bit_simps)
    then show False
      using assms(1) by (metis bit_eqI bit_0_eq bot_apply bot_bool_def)
  qed
  ultimately show ?thesis
    by (simp add: zuc_cell_def less_le)
qed

lemma EK_d_small: "i < 16 \<Longrightarrow> EK_d ! i \<noteq> 0 \<and> unat (EK_d ! i) < 2 ^ 15"
proof -
  have "\<forall>d\<in>set EK_d. d \<noteq> 0 \<and> unat d < 2 ^ 15" "length EK_d = 16"
    by (simp_all add: EK_d_def)
  then show "i < 16 \<Longrightarrow> EK_d ! i \<noteq> 0 \<and> unat (EK_d ! i) < 2 ^ 15"
    by simp
qed

lemma zuc_load_cells: "zuc_cells (LFSR (zuc_load k iv))"
  using MAKEU31_cell EK_d_small by (auto simp: zuc_load_def zuc_cells_def)

subsection \<open>Properties\<close>

text \<open>C17. The shift register computes the linear recurrence of the specification in the field of \<open>2^31 - 1\<close> elements: the new
  cell is the sum of the weighted old ones, and it is in the range the specification uses for representatives, so that
  the case of a zero that the specification corrects cannot occur. In initialisation mode the input is added.\<close>

theorem zuc_recurrence:
  assumes "zuc_cells (LFSR st)"
  defines "feedback \<equiv> 2 ^ 15 * uint (LFSR st ! 15) + 2 ^ 17 * uint (LFSR st ! 13) + 2 ^ 21 * uint (LFSR st ! 10) +
    2 ^ 20 * uint (LFSR st ! 4) + (1 + 2 ^ 8) * uint (LFSR st ! 0)"
  shows "zuc_cells (LFSR (LFSRWithWorkMode st)) \<and> butlast (LFSR (LFSRWithWorkMode st)) = tl (LFSR st) \<and>
    uint (LFSR (LFSRWithWorkMode st) ! 15) mod (2 ^ 31 - 1) = feedback mod (2 ^ 31 - 1) \<and>
    zuc_cells (LFSR (LFSRWithInitialisationMode st (drop_bit 1 w))) \<and>
    uint (LFSR (LFSRWithInitialisationMode st (drop_bit 1 w)) ! 15) mod (2 ^ 31 - 1) = (feedback + uint w div 2) mod (2 ^ 31 - 1)"
proof -
  have len: "length (tl (LFSR st)) = 15"
    using assms(1) by (simp add: zuc_cells_def)
  note f = lfsr_feedback_cell [OF assms(1)]
  have "uint (AddM (lfsr_feedback (LFSR st)) (drop_bit 1 w)) mod 2147483647 = (feedback + uint w div 2) mod 2147483647"
    using AddM_cell(2) [OF f(1) uint_half [of w]] mod_add_cong [OF f(2) refl, of "uint w div 2"] uint_drop_bit [of 1 w]
    unfolding feedback_def by simp
  then show ?thesis
    using f(2) len work_mode_cells [OF assms(1)] init_mode_cells [OF assms(1), of w] unfolding feedback_def
    by (simp add: LFSRWithWorkMode_def LFSRWithInitialisationMode_def nth_append)
qed

theorem zuc_recurrence_witness:
  "zuc_cells (LFSR (zuc_load (replicate 16 0) (replicate 16 0))) \<and>
   zuc_cells (LFSR (LFSRWithWorkMode (zuc_load (replicate 16 0) (replicate 16 0))))"
  using zuc_recurrence [OF zuc_load_cells] zuc_load_cells by simp

text \<open>C18. For every key and initial vector the cells stay in the field through the initialisation and however much of the
  key stream is generated, and the key stream has the length asked for.\<close>

theorem zuc_stays_in_field:
  "zuc_cells (LFSR (zuc_initialize k iv)) \<and> length (fst (zuc_generate_keystream (zuc_initialize k iv) n)) = n \<and>
   zuc_cells (LFSR (snd (zuc_generate_keystream (zuc_initialize k iv) n)))"
proof -
  have init: "zuc_cells (LFSR (zuc_initialize k iv))"
    unfolding zuc_initialize_def by (rule zuc_init_loop_cells [OF zuc_load_cells])
  then have "zuc_cells (LFSR (LFSRWithWorkMode (snd (zuc_F (BitReorganization (zuc_initialize k iv))))))"
    using work_mode_cells [of "snd (zuc_F (BitReorganization (zuc_initialize k iv)))"] by simp
  from zuc_keystream_loop_cells [OF this, of n] init show ?thesis
    by (simp add: zuc_generate_keystream_def)
qed

end
