(* ===== verification/Sec_Algos.thy ===== *)
theory Sec_Algos
  imports Sec_Types Snow3g Zuc
begin

text \<open>
  The ciphering and integrity algorithms NEA1, NEA2, NEA3 and NIA1, NIA2, NIA3 of \<^verbatim>\<open>include/srsran/security/ciphering.h\<close>
  and \<^verbatim>\<open>integrity.h\<close>. AES is a library and comes as two parameters: the counter mode over a message, which may report an error, and the
  encryption of a block. Lengths are natural numbers; the code holds them in 32 bits, which is enough for messages
  below 512 MiB. A message code that is not computed stays zero.
\<close>

subsection \<open>Ciphering\<close>

definition zero_tailing_bits :: "byte \<Rightarrow> nat \<Rightarrow> byte" where
  "zero_tailing_bits tail_byte length_bits = tail_byte AND push_bit ((8 - length_bits mod 8) mod 8) 0xff"

text \<open>The output except the last block, then the bytes of the last block.\<close>

definition xor_word :: "nat \<Rightarrow> u32 \<Rightarrow> byte list \<Rightarrow> byte list" where
  "xor_word offset k msg =
     msg[offset := msg ! offset XOR ucast (drop_bit 24 k AND 0xff),
         offset + 1 := msg ! (offset + 1) XOR ucast (drop_bit 16 k AND 0xff),
         offset + 2 := msg ! (offset + 2) XOR ucast (drop_bit 8 k AND 0xff),
         offset + 3 := msg ! (offset + 3) XOR ucast (k AND 0xff)]"

definition xor_tail :: "u32 list \<Rightarrow> nat \<Rightarrow> byte list \<Rightarrow> byte list" where
  "xor_tail ks i msg = msg[i := msg ! i XOR ucast (drop_bit ((3 - i mod 4) * 8) (ks ! (i div 4)) AND 0xff)]"

definition apply_keystream :: "u32 list \<Rightarrow> nat \<Rightarrow> nat \<Rightarrow> byte list \<Rightarrow> byte list" where
  "apply_keystream ks msg_len_block_32 msg_len_block_8 msg =
     fold (xor_tail ks) [(msg_len_block_32 - 1) * 4..<msg_len_block_8]
       (fold (\<lambda>i. xor_word (4 * i) (ks ! i)) [0..<msg_len_block_32 - 1] msg)"

definition nea1_key_word :: "byte list \<Rightarrow> nat \<Rightarrow> u32" where
  "nea1_key_word key i = push_bit 24 (ucast (key ! (4 * (3 - i)))) OR push_bit 16 (ucast (key ! (4 * (3 - i) + 1))) OR
     push_bit 8 (ucast (key ! (4 * (3 - i) + 2))) OR ucast (key ! (4 * (3 - i) + 3))"

definition nea1_keystream :: "sec_128_key \<Rightarrow> u32 \<Rightarrow> byte \<Rightarrow> security_direction \<Rightarrow> nat \<Rightarrow> u32 list" where
  "nea1_keystream key cnt bearer dir n =
     (let k = map (nea1_key_word key) [0..<4];
          iv2 = push_bit 27 (ucast (bearer AND 0x1f)) OR push_bit 26 (ucast (security_direction_number dir AND 0x01))
      in s3g_generate_keystream (s3g_initialize k [iv2, cnt, iv2, cnt]) n)"

text \<open>For no bits at all the index of the last block wraps around: the message is written before and the key stream read
  outside of its bounds.\<close>

definition security_nea1 :: "sec_128_key \<Rightarrow> u32 \<Rightarrow> byte \<Rightarrow> security_direction \<Rightarrow> byte list \<Rightarrow> nat \<Rightarrow> byte list result" where
  "security_nea1 key cnt bearer dir msg msg_len =
     (let msg_len_block_8 = (msg_len + 7) div 8; msg_len_block_32 = (msg_len + 31) div 32
      in if msg_len_block_8 \<le> length msg
         then if msg_len = 0 then Inl Out_Of_Bounds
              else let ks = nea1_keystream key cnt bearer dir msg_len_block_32;
                       msg1 = apply_keystream ks msg_len_block_32 msg_len_block_8 msg
                   in Inr (msg1[msg_len_block_8 - 1 := zero_tailing_bits (msg1 ! (msg_len_block_8 - 1)) msg_len])
         else Inr msg)"

definition sec_preamble :: "u32 \<Rightarrow> byte list" where
  "sec_preamble cnt = [ucast (drop_bit 24 cnt AND 0xff), ucast (drop_bit 16 cnt AND 0xff), ucast (drop_bit 8 cnt AND 0xff), ucast (cnt AND 0xff)]"

definition nea_bearer_byte :: "byte \<Rightarrow> security_direction \<Rightarrow> byte" where
  "nea_bearer_byte bearer dir = push_bit 3 (bearer AND 0x1f) OR push_bit 2 (security_direction_number dir AND 0x01)"

text \<open>Setting the key and the counter mode may both report an error.\<close>

type_synonym aes_ctr = "sec_128_key \<Rightarrow> (byte list \<Rightarrow> byte list \<Rightarrow> byte list option) option"

definition nea2_nonce :: "u32 \<Rightarrow> byte \<Rightarrow> security_direction \<Rightarrow> byte list" where
  "nea2_nonce cnt bearer dir = sec_preamble cnt @ [nea_bearer_byte bearer dir] @ replicate 11 0"

definition security_nea2 ::
  "aes_ctr \<Rightarrow> sec_128_key \<Rightarrow> u32 \<Rightarrow> byte \<Rightarrow> security_direction \<Rightarrow> byte list \<Rightarrow> nat \<Rightarrow> byte list result" where
  "security_nea2 aes key cnt bearer dir msg msg_len =
     (case aes key of
        None \<Rightarrow> Inr msg
      | Some aes_crypt_ctr \<Rightarrow>
          (case (if (msg_len + 7) div 8 \<le> length msg then aes_crypt_ctr (nea2_nonce cnt bearer dir) msg else Some msg) of
             None \<Rightarrow> Inr msg
           | Some msg1 \<Rightarrow>
               if msg1 = [] then Inl Out_Of_Bounds
               else Inr (msg1[length msg1 - 1 := zero_tailing_bits (msg1 ! (length msg1 - 1)) msg_len])))"

definition nea3_iv :: "u32 \<Rightarrow> byte \<Rightarrow> security_direction \<Rightarrow> byte list" where
  "nea3_iv cnt bearer dir =
     (let half = sec_preamble cnt @ [nea_bearer_byte bearer dir, 0, 0, 0] in half @ half)"

definition security_nea3 :: "sec_128_key \<Rightarrow> u32 \<Rightarrow> byte \<Rightarrow> security_direction \<Rightarrow> byte list \<Rightarrow> nat \<Rightarrow> byte list result" where
  "security_nea3 key cnt bearer dir msg msg_len =
     (let msg_len_block_8 = (msg_len + 7) div 8; msg_len_block_32 = (msg_len + 31) div 32
      in if msg_len_block_8 \<le> length msg
         then if msg_len = 0 then Inl Out_Of_Bounds
              else let ks = fst (zuc_generate_keystream (zuc_initialize key (nea3_iv cnt bearer dir)) msg_len_block_32);
                       msg1 = apply_keystream ks msg_len_block_32 msg_len_block_8 msg
                   in Inr (msg1[length msg1 - 1 := zero_tailing_bits (msg1 ! (length msg1 - 1)) msg_len])
         else Inr msg)"

subsection \<open>Integrity\<close>

definition no_mac :: "byte list" where
  "no_mac = [0, 0, 0, 0]"

definition security_nia1 :: "sec_128_key \<Rightarrow> u32 \<Rightarrow> byte \<Rightarrow> security_direction \<Rightarrow> byte list \<Rightarrow> nat \<Rightarrow> byte list result" where
  "security_nia1 key cnt bearer dir msg msg_len =
     (if (msg_len + 7) div 8 \<le> length msg
      then s3g_f9 key cnt (push_bit 27 (ucast bearer)) (ucast (security_direction_number dir)) msg msg_len
      else Inr no_mac)"

type_synonym aes_ecb = "sec_128_key \<Rightarrow> byte list \<Rightarrow> byte list"

definition nia2_subkey :: "byte list \<Rightarrow> byte list" where
  "nia2_subkey l =
     (let k = map (\<lambda>i. push_bit 1 (l ! i) OR (drop_bit 7 (l ! (i + 1)) AND 0x01)) [0..<15]; k15 = push_bit 1 (l ! 15)
      in k @ [if l ! 0 AND 0x80 \<noteq> 0 then k15 XOR 0x87 else k15])"

definition nia2_bearer_byte :: "byte \<Rightarrow> security_direction \<Rightarrow> byte" where
  "nia2_bearer_byte bearer dir = push_bit 3 bearer OR push_bit 2 (security_direction_number dir)"

definition xor_block :: "byte list \<Rightarrow> byte list \<Rightarrow> nat \<Rightarrow> byte list" where
  "xor_block T M i = map (\<lambda>j. T ! j XOR M ! (i * 16 + j)) [0..<16]"

text \<open>The bytes of the message that the number of bits covers are copied; the rest is zero.\<close>

definition security_nia2_non_cmac ::
  "aes_ecb \<Rightarrow> sec_128_key \<Rightarrow> u32 \<Rightarrow> byte \<Rightarrow> security_direction \<Rightarrow> byte list \<Rightarrow> nat \<Rightarrow> byte list result" where
  "security_nia2_non_cmac aes key cnt bearer dir msg msg_len =
     (let msg_len_block_8 = (msg_len + 7) div 8
      in if msg_len_block_8 + 8 + 16 > sec_max_pdu_size then Inl Assertion_Failed
         else if msg_len_block_8 \<le> length msg
         then let L = aes key (replicate 16 0);
                  K1 = nia2_subkey L;
                  K2 = nia2_subkey K1;
                  M = sec_preamble cnt @ [nia2_bearer_byte bearer dir] @ replicate 3 0 @ take msg_len_block_8 msg @ replicate 16 0;
                  n = (msg_len_block_8 + 8 + 15) div 16;
                  T = fold (\<lambda>i T. aes key (xor_block T M i)) [0..<n - 1] (replicate 16 0);
                  pad_bits = (msg_len + 64) mod 128
              in if pad_bits = 0
                 then Inr (take 4 (aes key (xor_block (map2 (XOR) T K1) M (n - 1))))
                 else let pad = 128 - pad_bits - 1;
                          at = (n - 1) * 16 + (15 - pad div 8);
                          M1 = M[at := M ! at OR push_bit (pad mod 8) 1]
                      in Inr (take 4 (aes key (xor_block (map2 (XOR) T K2) M1 (n - 1))))
         else Inr no_mac)"

definition GET_WORD :: "u32 list \<Rightarrow> nat \<Rightarrow> u32" where
  "GET_WORD DATA i =
     (let ti = i mod 32
      in if ti = 0 then DATA ! (i div 32) else push_bit ti (DATA ! (i div 32)) OR drop_bit (32 - ti) (DATA ! (i div 32 + 1)))"

definition nia3_iv :: "u32 \<Rightarrow> byte \<Rightarrow> security_direction \<Rightarrow> byte list" where
  "nia3_iv cnt bearer dir =
     (let c = sec_preamble cnt; b = push_bit 3 bearer AND 0xf8; d = push_bit 7 (security_direction_number dir AND 1)
      in c @ [b, 0, 0, 0] @ [c ! 0 XOR d, c ! 1, c ! 2, c ! 3] @ [b, 0, 0 XOR d, 0])"

definition security_nia3 :: "sec_128_key \<Rightarrow> u32 \<Rightarrow> byte \<Rightarrow> security_direction \<Rightarrow> byte list \<Rightarrow> nat \<Rightarrow> byte list result" where
  "security_nia3 key cnt bearer dir msg msg_len =
     (if (msg_len + 7) div 8 \<le> length msg
      then let L = (msg_len + 64 + 31) div 32;
               ks = fst (zuc_generate_keystream (zuc_initialize key (nia3_iv cnt bearer dir)) L);
               T = fold (\<lambda>i T. if msg ! (i div 8) AND push_bit (7 - i mod 8) 1 \<noteq> 0 then T XOR GET_WORD ks i else T) [0..<msg_len] 0;
               T = T XOR GET_WORD ks msg_len;
               mac_tmp = T XOR ks ! (L - 1)
           in Inr (sec_preamble mac_tmp)
      else Inr no_mac)"

subsection \<open>Key streams\<close>

text \<open>The specification: exclusive or with the bytes of the key stream words in big-endian order.\<close>

definition ks_byte :: "u32 list \<Rightarrow> nat \<Rightarrow> byte" where
  "ks_byte ks i = ucast (drop_bit (8 * (3 - i mod 4)) (ks ! (i div 4)))"

definition stream_xor :: "(nat \<Rightarrow> byte) \<Rightarrow> nat \<Rightarrow> byte list \<Rightarrow> byte list" where
  "stream_xor k n msg = map (\<lambda>i. if i < n then msg ! i XOR k i else msg ! i) [0..<length msg]"

lemma length_stream_xor [simp]: "length (stream_xor k n msg) = length msg"
  by (simp add: stream_xor_def)

lemma nth_stream_xor [simp]: "i < length msg \<Longrightarrow> stream_xor k n msg ! i = (if i < n then msg ! i XOR k i else msg ! i)"
  by (simp add: stream_xor_def)

lemma stream_xor_twice [simp]: "stream_xor k n (stream_xor k n msg) = msg"
  by (rule nth_equalityI) (simp_all add: xor.assoc)

lemma ucast_low_byte: "(ucast (w AND 0xff) :: byte) = ucast w" for w :: u32
proof -
  have m: "(0xff :: u32) = mask 8"
    by (simp add: mask_eq_exp_minus_1)
  show ?thesis
    unfolding m by (rule bit_word_eqI) (auto simp: bit_simps)
qed

lemma xor_tail_stream:
  assumes "i < length msg"
  shows "xor_tail ks i (stream_xor (ks_byte ks) i msg) = stream_xor (ks_byte ks) (Suc i) msg"
  by (rule nth_equalityI)
    (use assms in \<open>auto simp: xor_tail_def nth_list_update ucast_low_byte ks_byte_def mult.commute less_Suc_eq\<close>)

lemma ks_byte_word:
  "ks_byte ks (4 * i) = ucast (drop_bit 24 (ks ! i))" "ks_byte ks (4 * i + 1) = ucast (drop_bit 16 (ks ! i))"
  "ks_byte ks (4 * i + 2) = ucast (drop_bit 8 (ks ! i))" "ks_byte ks (4 * i + 3) = ucast (ks ! i)"
proof -
  have m: "(4 * i + j) mod 4 = j" "(4 * i + j) div 4 = i" if "j < 4" for j
    using that by simp_all
  show "ks_byte ks (4 * i) = ucast (drop_bit 24 (ks ! i))" "ks_byte ks (4 * i + 1) = ucast (drop_bit 16 (ks ! i))"
    "ks_byte ks (4 * i + 2) = ucast (drop_bit 8 (ks ! i))" "ks_byte ks (4 * i + 3) = ucast (ks ! i)"
    using m [of 0] m [of 1] m [of 2] m [of 3] by (simp_all add: ks_byte_def)
qed

lemma xor_word_stream:
  assumes "4 * i + 4 \<le> length msg"
  shows "xor_word (4 * i) (ks ! i) (stream_xor (ks_byte ks) (4 * i) msg) = stream_xor (ks_byte ks) (4 * Suc i) msg"
proof (rule nth_equalityI)
  fix j
  assume "j < length (xor_word (4 * i) (ks ! i) (stream_xor (ks_byte ks) (4 * i) msg))"
  then have j: "j < length msg"
    by (simp add: xor_word_def)
  consider "j < 4 * i" | "j = 4 * i" | "j = 4 * i + 1" | "j = 4 * i + 2" | "j = 4 * i + 3" | "4 * i + 4 \<le> j"
    by linarith
  then show "xor_word (4 * i) (ks ! i) (stream_xor (ks_byte ks) (4 * i) msg) ! j = stream_xor (ks_byte ks) (4 * Suc i) msg ! j"
    using assms j ks_byte_word [of ks i]
    by cases (simp_all add: xor_word_def nth_list_update ucast_low_byte)
qed (simp add: xor_word_def)

lemma fold_upt: "(\<And>i x. a \<le> i \<Longrightarrow> i < b \<Longrightarrow> f i (g i) = g (Suc i)) \<Longrightarrow> a \<le> b \<Longrightarrow> fold f [a..<b] (g a) = g b"
proof (induction b)
  case (Suc b)
  then show ?case
    by (cases "a \<le> b") (auto simp: le_Suc_eq)
qed simp

lemma apply_keystream_eq:
  assumes "msg_len_block_8 \<le> length msg" "0 < msg_len_block_8" "msg_len_block_32 = (msg_len_block_8 + 3) div 4"
  shows "apply_keystream ks msg_len_block_32 msg_len_block_8 msg = stream_xor (ks_byte ks) msg_len_block_8 msg"
proof -
  have b: "4 * (msg_len_block_32 - 1) < msg_len_block_8" "msg_len_block_8 \<le> 4 * msg_len_block_32"
    using assms(2,3) by linarith+
  have z: "stream_xor (ks_byte ks) 0 msg = msg"
    by (rule nth_equalityI) simp_all
  have "fold (\<lambda>i. xor_word (4 * i) (ks ! i)) [0..<msg_len_block_32 - 1] (stream_xor (ks_byte ks) (4 * 0) msg) =
      stream_xor (ks_byte ks) (4 * (msg_len_block_32 - 1)) msg"
    by (rule fold_upt [where g = "\<lambda>i. stream_xor (ks_byte ks) (4 * i) msg"]) (use b assms(1) in \<open>auto simp del: mult_Suc_right intro!: xor_word_stream\<close>)
  moreover have "fold (xor_tail ks) [4 * (msg_len_block_32 - 1)..<msg_len_block_8] (stream_xor (ks_byte ks) (4 * (msg_len_block_32 - 1)) msg) =
      stream_xor (ks_byte ks) msg_len_block_8 msg"
    by (rule fold_upt [where g = "\<lambda>i. stream_xor (ks_byte ks) i msg"]) (use b assms(1) in \<open>auto intro!: xor_tail_stream\<close>)
  ultimately show ?thesis
    by (simp add: apply_keystream_def z mult.commute)
qed


text \<open>Whole bytes have no tail to be cleared.\<close>

lemma zero_tailing_bits_whole [simp]: "zero_tailing_bits b (8 * n) = b" "zero_tailing_bits b (n * 8) = b"
proof -
  have m: "(0xff :: byte) = mask 8"
    by (simp add: mask_eq_exp_minus_1)
  have "b AND 0xff = b"
    unfolding m using unsigned_less [where 'a = nat and w = b] by (intro small_masked) simp
  then show "zero_tailing_bits b (8 * n) = b" "zero_tailing_bits b (n * 8) = b"
    by (simp_all add: zero_tailing_bits_def)
qed

lemma security_nea1_eq:
  "security_nea1 key cnt bearer dir msg (8 * length msg) =
     (if msg = [] then Inl Out_Of_Bounds
      else Inr (stream_xor (ks_byte (nea1_keystream key cnt bearer dir ((8 * length msg + 31) div 32))) (length msg) msg))"
proof (cases "msg = []")
  case False
  have d: "(8 * length msg + 7) div 8 = length msg" "(8 * length msg + 31) div 32 = (length msg + 3) div 4"
    by simp_all
  show ?thesis
    using False apply_keystream_eq [of "length msg" msg "(length msg + 3) div 4"]
    by (simp add: security_nea1_def Let_def d list_update_id del: div_mult_self1_is_m)
qed (simp add: security_nea1_def)

lemma security_nea3_eq:
  "security_nea3 key cnt bearer dir msg (8 * length msg) =
     (if msg = [] then Inl Out_Of_Bounds
      else Inr (stream_xor (ks_byte (fst (zuc_generate_keystream (zuc_initialize key (nea3_iv cnt bearer dir))
        ((8 * length msg + 31) div 32)))) (length msg) msg))"
proof (cases "msg = []")
  case False
  have d: "(8 * length msg + 7) div 8 = length msg" "(8 * length msg + 31) div 32 = (length msg + 3) div 4"
    by simp_all
  show ?thesis
    using False apply_keystream_eq [of "length msg" msg "(length msg + 3) div 4"]
    by (simp add: security_nea3_def Let_def d list_update_id)
qed (simp add: security_nea3_def)

end
