(* ===== verification/Sec_Engine.thy ===== *)
theory Sec_Engine
  imports Sec_Algos
begin

text \<open>
  The security engines of \<^verbatim>\<open>lib/security\<close>: the ciphering engines NEA1, NEA2 and NEA3, the integrity engines and
  \<^verbatim>\<open>security_engine_impl\<close>, which PDCP uses. What the engines need of mbedTLS is a record of parameters.
  Appending the message code to a buffer always succeeds. The lemmas show that an engine accepts exactly the
  messages that the same engine generates and returns what went into them, and that NIA2 is AES-CMAC.
\<close>

subsection \<open>Library\<close>

text \<open>AES in counter mode; AES on a block; CMAC if the library has it. Setting a key yields the operation
  under that key or fails.\<close>

record mbedtls =
  mbed_ctr :: aes_ctr
  mbed_ecb :: aes_ecb
  mbed_cmac :: "(sec_128_key \<Rightarrow> (byte list \<Rightarrow> byte list option) option) option"

definition nia2_preamble :: "u32 \<Rightarrow> byte \<Rightarrow> security_direction \<Rightarrow> byte list" where
  "nia2_preamble cnt bearer dir = sec_preamble cnt @ [nia2_bearer_byte bearer dir] @ replicate 3 0"

definition security_nia2_cmac ::
  "(sec_128_key \<Rightarrow> (byte list \<Rightarrow> byte list option) option) \<Rightarrow> sec_128_key \<Rightarrow> u32 \<Rightarrow> byte \<Rightarrow> security_direction \<Rightarrow> byte list \<Rightarrow> byte list" where
  "security_nia2_cmac cmac key cnt bearer dir msg =
     (case cmac key of
        None \<Rightarrow> no_mac
      | Some ctx \<Rightarrow>
          (case ctx (nia2_preamble cnt bearer dir @ msg) of None \<Rightarrow> no_mac | Some tmp_mac \<Rightarrow> take 4 tmp_mac))"

definition security_nia2 :: "mbedtls \<Rightarrow> sec_128_key \<Rightarrow> u32 \<Rightarrow> byte \<Rightarrow> security_direction \<Rightarrow> byte list \<Rightarrow> byte list result" where
  "security_nia2 lib key cnt bearer dir msg =
     (case mbed_cmac lib of
        Some cmac \<Rightarrow> Inr (security_nia2_cmac cmac key cnt bearer dir msg)
      | None \<Rightarrow> security_nia2_non_cmac (mbed_ecb lib) key cnt bearer dir msg (8 * length msg))"

subsection \<open>Ciphering engines\<close>

datatype ciphering_engine =
    ciphering_engine_nea1 sec_128_key byte security_direction
  | ciphering_engine_nea2 "byte list \<Rightarrow> byte list \<Rightarrow> byte list option" byte security_direction
  | ciphering_engine_nea3 sec_128_key byte security_direction

definition ciphering_engine_nea2_new :: "mbedtls \<Rightarrow> sec_128_key \<Rightarrow> byte \<Rightarrow> security_direction \<Rightarrow> ciphering_engine result" where
  "ciphering_engine_nea2_new lib key bearer dir =
     (case mbed_ctr lib key of None \<Rightarrow> Inl Assertion_Failed | Some ctx \<Rightarrow> Inr (ciphering_engine_nea2 ctx bearer dir))"

definition nea1_apply_ciphering :: "sec_128_key \<Rightarrow> byte \<Rightarrow> security_direction \<Rightarrow> byte list \<Rightarrow> u32 \<Rightarrow> security_result result" where
  "nea1_apply_ciphering key bearer dir msg cnt = rbind (security_nea1 key cnt bearer dir msg (8 * length msg)) (\<lambda>m. Inr (Inr m))"

definition nea2_apply_ciphering ::
  "(byte list \<Rightarrow> byte list \<Rightarrow> byte list option) \<Rightarrow> byte \<Rightarrow> security_direction \<Rightarrow> byte list \<Rightarrow> u32 \<Rightarrow> security_result result" where
  "nea2_apply_ciphering ctx bearer dir msg cnt =
     (case ctx (nea2_nonce cnt bearer dir) msg of None \<Rightarrow> Inr (Inl ciphering_failure) | Some m \<Rightarrow> Inr (Inr m))"

definition nea3_apply_ciphering :: "sec_128_key \<Rightarrow> byte \<Rightarrow> security_direction \<Rightarrow> byte list \<Rightarrow> u32 \<Rightarrow> security_result result" where
  "nea3_apply_ciphering key bearer dir msg cnt = rbind (security_nea3 key cnt bearer dir msg (8 * length msg)) (\<lambda>m. Inr (Inr m))"

text \<open>The engines work on the part of the buffer behind the offset.\<close>

definition apply_ciphering :: "ciphering_engine \<Rightarrow> byte list \<Rightarrow> nat \<Rightarrow> u32 \<Rightarrow> security_result result" where
  "apply_ciphering eng buf offset cnt =
     (if length buf < offset then Inl Out_Of_Bounds
      else rbind (case eng of
                    ciphering_engine_nea1 key bearer dir \<Rightarrow> nea1_apply_ciphering key bearer dir (drop offset buf) cnt
                  | ciphering_engine_nea2 ctx bearer dir \<Rightarrow> nea2_apply_ciphering ctx bearer dir (drop offset buf) cnt
                  | ciphering_engine_nea3 key bearer dir \<Rightarrow> nea3_apply_ciphering key bearer dir (drop offset buf) cnt)
             (\<lambda>r. Inr (map_sum id (\<lambda>m. take offset buf @ m) r)))"

subsection \<open>Integrity engines\<close>

datatype integrity_engine =
    integrity_engine_generic sec_128_key byte security_direction integrity_algorithm
  | integrity_engine_nia2_cmac "byte list \<Rightarrow> byte list option" byte security_direction
  | integrity_engine_nia2_non_cmac "byte list \<Rightarrow> byte list" "byte list" "byte list" byte security_direction

definition integrity_engine_nia2_cmac_new ::
  "(sec_128_key \<Rightarrow> (byte list \<Rightarrow> byte list option) option) \<Rightarrow> sec_128_key \<Rightarrow> byte \<Rightarrow> security_direction \<Rightarrow> integrity_engine result" where
  "integrity_engine_nia2_cmac_new cmac key bearer dir =
     (case cmac key of None \<Rightarrow> Inl Assertion_Failed | Some ctx \<Rightarrow> Inr (integrity_engine_nia2_cmac ctx bearer dir))"

definition integrity_engine_nia2_non_cmac_new :: "mbedtls \<Rightarrow> sec_128_key \<Rightarrow> byte \<Rightarrow> security_direction \<Rightarrow> integrity_engine" where
  "integrity_engine_nia2_non_cmac_new lib key bearer dir =
     (let l = mbed_ecb lib key (replicate 16 0);
          k1 = nia2_subkey l;
          k2 = nia2_subkey k1
      in integrity_engine_nia2_non_cmac (mbed_ecb lib key) k1 k2 bearer dir)"

definition generic_mac :: "mbedtls \<Rightarrow> sec_128_key \<Rightarrow> byte \<Rightarrow> security_direction \<Rightarrow> integrity_algorithm \<Rightarrow> byte list \<Rightarrow> u32 \<Rightarrow> byte list result" where
  "generic_mac lib key bearer dir algo v cnt =
     (case algo of
        nia0 \<Rightarrow> Inr no_mac
      | nia1 \<Rightarrow> security_nia1 key cnt bearer dir v (8 * length v)
      | nia2 \<Rightarrow> security_nia2 lib key cnt bearer dir v
      | nia3 \<Rightarrow> security_nia3 key cnt bearer dir v (8 * length v))"

definition cmac_compute_mac :: "(byte list \<Rightarrow> byte list option) \<Rightarrow> byte \<Rightarrow> security_direction \<Rightarrow> byte list \<Rightarrow> u32 \<Rightarrow> security_result" where
  "cmac_compute_mac ctx bearer dir v cnt =
     (case ctx (nia2_preamble cnt bearer dir @ v) of None \<Rightarrow> Inl integrity_failure | Some tmp_mac \<Rightarrow> Inr (take 4 tmp_mac))"

definition non_cmac_compute_mac ::
  "(byte list \<Rightarrow> byte list) \<Rightarrow> byte list \<Rightarrow> byte list \<Rightarrow> byte \<Rightarrow> security_direction \<Rightarrow> byte list \<Rightarrow> u32 \<Rightarrow> byte list result" where
  "non_cmac_compute_mac aes k1 k2 bearer dir v cnt =
     (if length v + 8 + 16 > sec_max_pdu_size then Inl Assertion_Failed
      else let msg = nia2_preamble cnt bearer dir @ v @ replicate 16 0;
               n = (length v + 8 + 15) div 16;
               tmp_mac = fold (\<lambda>i t. aes (xor_block t msg i)) [0..<n - 1] (replicate 16 0);
               pad_bits = (8 * length v + 64) mod 128
           in if pad_bits = 0
              then Inr (take 4 (aes (xor_block (map2 (XOR) tmp_mac k1) msg (n - 1))))
              else let pad = 128 - pad_bits - 1;
                       at = (n - 1) * 16 + (15 - pad div 8);
                       msg1 = msg[at := msg ! at OR push_bit (pad mod 8) 1]
                   in Inr (take 4 (aes (xor_block (map2 (XOR) tmp_mac k2) msg1 (n - 1)))))"

definition compute_mac :: "mbedtls \<Rightarrow> integrity_engine \<Rightarrow> byte list \<Rightarrow> u32 \<Rightarrow> security_result result" where
  "compute_mac lib eng v cnt =
     (case eng of
        integrity_engine_generic key bearer dir algo \<Rightarrow> rbind (generic_mac lib key bearer dir algo v cnt) (\<lambda>mac. Inr (Inr mac))
      | integrity_engine_nia2_cmac ctx bearer dir \<Rightarrow> Inr (cmac_compute_mac ctx bearer dir v cnt)
      | integrity_engine_nia2_non_cmac aes k1 k2 bearer dir \<Rightarrow>
          rbind (non_cmac_compute_mac aes k1 k2 bearer dir v cnt) (\<lambda>mac. Inr (Inr mac)))"

definition protect_integrity :: "mbedtls \<Rightarrow> integrity_engine \<Rightarrow> byte list \<Rightarrow> u32 \<Rightarrow> security_result result" where
  "protect_integrity lib eng buf cnt = rbind (compute_mac lib eng buf cnt) (\<lambda>r. Inr (map_sum id (\<lambda>mac. buf @ mac) r))"

definition verify_integrity :: "mbedtls \<Rightarrow> integrity_engine \<Rightarrow> byte list \<Rightarrow> u32 \<Rightarrow> security_result result" where
  "verify_integrity lib eng buf cnt =
     (if length buf \<le> sec_mac_len then Inr (Inl integrity_failure)
      else let v = take (length buf - sec_mac_len) buf; m = drop (length buf - sec_mac_len) buf
           in rbind (compute_mac lib eng v cnt) (\<lambda>r.
              Inr (case r of Inl x \<Rightarrow> Inl x | Inr mac \<Rightarrow> if mac = m then Inr v else Inl integrity_failure)))"

subsection \<open>Security engine\<close>

record security_engine_impl =
  integ_eng :: "integrity_engine option"
  cipher_eng :: "ciphering_engine option"

definition integrity_engine_new :: "mbedtls \<Rightarrow> sec_128_as_config \<Rightarrow> byte \<Rightarrow> security_direction \<Rightarrow> integrity_engine result" where
  "integrity_engine_new lib cfg bearer dir =
     (case (integ_algo cfg, k_128_int cfg) of
        (Some algo, Some key) \<Rightarrow>
          if algo = nia2
          then case mbed_cmac lib of
                 Some cmac \<Rightarrow> integrity_engine_nia2_cmac_new cmac key bearer dir
               | None \<Rightarrow> Inr (integrity_engine_nia2_non_cmac_new lib key bearer dir)
          else Inr (integrity_engine_generic key bearer dir algo)
      | _ \<Rightarrow> Inl Assertion_Failed)"

definition ciphering_engine_new :: "mbedtls \<Rightarrow> sec_128_as_config \<Rightarrow> byte \<Rightarrow> security_direction \<Rightarrow> ciphering_engine option result" where
  "ciphering_engine_new lib cfg bearer dir =
     (case cipher_algo cfg of
        nea0 \<Rightarrow> Inr None
      | nea1 \<Rightarrow> Inr (Some (ciphering_engine_nea1 (k_128_enc cfg) bearer dir))
      | nea2 \<Rightarrow> rbind (ciphering_engine_nea2_new lib (k_128_enc cfg) bearer dir) (\<lambda>c. Inr (Some c))
      | nea3 \<Rightarrow> Inr (Some (ciphering_engine_nea3 (k_128_enc cfg) bearer dir)))"

definition security_engine_new ::
  "mbedtls \<Rightarrow> byte \<Rightarrow> sec_128_as_config \<Rightarrow> security_direction \<Rightarrow> bool \<Rightarrow> bool \<Rightarrow> security_engine_impl result" where
  "security_engine_new lib bearer cfg dir integrity_enabled ciphering_enabled =
     rbind (if integrity_enabled then rbind (integrity_engine_new lib cfg bearer dir) (\<lambda>i. Inr (Some i)) else Inr None) (\<lambda>i.
     rbind (if ciphering_enabled then ciphering_engine_new lib cfg bearer dir else Inr None) (\<lambda>c.
     Inr \<lparr>integ_eng = i, cipher_eng = c\<rparr>))"

definition engine_protect :: "mbedtls \<Rightarrow> integrity_engine option \<Rightarrow> byte list \<Rightarrow> u32 \<Rightarrow> security_result result" where
  "engine_protect lib eng buf cnt = (case eng of None \<Rightarrow> Inr (Inr buf) | Some i \<Rightarrow> protect_integrity lib i buf cnt)"

definition engine_verify :: "mbedtls \<Rightarrow> integrity_engine option \<Rightarrow> byte list \<Rightarrow> u32 \<Rightarrow> security_result result" where
  "engine_verify lib eng buf cnt = (case eng of None \<Rightarrow> Inr (Inr buf) | Some i \<Rightarrow> verify_integrity lib i buf cnt)"

definition engine_cipher :: "ciphering_engine option \<Rightarrow> byte list \<Rightarrow> nat \<Rightarrow> u32 \<Rightarrow> security_result result" where
  "engine_cipher eng buf offset cnt = (case eng of None \<Rightarrow> Inr (Inr buf) | Some c \<Rightarrow> apply_ciphering c buf offset cnt)"

text \<open>The second step is taken only if the first one left a buffer.\<close>

definition sec_then :: "security_result result \<Rightarrow> (byte list \<Rightarrow> security_result result) \<Rightarrow> security_result result" where
  "sec_then r f = rbind r (\<lambda>x. case x of Inl err \<Rightarrow> Inr (Inl err) | Inr buf \<Rightarrow> f buf)"

definition encrypt_and_protect_integrity :: "mbedtls \<Rightarrow> security_engine_impl \<Rightarrow> security_fun" where
  "encrypt_and_protect_integrity lib eng buf offset cnt =
     sec_then (engine_protect lib (integ_eng eng) buf cnt) (\<lambda>b. engine_cipher (cipher_eng eng) b offset cnt)"

definition decrypt_and_verify_integrity :: "mbedtls \<Rightarrow> security_engine_impl \<Rightarrow> security_fun" where
  "decrypt_and_verify_integrity lib eng buf offset cnt =
     sec_then (engine_cipher (cipher_eng eng) buf offset cnt) (\<lambda>b. engine_verify lib (integ_eng eng) b cnt)"

subsection \<open>Interfaces\<close>

lemma sec_then_eq: "sec_then r f = Inr (Inr x) \<longleftrightarrow> (\<exists>b. r = Inr (Inr b) \<and> f b = Inr (Inr x))"
proof (cases r)
  case (Inr a)
  then show ?thesis
    by (cases a) (simp_all add: sec_then_def)
qed (simp add: sec_then_def)

lemma rbind_map_sum_eq: "rbind r (\<lambda>r. Inr (map_sum id g r)) = Inr (Inr x) \<longleftrightarrow> (\<exists>m. r = Inr (Inr m) \<and> x = g m)"
proof (cases r)
  case (Inr a)
  then show ?thesis
    by (cases a) auto
qed simp

lemma rbind_case_sum_eq:
  "rbind r (\<lambda>r. Inr (case r of Inl err \<Rightarrow> Inl err | Inr m \<Rightarrow> g m)) = Inr (Inr x) \<longleftrightarrow> (\<exists>m. r = Inr (Inr m) \<and> g m = Inr x)"
proof (cases r)
  case (Inr a)
  then show ?thesis
    by (cases a) simp_all
qed simp

text \<open>A cipher that undoes itself and leaves the part before the offset alone.\<close>

locale stream_cipher =
  fixes crypt :: "byte list \<Rightarrow> nat \<Rightarrow> u32 \<Rightarrow> security_result result"
  assumes crypt_inverse: "crypt buf off cnt = Inr (Inr b) \<Longrightarrow> crypt b off cnt = Inr (Inr buf)"
    and crypt_keeps: "crypt buf off cnt = Inr (Inr b) \<Longrightarrow> length b = length buf \<and> take off b = take off buf"

text \<open>A message code: what is accepted is what is generated, from the messages that \<open>plain\<close> admits.\<close>

locale message_code =
  fixes protect verify :: "byte list \<Rightarrow> u32 \<Rightarrow> security_result result"
    and plain :: "byte list \<Rightarrow> bool"
  assumes accepts: "verify p cnt = Inr (Inr b) \<longleftrightarrow> protect b cnt = Inr (Inr p) \<and> plain b"
    and appends: "protect b cnt = Inr (Inr p) \<Longrightarrow> \<exists>mac. p = b @ mac \<and> length mac \<le> sec_mac_len"

locale secured = stream_cipher crypt + message_code protect verify plain
  for crypt :: "byte list \<Rightarrow> nat \<Rightarrow> u32 \<Rightarrow> security_result result"
    and protect verify :: "byte list \<Rightarrow> u32 \<Rightarrow> security_result result"
    and plain :: "byte list \<Rightarrow> bool"
begin

lemma accepts_exactly:
  "sec_then (crypt p off cnt) (\<lambda>b. verify b cnt) = Inr (Inr buf) \<longleftrightarrow>
     sec_then (protect buf cnt) (\<lambda>b. crypt b off cnt) = Inr (Inr p) \<and> plain buf"
  (is "?dec \<longleftrightarrow> ?enc \<and> _")
proof
  assume ?dec
  then obtain b where "crypt p off cnt = Inr (Inr b)" "verify b cnt = Inr (Inr buf)"
    by (auto simp: sec_then_eq)
  then show "?enc \<and> plain buf"
    using crypt_inverse [of p off cnt b] accepts [of b cnt buf] by (simp add: sec_then_eq)
next
  assume enc: "?enc \<and> plain buf"
  then obtain b where "protect buf cnt = Inr (Inr b)" "crypt b off cnt = Inr (Inr p)"
    by (auto simp: sec_then_eq)
  then show ?dec
    using crypt_inverse [of b off cnt p] accepts [of b cnt buf] enc by (auto simp: sec_then_eq)
qed

lemma secured_frame:
  assumes "sec_then (protect buf cnt) (\<lambda>b. crypt b off cnt) = Inr (Inr p)" "off \<le> length buf"
  shows "length buf \<le> length p \<and> length p \<le> length buf + sec_mac_len \<and> take off p = take off buf"
proof -
  obtain b where b: "protect buf cnt = Inr (Inr b)" "crypt b off cnt = Inr (Inr p)"
    using assms(1) by (auto simp: sec_then_eq)
  then show ?thesis
    using appends [OF b(1)] crypt_keeps [OF b(2)] assms(2) by auto
qed

end

subsection \<open>Ciphers\<close>

lemma nea1_apply_ciphering_eq:
  "nea1_apply_ciphering key bearer dir msg cnt = Inr (Inr m) \<longleftrightarrow> msg \<noteq> [] \<and>
     m = stream_xor (ks_byte (nea1_keystream key cnt bearer dir ((8 * length msg + 31) div 32))) (length msg) msg"
  by (auto simp: nea1_apply_ciphering_def security_nea1_eq)

lemma nea3_apply_ciphering_eq:
  "nea3_apply_ciphering key bearer dir msg cnt = Inr (Inr m) \<longleftrightarrow> msg \<noteq> [] \<and>
     m = stream_xor (ks_byte (fst (zuc_generate_keystream (zuc_initialize key (nea3_iv cnt bearer dir)) ((8 * length msg + 31) div 32)))) (length msg) msg"
  by (auto simp: nea3_apply_ciphering_def security_nea3_eq)

text \<open>What the engine relies on: the counter mode adds a key stream that depends on key and nonce only.\<close>

definition ctr_ok :: "(byte list \<Rightarrow> byte list \<Rightarrow> byte list option) \<Rightarrow> bool" where
  "ctr_ok ctx \<longleftrightarrow> (\<exists>ks. \<forall>nonce msg. ctx nonce msg = Some (stream_xor (ks nonce) (length msg) msg))"

definition cipher_ok :: "ciphering_engine option \<Rightarrow> bool" where
  "cipher_ok eng \<longleftrightarrow> (\<forall>ctx bearer dir. eng = Some (ciphering_engine_nea2 ctx bearer dir) \<longrightarrow> ctr_ok ctx)"

lemma stream_xor_empty [simp]: "stream_xor k n msg = [] \<longleftrightarrow> msg = []"
  by (simp add: stream_xor_def)

lemma apply_ciphering_stream:
  assumes "cipher_ok (Some eng)"
  obtains ok ks where "\<And>buf off b. off \<le> length buf \<Longrightarrow> apply_ciphering eng buf off cnt = Inr (Inr b) \<longleftrightarrow>
      ok (length buf - off) \<and> b = take off buf @ stream_xor (ks (length buf - off)) (length buf - off) (drop off buf)"
proof (cases eng)
  case (ciphering_engine_nea1 key bearer dir)
  show thesis
    by (rule that [of "\<lambda>n. n \<noteq> 0" "\<lambda>n. ks_byte (nea1_keystream key cnt bearer dir ((8 * n + 31) div 32))"])
      (auto simp: apply_ciphering_def ciphering_engine_nea1 rbind_map_sum_eq nea1_apply_ciphering_eq)
next
  case (ciphering_engine_nea2 ctx bearer dir)
  then obtain ks where "\<And>nonce msg. ctx nonce msg = Some (stream_xor (ks nonce) (length msg) msg)"
    using assms by (auto simp: cipher_ok_def ctr_ok_def)
  then show thesis
    by (intro that [of "\<lambda>n. True" "\<lambda>n. ks (nea2_nonce cnt bearer dir)"])
      (auto simp: apply_ciphering_def ciphering_engine_nea2 nea2_apply_ciphering_def)
next
  case (ciphering_engine_nea3 key bearer dir)
  show thesis
    by (rule that [of "\<lambda>n. n \<noteq> 0" "\<lambda>n. ks_byte (fst (zuc_generate_keystream (zuc_initialize key (nea3_iv cnt bearer dir)) ((8 * n + 31) div 32)))"])
      (auto simp: apply_ciphering_def ciphering_engine_nea3 rbind_map_sum_eq nea3_apply_ciphering_eq)
qed

lemma apply_ciphering_offset: "apply_ciphering eng buf off cnt = Inr r \<Longrightarrow> off \<le> length buf"
  by (auto simp: apply_ciphering_def split: if_splits)

lemma engine_cipher_stream: "cipher_ok eng \<Longrightarrow> stream_cipher (engine_cipher eng)"
proof (cases eng)
  case None
  then show ?thesis
    by (simp add: stream_cipher_def engine_cipher_def)
next
  case (Some c)
  assume ok: "cipher_ok eng"
  show ?thesis
  proof
    fix buf off cnt b
    assume "engine_cipher eng buf off cnt = Inr (Inr b)"
    then have run: "apply_ciphering c buf off cnt = Inr (Inr b)" "off \<le> length buf"
      using apply_ciphering_offset [of c buf off cnt] by (auto simp: engine_cipher_def Some)
    obtain f ks where eq: "\<And>buf off b. off \<le> length buf \<Longrightarrow> apply_ciphering c buf off cnt = Inr (Inr b) \<longleftrightarrow>
        f (length buf - off) \<and> b = take off buf @ stream_xor (ks (length buf - off)) (length buf - off) (drop off buf)"
      using apply_ciphering_stream [of c cnt] ok Some by metis
    have b: "f (length buf - off)" "b = take off buf @ stream_xor (ks (length buf - off)) (length buf - off) (drop off buf)"
      using run eq by simp_all
    then have "length b = length buf" "take off b = take off buf"
      using run(2) by simp_all
    moreover have "apply_ciphering c b off cnt = Inr (Inr buf)"
      using b run(2) by (subst eq) simp_all
    ultimately show "engine_cipher eng b off cnt = Inr (Inr buf)" "length b = length buf \<and> take off b = take off buf"
      by (simp_all add: engine_cipher_def Some)
  qed
qed

subsection \<open>Message codes\<close>

definition integ_plain :: "integrity_engine option \<Rightarrow> byte list \<Rightarrow> bool" where
  "integ_plain eng b \<longleftrightarrow> eng = None \<or> b \<noteq> []"

text \<open>AES, CMAC and the message codes have at least four bytes.\<close>

definition mac_len_ok :: "mbedtls \<Rightarrow> integrity_engine option \<Rightarrow> bool" where
  "mac_len_ok lib eng \<longleftrightarrow> (\<forall>i v cnt mac. eng = Some i \<longrightarrow> compute_mac lib i v cnt = Inr (Inr mac) \<longrightarrow> length mac = sec_mac_len)"

lemma engine_message_code:
  assumes "mac_len_ok lib eng"
  shows "message_code (engine_protect lib eng) (engine_verify lib eng) (integ_plain eng)"
proof (cases eng)
  case None
  then show ?thesis
    by (auto simp: message_code_def engine_protect_def engine_verify_def integ_plain_def)
next
  case (Some i)
  have len: "compute_mac lib i v cnt = Inr (Inr mac) \<Longrightarrow> length mac = sec_mac_len" for v cnt mac
    using assms Some by (simp add: mac_len_ok_def)
  show ?thesis
  proof
    fix p cnt b
    show "engine_protect lib eng b cnt = Inr (Inr p) \<Longrightarrow> \<exists>mac. p = b @ mac \<and> length mac \<le> sec_mac_len"
      using len [of b cnt] by (auto simp: engine_protect_def Some protect_integrity_def rbind_map_sum_eq)
    show "(engine_verify lib eng p cnt = Inr (Inr b)) = (engine_protect lib eng b cnt = Inr (Inr p) \<and> integ_plain eng b)"
    proof
      assume "engine_verify lib eng p cnt = Inr (Inr b)"
      then have "compute_mac lib i b cnt = Inr (Inr (drop (length p - sec_mac_len) p))" "b = take (length p - sec_mac_len) p" "b \<noteq> []"
        by (auto simp: engine_verify_def Some verify_integrity_def Let_def rbind_case_sum_eq split: if_splits)
      then show "engine_protect lib eng b cnt = Inr (Inr p) \<and> integ_plain eng b"
        by (simp add: engine_protect_def Some protect_integrity_def integ_plain_def)
    next
      assume "engine_protect lib eng b cnt = Inr (Inr p) \<and> integ_plain eng b"
      then obtain mac where "compute_mac lib i b cnt = Inr (Inr mac)" "p = b @ mac" "b \<noteq> []"
        by (auto simp: engine_protect_def Some protect_integrity_def rbind_map_sum_eq integ_plain_def)
      then show "engine_verify lib eng p cnt = Inr (Inr b)"
        using len [of b cnt mac] by (simp add: engine_verify_def Some verify_integrity_def Let_def sec_mac_len_def)
    qed
  qed
qed

subsection \<open>Engines\<close>

text \<open>What the engines rely on: counter mode adds a key stream, and blocks and CMACs have 16 bytes.\<close>

definition mbedtls_ok :: "mbedtls \<Rightarrow> bool" where
  "mbedtls_ok lib \<longleftrightarrow> (\<forall>key ctx. mbed_ctr lib key = Some ctx \<longrightarrow> ctr_ok ctx) \<and> (\<forall>key b. length (mbed_ecb lib key b) = 16) \<and>
     (\<forall>cmac key ctx m t. mbed_cmac lib = Some cmac \<longrightarrow> cmac key = Some ctx \<longrightarrow> ctx m = Some t \<longrightarrow> length t = 16)"

lemma length_sec_preamble [simp]: "length (sec_preamble cnt) = 4" "length (nia2_preamble cnt bearer dir) = 8"
  by (simp_all add: sec_preamble_def nia2_preamble_def)

lemma length_s3g_f9: "s3g_f9 key cnt fresh dir v n = Inr mac \<Longrightarrow> length mac = sec_mac_len"
  by (auto simp: s3g_f9_def Let_def sec_mac_len_def split: if_splits)

lemma length_no_mac [simp]: "length no_mac = sec_mac_len"
  by (simp add: no_mac_def sec_mac_len_def)

lemma length_security_nia:
  "security_nia1 key cnt bearer dir v n = Inr mac \<Longrightarrow> length mac = sec_mac_len"
  "security_nia3 key cnt bearer dir v n = Inr mac \<Longrightarrow> length mac = sec_mac_len"
  by (auto simp: security_nia1_def security_nia3_def Let_def sec_mac_len_def dest: length_s3g_f9 split: if_splits)

lemma length_security_nia2:
  assumes "mbedtls_ok lib" "security_nia2 lib key cnt bearer dir v = Inr mac"
  shows "length mac = sec_mac_len"
  using assms
  by (auto simp: security_nia2_def security_nia2_cmac_def security_nia2_non_cmac_def mbedtls_ok_def Let_def sec_mac_len_def
      split: option.splits if_splits)

text \<open>The engines that can be constructed.\<close>

inductive integrity_engine_of :: "mbedtls \<Rightarrow> integrity_engine \<Rightarrow> bool" for lib where
  of_generic: "integrity_engine_of lib (integrity_engine_generic key bearer dir algo)"
| of_cmac: "mbed_cmac lib = Some cmac \<Longrightarrow> cmac key = Some ctx \<Longrightarrow> integrity_engine_of lib (integrity_engine_nia2_cmac ctx bearer dir)"
| of_non_cmac: "integrity_engine_of lib (integrity_engine_nia2_non_cmac (mbed_ecb lib key) k1 k2 bearer dir)"

lemma integrity_engine_new_of: "integrity_engine_new lib cfg bearer dir = Inr i \<Longrightarrow> integrity_engine_of lib i"
  by (auto simp: integrity_engine_new_def integrity_engine_nia2_cmac_new_def integrity_engine_nia2_non_cmac_new_def Let_def
      intro: integrity_engine_of.intros split: option.splits if_splits)

lemma compute_mac_length:
  assumes "mbedtls_ok lib" "integrity_engine_of lib i" "compute_mac lib i v cnt = Inr (Inr mac)"
  shows "length mac = sec_mac_len"
  using assms(2)
proof cases
  case (of_generic key bearer dir algo)
  then have "generic_mac lib key bearer dir algo v cnt = Inr mac"
    using assms(3) by (auto simp: compute_mac_def rbind_eq_Inr)
  then show ?thesis
    by (cases algo) (auto simp: generic_mac_def dest: length_security_nia length_security_nia2 [OF assms(1)])
next
  case (of_cmac cmac key ctx bearer dir)
  then obtain t where "ctx (nia2_preamble cnt bearer dir @ v) = Some t" "mac = take 4 t"
    using assms(3) by (auto simp: compute_mac_def cmac_compute_mac_def split: option.splits)
  moreover have "length t = 16"
    using assms(1) of_cmac(2,3) calculation(1) by (auto simp: mbedtls_ok_def)
  ultimately show ?thesis
    by (simp add: sec_mac_len_def)
next
  case (of_non_cmac key k1 k2 bearer dir)
  then show ?thesis
    using assms(1,3) by (auto simp: compute_mac_def non_cmac_compute_mac_def mbedtls_ok_def rbind_eq_Inr Let_def sec_mac_len_def split: if_splits)
qed

lemma security_engine_new_ok:
  assumes "mbedtls_ok lib" "security_engine_new lib bearer cfg dir i c = Inr eng"
  shows "cipher_ok (cipher_eng eng)" "mac_len_ok lib (integ_eng eng)" "integ_eng eng \<noteq> None \<longleftrightarrow> i"
    "\<And>e. integ_eng eng = Some e \<Longrightarrow> integrity_engine_of lib e"
proof -
  obtain ie ce where "(if i then rbind (integrity_engine_new lib cfg bearer dir) (\<lambda>i. Inr (Some i)) else Inr None) = Inr ie"
      "(if c then ciphering_engine_new lib cfg bearer dir else Inr None) = Inr ce" and eng: "eng = \<lparr>integ_eng = ie, cipher_eng = ce\<rparr>"
    using assms(2) by (auto simp: security_engine_new_def rbind_eq_Inr)
  then show "integ_eng eng \<noteq> None \<longleftrightarrow> i" and of: "\<And>e. integ_eng eng = Some e \<Longrightarrow> integrity_engine_of lib e"
    by (auto simp: rbind_eq_Inr intro: integrity_engine_new_of split: if_splits)
  show "mac_len_ok lib (integ_eng eng)"
    using of compute_mac_length [OF assms(1)] by (auto simp: mac_len_ok_def)
  show "cipher_ok (cipher_eng eng)"
    using assms(1) \<open>(if c then ciphering_engine_new lib cfg bearer dir else Inr None) = Inr ce\<close> eng
    by (auto simp: cipher_ok_def ciphering_engine_new_def ciphering_engine_nea2_new_def mbedtls_ok_def rbind_eq_Inr
        split: ciphering_algorithm.splits if_splits option.splits)
qed

lemma engine_secured:
  assumes "mbedtls_ok lib" "security_engine_new lib bearer cfg dir i c = Inr eng"
  shows "secured (engine_cipher (cipher_eng eng)) (engine_protect lib (integ_eng eng)) (engine_verify lib (integ_eng eng)) (integ_plain (integ_eng eng))"
  using security_engine_new_ok [OF assms] by (intro secured.intro engine_cipher_stream engine_message_code)

text \<open>Without the block cipher of the library nothing is assumed: the engines for NEA0, NEA1 and NEA3 with NIA0, NIA1 and NIA3.\<close>

definition no_mbedtls :: mbedtls where
  "no_mbedtls = \<lparr>mbed_ctr = \<lambda>_. None, mbed_ecb = \<lambda>_ _. replicate 16 0, mbed_cmac = None\<rparr>"

lemma no_mbedtls_ok: "mbedtls_ok no_mbedtls"
  by (simp add: mbedtls_ok_def no_mbedtls_def)

interpretation nea1_link: secured "engine_cipher (Some (ciphering_engine_nea1 key bearer dir))"
    "engine_protect no_mbedtls (Some (integrity_engine_generic ikey bearer dir algo))"
    "engine_verify no_mbedtls (Some (integrity_engine_generic ikey bearer dir algo))"
    "integ_plain (Some (integrity_engine_generic ikey bearer dir algo))" for key ikey bearer dir algo
  using compute_mac_length [OF no_mbedtls_ok of_generic]
  by (intro secured.intro engine_cipher_stream engine_message_code) (auto simp: cipher_ok_def mac_len_ok_def)

interpretation nea3_link: secured "engine_cipher (Some (ciphering_engine_nea3 key bearer dir))"
    "engine_protect no_mbedtls (Some (integrity_engine_generic ikey bearer dir algo))"
    "engine_verify no_mbedtls (Some (integrity_engine_generic ikey bearer dir algo))"
    "integ_plain (Some (integrity_engine_generic ikey bearer dir algo))" for key ikey bearer dir algo
  using compute_mac_length [OF no_mbedtls_ok of_generic]
  by (intro secured.intro engine_cipher_stream engine_message_code) (auto simp: cipher_ok_def mac_len_ok_def)

text \<open>Messages that are not empty and fit the buffer do not abort.\<close>

lemma compute_mac_total:
  assumes "integrity_engine_of lib i" "v \<noteq> []" "length v + 24 \<le> sec_max_pdu_size"
  shows "\<exists>r. compute_mac lib i v cnt = Inr r"
  using assms(1)
proof cases
  case (of_generic key bearer dir algo)
  have "\<exists>m. generic_mac lib key bearer dir algo v cnt = Inr m"
    using assms(2,3)
    by (cases algo) (auto simp: generic_mac_def security_nia1_def s3g_f9_def security_nia2_def security_nia2_non_cmac_def security_nia3_def Let_def
        split: option.split)
  then show ?thesis
    using of_generic by (auto simp: compute_mac_def)
next
  case (of_cmac cmac key ctx bearer dir)
  then show ?thesis
    by (simp add: compute_mac_def)
next
  case (of_non_cmac key k1 k2 bearer dir)
  then show ?thesis
    using assms(3) by (auto simp: compute_mac_def non_cmac_compute_mac_def Let_def)
qed

lemma nea_apply_total:
  "msg \<noteq> [] \<Longrightarrow> \<exists>r. nea1_apply_ciphering key bearer dir msg cnt = Inr r"
  "\<exists>r. nea2_apply_ciphering ctx bearer dir msg cnt = Inr r"
  "msg \<noteq> [] \<Longrightarrow> \<exists>r. nea3_apply_ciphering key bearer dir msg cnt = Inr r"
  by (simp_all add: nea1_apply_ciphering_def nea2_apply_ciphering_def nea3_apply_ciphering_def security_nea1_eq security_nea3_eq split: option.split)

lemma engine_cipher_total:
  assumes "off < length buf"
  shows "\<exists>r. engine_cipher eng buf off cnt = Inr r"
proof (cases eng)
  case (Some c)
  have "drop off buf \<noteq> []"
    using assms by simp
  note t = nea_apply_total(1,3) [OF this] nea_apply_total(2) [where msg = "drop off buf"]
  have "\<exists>r. (case c of ciphering_engine_nea1 key bearer dir \<Rightarrow> nea1_apply_ciphering key bearer dir (drop off buf) cnt
      | ciphering_engine_nea2 ctx bearer dir \<Rightarrow> nea2_apply_ciphering ctx bearer dir (drop off buf) cnt
      | ciphering_engine_nea3 key bearer dir \<Rightarrow> nea3_apply_ciphering key bearer dir (drop off buf) cnt) = Inr r"
    using t by (cases c) simp_all
  then show ?thesis
    using assms by (auto simp: engine_cipher_def apply_ciphering_def Some)
qed (simp add: engine_cipher_def)

subsection \<open>NIA2 is AES-CMAC\<close>

text \<open>The reference: doubling in the field of 128-bit blocks, and the chain of blocks, the last of which is padded.\<close>

definition gf128_double :: "128 word \<Rightarrow> 128 word" where
  "gf128_double w = (if bit w 127 then push_bit 1 w XOR 0x87 else push_bit 1 w)"

definition block_of_word :: "128 word \<Rightarrow> byte list" where
  "block_of_word w = map (\<lambda>i. ucast (drop_bit (8 * (15 - i)) w)) [0..<16]"

function cmac_chain :: "(byte list \<Rightarrow> byte list) \<Rightarrow> byte list \<Rightarrow> byte list \<Rightarrow> byte list \<Rightarrow> byte list \<Rightarrow> byte list" where
  "cmac_chain aes k1 k2 t m =
     (if 16 < length m then cmac_chain aes k1 k2 (aes (map2 (XOR) t (take 16 m))) (drop 16 m)
      else if length m = 16 then aes (map2 (XOR) (map2 (XOR) t k1) m)
      else aes (map2 (XOR) (map2 (XOR) t k2) (m @ 0x80 # replicate (15 - length m) 0)))"
  by auto
termination
  by (relation "measure (\<lambda>(aes, k1, k2, t, m). length m)") auto

declare cmac_chain.simps [simp del]

definition aes_cmac :: "(byte list \<Rightarrow> byte list) \<Rightarrow> byte list \<Rightarrow> byte list" where
  "aes_cmac aes m =
     (let l = word_rcat (aes (replicate 16 0)); k1 = gf128_double l; k2 = gf128_double k1
      in cmac_chain aes (block_of_word k1) (block_of_word k2) (replicate 16 0) m)"

lemma nth_block_of_word: "j < 16 \<Longrightarrow> block_of_word w ! j = ucast (drop_bit (8 * (15 - j)) w)"
  by (simp add: block_of_word_def)

lemma length_subkey [simp]: "length (nia2_subkey l) = 16" "length (block_of_word w) = 16"
  by (simp_all add: nia2_subkey_def block_of_word_def Let_def)

lemma bit_rcat16:
  assumes "length l = 16" "n < 128"
  shows "bit (word_rcat (l :: byte list) :: 128 word) n \<longleftrightarrow> bit (l ! (15 - n div 8)) (n mod 8)"
proof -
  have "n div 8 < 16"
    using assms(2) by (simp add: less_mult_imp_div_less)
  then show ?thesis
    using assms by (simp add: word_rcat_def bit_word_of_int_iff bit_horner_sum_uint_exp_iff [where 'a = 8, simplified] rev_nth)
qed

lemma rcat_block_of_word: "word_rcat (block_of_word w) = (w :: 128 word)"
proof (rule bit_word_eqI)
  fix n
  assume n: "n < LENGTH(128)"
  have "8 * (n div 8) + n mod 8 = n" "n div 8 \<le> 15" "n mod 8 < 8"
    using n by (simp_all add: less_Suc_eq_le [symmetric] less_mult_imp_div_less)
  moreover have "bit (word_rcat (block_of_word w) :: 128 word) n = bit (block_of_word w ! (15 - n div 8)) (n mod 8)"
    using n by (intro bit_rcat16) simp_all
  moreover have "bit (block_of_word w ! j) k \<longleftrightarrow> k < 8 \<and> bit w (8 * (15 - j) + k)" if "j < 16" for j k
    using that by (auto simp: nth_block_of_word bit_simps)
  ultimately show "bit (word_rcat (block_of_word w) :: 128 word) n = bit w n"
    by simp
qed

lemma block_of_word_rcat:
  assumes "length l = 16"
  shows "block_of_word (word_rcat l) = l"
proof (rule nth_equalityI)
  fix j
  assume "j < length (block_of_word (word_rcat l))"
  then have j: "j < 16"
    by simp
  show "block_of_word (word_rcat l) ! j = l ! j"
  proof (rule bit_word_eqI)
    fix k
    assume k: "k < LENGTH(8)"
    have "(8 * (15 - j) + k) div 8 = 15 - j" "(8 * (15 - j) + k) mod 8 = k" "8 * (15 - j) + k < 128" "15 - (15 - j) = j"
      using j k by (simp_all add: div_mult_self4)
    then show "bit (block_of_word (word_rcat l) ! j) k = bit (l ! j) k"
      using j k bit_rcat16 [OF assms, of "8 * (15 - j) + k"] by (simp add: nth_block_of_word bit_simps add.commute)
  qed
qed (simp add: assms)

lemma bit_shl1: "bit (push_bit 1 w) n \<longleftrightarrow> 0 < n \<and> n < LENGTH('a) \<and> bit w (n - 1)" for w :: "'a :: len word"
  unfolding bit_push_bit_iff using bit_imp_le_length [of w "n - 1"] by (auto simp: Suc_le_eq)

lemma byte_top_bit: "b AND 0x80 \<noteq> 0 \<longleftrightarrow> bit b 7" for b :: byte
proof -
  have "(0x80 :: byte) = push_bit 7 1"
    by simp
  then show ?thesis
    by (metis and_exp_eq_0_iff_not_bit push_bit_of_1)
qed

lemma bit_0x87: "bit (0x87 :: byte) k \<longleftrightarrow> k \<in> {0, 1, 2, 7}" "bit (0x87 :: 128 word) k \<longleftrightarrow> k \<in> {0, 1, 2, 7}"
proof -
  have small: "list_all (\<lambda>k. bit (0x87 :: byte) k = (k \<in> {0, 1, 2, 7})) [0..<8]" "list_all (\<lambda>k. bit (0x87 :: 128 word) k = (k \<in> {0, 1, 2, 7})) [0..<8]"
    by code_simp+
  have large: "\<not> bit (0x87 :: byte) k" "\<not> bit (0x87 :: 128 word) k" "k \<notin> {0, 1, 2, 7}" if "\<not> k < 8"
    using that bit_small [of "0x87 :: byte" 8 k] bit_small [of "0x87 :: 128 word" 8 k] by auto
  show "bit (0x87 :: byte) k \<longleftrightarrow> k \<in> {0, 1, 2, 7}" "bit (0x87 :: 128 word) k \<longleftrightarrow> k \<in> {0, 1, 2, 7}"
    using small [unfolded list_all_iff set_upt, THEN bspec, of k] large by (cases "k < 8"; simp only: simp_thms atLeastLessThan_iff)+
qed

lemma nth_subkey:
  assumes "j < 16"
  shows "nia2_subkey l ! j = (if j < 15 then push_bit 1 (l ! j) OR (drop_bit 7 (l ! (j + 1)) AND 1)
    else if bit (l ! 0) 7 then push_bit 1 (l ! 15) XOR 0x87 else push_bit 1 (l ! 15))"
proof (cases "j = 15")
  case False
  then show ?thesis
    using assms by (simp add: nia2_subkey_def Let_def nth_append)
qed (simp add: nia2_subkey_def Let_def nth_append byte_top_bit)

lemma subkey_double:
  assumes "length l = 16"
  shows "nia2_subkey l = block_of_word (gf128_double (word_rcat l))"
proof -
  have "word_rcat (nia2_subkey l) = gf128_double (word_rcat l)"
  proof (rule bit_word_eqI)
    fix n
    assume n: "n < LENGTH(128)"
    have L: "bit (word_rcat (nia2_subkey l) :: 128 word) n = bit (nia2_subkey l ! (15 - n div 8)) (n mod 8)"
      using n by (simp add: bit_rcat16)
    have w: "bit (word_rcat l :: 128 word) 127 = bit (l ! 0) 7"
      using bit_rcat16 [OF assms, of 127] by simp
    have R: "bit (gf128_double (word_rcat l)) n \<longleftrightarrow>
        (0 < n \<and> bit (l ! (15 - (n - 1) div 8)) ((n - 1) mod 8)) \<noteq> (bit (l ! 0) 7 \<and> n \<in> {0, 1, 2, 7})"
      unfolding gf128_double_def w using n bit_rcat16 [OF assms, of "n - 1"]
      by (cases "bit (l ! 0) 7") (simp_all only: if_True if_False bit_xor_iff bit_shl1 bit_0x87, auto)
    show "bit (word_rcat (nia2_subkey l) :: 128 word) n = bit (gf128_double (word_rcat l)) n"
    proof (cases "n < 8")
      case True
      then have "(n - 1) div 8 = 0" "(n - 1) mod 8 = n - 1" "n div 8 = 0" "n mod 8 = n"
        by simp_all
      moreover have "bit (nia2_subkey l ! 15) n \<longleftrightarrow> (0 < n \<and> bit (l ! 15) (n - 1)) \<noteq> (bit (l ! 0) 7 \<and> n \<in> {0, 1, 2, 7})"
      proof -
        have "nia2_subkey l ! 15 = (if bit (l ! 0) 7 then push_bit 1 (l ! 15) XOR 0x87 else push_bit 1 (l ! 15))"
          using nth_subkey [of 15 l] by (simp only: less_irrefl if_False)
        then show ?thesis
          using True by (cases "bit (l ! 0) 7") (simp_all only: if_True if_False bit_xor_iff bit_shl1 bit_0x87, auto)
      qed
      ultimately show ?thesis
        unfolding L R by simp
    next
      case False
      define q r where "q = n div 8" "r = n mod 8"
      have n8: "n = 8 * q + r" "r < 8" "0 < q" "q < 16"
        using False n by (simp_all add: q_r_def less_mult_imp_div_less div_greater_zero_iff)
      have "(n - 1) div 8 = (if r = 0 then q - 1 else q)" "(n - 1) mod 8 = (if r = 0 then 7 else r - 1)"
        using n8 by (cases r; cases q; simp add: div_nat_eqI mod_nat_eqI)+
      moreover have "bit (nia2_subkey l ! (15 - q)) r \<longleftrightarrow> (0 < r \<and> bit (l ! (15 - q)) (r - 1)) \<or> (r = 0 \<and> bit (l ! (16 - q)) 7)"
      proof -
        have "nia2_subkey l ! (15 - q) = push_bit 1 (l ! (15 - q)) OR (drop_bit 7 (l ! (16 - q)) AND 1)"
          using nth_subkey [of "15 - q" l] n8 Suc_diff_le [of q 15] by simp
        moreover have "bit (drop_bit 7 (l ! (16 - q)) AND 1) r \<longleftrightarrow> r = 0 \<and> bit (l ! (16 - q)) 7"
          by (auto simp: bit_simps)
        ultimately show ?thesis
          using n8(2) by (simp only: bit_or_iff bit_shl1) simp
      qed
      moreover have "n \<notin> {0, 1, 2, 7}" "15 - (q - 1) = 16 - q" "0 < n"
        using n8 False by auto
      ultimately show ?thesis
        unfolding L R q_r_def [symmetric] by auto
    qed
  qed
  then show ?thesis
    using block_of_word_rcat [of "nia2_subkey l"] by simp
qed

lemma xor_block_eq:
  assumes "length t = 16" "i * 16 + 16 \<le> length M"
  shows "xor_block t M i = map2 (XOR) t (take 16 (drop (i * 16) M))"
  by (rule nth_equalityI) (use assms in \<open>simp_all add: xor_block_def\<close>)

text \<open>The last block, complete or padded, and the blocks before it.\<close>

definition cmac_last :: "(byte list \<Rightarrow> byte list) \<Rightarrow> byte list \<Rightarrow> byte list \<Rightarrow> byte list \<Rightarrow> byte list \<Rightarrow> byte list" where
  "cmac_last aes k1 k2 t m = (if length m = 16 then aes (map2 (XOR) (map2 (XOR) t k1) m)
     else aes (map2 (XOR) (map2 (XOR) t k2) (m @ 0x80 # replicate (15 - length m) 0)))"

lemma cmac_chain_fold:
  assumes aes: "\<And>b. length (aes b) = 16" and "length t = 16" "i \<le> k" "16 * k < length m" "length m \<le> 16 * k + 16"
  shows "cmac_chain aes k1 k2 t (drop (16 * i) m) =
    cmac_last aes k1 k2 (fold (\<lambda>i t. aes (xor_block t (m @ z) i)) [i..<k] t) (drop (16 * k) m)"
  using assms(2-)
proof (induction "k - i" arbitrary: i t)
  case 0
  then have "i = k" "length (drop (16 * k) m) \<le> 16"
    by auto
  then show ?case
    by (subst cmac_chain.simps) (simp add: cmac_last_def)
next
  case (Suc n)
  then have i: "i < k" "16 * i + 16 < length m"
    by linarith+
  have "xor_block t (m @ z) i = map2 (XOR) t (take 16 (drop (16 * i) m))"
    using xor_block_eq [of t i "m @ z"] i Suc.prems(1) by (simp add: mult.commute)
  moreover have "cmac_chain aes k1 k2 (aes (map2 (XOR) t (take 16 (drop (16 * i) m)))) (drop (16 * Suc i) m) =
      cmac_last aes k1 k2 (fold (\<lambda>i t. aes (xor_block t (m @ z) i)) [Suc i..<k] (aes (map2 (XOR) t (take 16 (drop (16 * i) m))))) (drop (16 * k) m)"
    using Suc aes i by (intro Suc.hyps(1)) simp_all
  moreover have "16 < length (drop (16 * i) m)"
    using i by simp
  ultimately show ?case
    using i by (subst cmac_chain.simps) (simp add: upt_conv_Cons add.commute del: length_drop)
qed

text \<open>The bit that the code sets behind the message is the padding.\<close>

lemma nia2_padding:
  assumes "16 * k < length m" "length m < 16 * k + 16"
  shows "take 16 (drop (16 * k) ((m @ replicate 16 0)[length m := (m @ replicate 16 0) ! length m OR 0x80])) =
    drop (16 * k) m @ 0x80 # replicate (15 - length (drop (16 * k) m)) (0 :: byte)"
proof (rule nth_equalityI)
  fix j
  assume "j < length (take 16 (drop (16 * k) ((m @ replicate 16 0)[length m := (m @ replicate 16 0) ! length m OR (0x80 :: byte)])))"
  then have j: "j < 16"
    by simp
  consider "16 * k + j < length m" | "16 * k + j = length m" | "length m < 16 * k + j"
    by linarith
  then show "take 16 (drop (16 * k) ((m @ replicate 16 0)[length m := (m @ replicate 16 0) ! length m OR 0x80])) ! j =
      (drop (16 * k) m @ 0x80 # replicate (15 - length (drop (16 * k) m)) 0) ! j"
    using j assms by cases (auto simp: nth_append nth_list_update nth_Cons' split: if_splits)
qed (use assms in auto)

lemma non_cmac_is_cmac:
  assumes aes: "\<And>b. length (aes b) = 16" and "length v + 24 \<le> sec_max_pdu_size" "length k1 = 16" "length k2 = 16"
  shows "non_cmac_compute_mac aes k1 k2 bearer dir v cnt =
    Inr (take 4 (cmac_chain aes k1 k2 (replicate 16 0) (nia2_preamble cnt bearer dir @ v)))"
proof -
  define m k where "m = nia2_preamble cnt bearer dir @ v" and "k = (length v + 7) div 16"
  have len: "length m = length v + 8" "16 * k < length m" "length m \<le> 16 * k + 16"
    by (simp_all add: m_def k_def)
  have n: "(length v + 8 + 15) div 16 - 1 = k"
    by (simp add: k_def)
  define t where "t = fold (\<lambda>i t. aes (xor_block t (m @ replicate 16 0) i)) [0..<k] (replicate 16 0)"
  have t: "length t = 16"
    using aes by (cases k) (simp_all add: t_def)
  have chain: "cmac_chain aes k1 k2 (replicate 16 0) m = cmac_last aes k1 k2 t (drop (16 * k) m)"
    using cmac_chain_fold [OF aes, where t = "replicate 16 0" and i = 0 and k = k and m = m and z = "replicate 16 0"] len by (simp add: t_def)
  have M: "nia2_preamble cnt bearer dir @ v @ replicate 16 0 = m @ replicate 16 0"
    by (simp add: m_def)
  have run: "non_cmac_compute_mac aes k1 k2 bearer dir v cnt =
      (let r = (8 * length v + 64) mod 128; at = k * 16 + (15 - (128 - r - 1) div 8); M = m @ replicate 16 0
       in Inr (take 4 (aes (if r = 0 then xor_block (map2 (XOR) t k1) M k
            else xor_block (map2 (XOR) t k2) (M[at := M ! at OR push_bit ((128 - r - 1) mod 8) 1]) k))))"
    unfolding non_cmac_compute_mac_def M n Let_def t_def using assms(2) by (simp del: append_assoc)
  show ?thesis
  proof (cases "(8 * length v + 64) mod 128 = 0")
    case True
    then have "length (drop (16 * k) m) = 16"
      unfolding length_drop len(1) k_def by presburger
    then show ?thesis
      using assms(2,3) True len t chain n xor_block_eq [of "map2 (XOR) t k1" k "m @ replicate 16 0"]
      unfolding run m_def [symmetric] by (simp add: cmac_last_def mult.commute)
  next
    case False
    define s where "s = (length v + 8) mod 16"
    have r: "(8 * length v + 64) mod 128 = 8 * s"
      using mult_mod_right [of 8 "length v + 8" 16] by (simp add: s_def add.commute)
    have s: "0 < s" "s < 16"
      using False r by (simp_all add: s_def)
    have m: "length m = 16 * k + s"
    proof -
      have "16 * ((length v + 8) div 16) + s = length v + 8"
        by (simp add: s_def)
      then have "k = (length v + 8) div 16"
        unfolding k_def using s by (intro div_nat_eqI) simp_all
      then show ?thesis
        using \<open>16 * ((length v + 8) div 16) + s = length v + 8\<close> len(1) by simp
    qed
    have pad: "(128 - 8 * s - 1) mod 8 = 7" "15 - (128 - 8 * s - 1) div 8 = s" "k * 16 + s = length m"
    proof -
      have "128 - 8 * s - 1 = 8 * (15 - s) + 7"
        using s by simp
      then show "(128 - 8 * s - 1) mod 8 = 7" "15 - (128 - 8 * s - 1) div 8 = s"
        using s by simp_all
      show "k * 16 + s = length m"
        using m by simp
    qed
    have "xor_block (map2 (XOR) t k2) ((m @ replicate 16 0)[length m := (m @ replicate 16 0) ! length m OR 0x80]) k =
        map2 (XOR) (map2 (XOR) t k2) (drop (16 * k) m @ 0x80 # replicate (15 - length (drop (16 * k) m)) 0)"
      using xor_block_eq [of "map2 (XOR) t k2" k "(m @ replicate 16 0)[length m := (m @ replicate 16 0) ! length m OR 0x80]"]
        nia2_padding [of k m] assms(4) t s m by (simp add: mult.commute)
    moreover have "push_bit 7 (1 :: byte) = 0x80"
      by simp
    moreover have "length (drop (16 * k) m) \<noteq> 16"
      using m s by simp
    ultimately show ?thesis
      unfolding run m_def [symmetric] chain Let_def r pad cmac_last_def using s by (simp only: mult_eq_0_iff) simp
  qed
qed

lemma security_nia2_non_cmac_eq:
  "security_nia2_non_cmac aes key cnt bearer dir v (8 * length v) =
     non_cmac_compute_mac (aes key) (nia2_subkey (aes key (replicate 16 0))) (nia2_subkey (nia2_subkey (aes key (replicate 16 0)))) bearer dir v cnt"
proof -
  have l: "(8 * length v + 7) div 8 = length v"
    by simp
  have M: "sec_preamble cnt @ [nia2_bearer_byte bearer dir] @ replicate 3 0 @ v @ replicate 16 0 =
      nia2_preamble cnt bearer dir @ v @ replicate 16 0"
    by (simp add: nia2_preamble_def)
  show ?thesis
    unfolding security_nia2_non_cmac_def non_cmac_compute_mac_def Let_def l take_all [OF order_refl] M by simp
qed

subsection \<open>Engines do not abort\<close>

lemma decrypt_ok:
  assumes "mbedtls_ok lib" "security_engine_new lib bearer cfg dir i c = Inr eng" "off < length buf" "length buf \<le> sec_max_pdu_size - 20"
  shows "succeeds (decrypt_and_verify_integrity lib eng buf off cnt) (\<lambda>r. \<forall>b. r = Inr b \<longrightarrow> length buf \<le> length b + sec_mac_len)"
proof -
  note ok = security_engine_new_ok [OF assms(1,2)]
  obtain r where r: "engine_cipher (cipher_eng eng) buf off cnt = Inr r"
    using engine_cipher_total [OF assms(3)] by blast
  show ?thesis
  proof (cases r)
    case (Inl err)
    then show ?thesis
      using r by (simp add: decrypt_and_verify_integrity_def sec_then_def)
  next
    case (Inr b)
    have len: "length b = length buf"
      using stream_cipher.crypt_keeps [OF engine_cipher_stream [OF ok(1)]] r Inr by auto
    have "succeeds (engine_verify lib (integ_eng eng) b cnt) (\<lambda>r. \<forall>b. r = Inr b \<longrightarrow> length buf \<le> length b + sec_mac_len)"
    proof (cases "integ_eng eng")
      case None
      then show ?thesis
        using len by (simp add: engine_verify_def)
    next
      case (Some e)
      have "\<exists>m. compute_mac lib e (take (length b - sec_mac_len) b) cnt = Inr m" if "sec_mac_len < length b"
        using that assms(4) len ok(4) [OF Some] by (intro compute_mac_total) (auto simp: sec_mac_len_def sec_max_pdu_size_def)
      then show ?thesis
        using len by (cases "sec_mac_len < length b") (auto simp: engine_verify_def Some verify_integrity_def Let_def split: sum.split)
    qed
    then show ?thesis
      using r Inr by (simp add: decrypt_and_verify_integrity_def sec_then_def)
  qed
qed

lemma encrypt_ok:
  assumes "mbedtls_ok lib" "security_engine_new lib bearer cfg dir i c = Inr eng" "off < length buf" "length buf + 24 \<le> sec_max_pdu_size"
  shows "succeeds (encrypt_and_protect_integrity lib eng buf off cnt) (\<lambda>r. \<forall>b. r = Inr b \<longrightarrow> length b \<le> length buf + sec_mac_len)"
proof -
  note ok = security_engine_new_ok [OF assms(1,2)]
  have "\<exists>r. engine_protect lib (integ_eng eng) buf cnt = Inr r"
  proof (cases "integ_eng eng")
    case (Some e)
    have "\<exists>m. compute_mac lib e buf cnt = Inr m"
      using assms(3,4) ok(4) [OF Some] by (intro compute_mac_total) auto
    then show ?thesis
      by (auto simp: engine_protect_def Some protect_integrity_def)
  qed (simp add: engine_protect_def)
  then obtain r where r: "engine_protect lib (integ_eng eng) buf cnt = Inr r"
    by blast
  show ?thesis
  proof (cases r)
    case (Inl err)
    then show ?thesis
      using r by (simp add: encrypt_and_protect_integrity_def sec_then_def)
  next
    case (Inr b)
    then obtain mac where "b = buf @ mac" "length mac \<le> sec_mac_len"
      using message_code.appends [OF engine_message_code [OF ok(2)]] r by blast
    moreover obtain r' where "engine_cipher (cipher_eng eng) b off cnt = Inr r'"
      using engine_cipher_total [of off b "cipher_eng eng" cnt] assms(3) calculation by auto
    ultimately show ?thesis
      using r Inr stream_cipher.crypt_keeps [OF engine_cipher_stream [OF ok(1)], of b off cnt]
      by (auto simp: encrypt_and_protect_integrity_def sec_then_def)
  qed
qed

subsection \<open>Properties\<close>

text \<open>C7. An engine accepts exactly what an engine with the same configuration generates, for every choice of algorithms:
  deciphering and verification of a PDU returns a message if and only if ciphering and protection of that message
  gives that PDU, and with integrity protection the message is not empty. So what is sent is recovered, and a
  PDU with any other message code is not accepted.\<close>

theorem security_engine_exact:
  assumes "mbedtls_ok lib" "security_engine_new lib bearer cfg dir i c = Inr eng"
  shows "decrypt_and_verify_integrity lib eng pdu off cnt = Inr (Inr buf) \<longleftrightarrow>
    encrypt_and_protect_integrity lib eng buf off cnt = Inr (Inr pdu) \<and> (i \<longrightarrow> buf \<noteq> [])"
  using security_engine_new_ok(3) [OF assms] secured.accepts_exactly [OF engine_secured [OF assms]]
  by (auto simp: decrypt_and_verify_integrity_def encrypt_and_protect_integrity_def integ_plain_def)

text \<open>A library that is easy to evaluate: a key stream of one byte and a block cipher that rotates.\<close>

definition demo_mbedtls :: mbedtls where
  "demo_mbedtls = \<lparr>mbed_ctr = \<lambda>key. Some (\<lambda>nonce msg. Some (stream_xor (\<lambda>i. hd key) (length msg) msg)),
     mbed_ecb = \<lambda>key b. take 16 (tl b @ key @ replicate 16 0), mbed_cmac = None\<rparr>"

definition demo_sec_cfg :: sec_128_as_config where
  "demo_sec_cfg = \<lparr>sec_dom = sec_up, k_128_int = Some (replicate 16 1), k_128_enc = replicate 16 0x5a, integ_algo = Some nia2, cipher_algo = nea2\<rparr>"

lemma demo_mbedtls_ok: "mbedtls_ok demo_mbedtls"
  by (auto simp: mbedtls_ok_def demo_mbedtls_def ctr_ok_def)

theorem security_engine_exact_witness:
  "\<exists>eng pdu. security_engine_new demo_mbedtls 1 demo_sec_cfg sec_downlink True True = Inr eng \<and>
     encrypt_and_protect_integrity demo_mbedtls eng [0x80, 0, 7, 8, 9] 2 0 = Inr (Inr pdu) \<and>
     decrypt_and_verify_integrity demo_mbedtls eng pdu 2 0 = Inr (Inr [0x80, 0, 7, 8, 9])"
proof -
  obtain eng where eng: "security_engine_new demo_mbedtls 1 demo_sec_cfg sec_downlink True True = Inr eng"
    by (simp add: security_engine_new_def integrity_engine_new_def ciphering_engine_new_def ciphering_engine_nea2_new_def
        demo_mbedtls_def demo_sec_cfg_def)
  have "\<exists>pdu. encrypt_and_protect_integrity demo_mbedtls eng [0x80, 0, 7, 8, 9] 2 0 = Inr (Inr pdu)"
    using eng by (auto simp: security_engine_new_def integrity_engine_new_def ciphering_engine_new_def ciphering_engine_nea2_new_def
        integrity_engine_nia2_non_cmac_new_def demo_mbedtls_def demo_sec_cfg_def encrypt_and_protect_integrity_def sec_then_def engine_protect_def
        protect_integrity_def compute_mac_def non_cmac_compute_mac_def engine_cipher_def apply_ciphering_def nea2_apply_ciphering_def
        sec_max_pdu_size_def Let_def)
  then show ?thesis
    using eng security_engine_exact [OF demo_mbedtls_ok eng] by blast
qed

text \<open>C15. The engine for NIA2 without CMAC support in the library computes the first four bytes of the AES-CMAC of the eight
  bytes of COUNT, bearer and direction and the message, for all messages that fit its buffer, and so does the
  function of \<^verbatim>\<open>integrity.h\<close>; longer messages abort the process.\<close>

theorem nia2_is_cmac:
  assumes "mbedtls_ok lib"
  shows "compute_mac lib (integrity_engine_nia2_non_cmac_new lib key bearer dir) v cnt =
      (if length v + 24 \<le> sec_max_pdu_size
       then Inr (Inr (take 4 (aes_cmac (mbed_ecb lib key) (nia2_preamble cnt bearer dir @ v)))) else Inl Assertion_Failed) \<and>
    security_nia2_non_cmac (mbed_ecb lib) key cnt bearer dir v (8 * length v) =
      (if length v + 24 \<le> sec_max_pdu_size
       then Inr (take 4 (aes_cmac (mbed_ecb lib key) (nia2_preamble cnt bearer dir @ v))) else Inl Assertion_Failed)"
proof -
  let ?aes = "mbed_ecb lib key"
  have aes: "length (?aes b) = 16" for b
    using assms by (simp add: mbedtls_ok_def)
  let ?l = "?aes (replicate 16 0)"
  have keys: "nia2_subkey ?l = block_of_word (gf128_double (word_rcat ?l))"
      "nia2_subkey (nia2_subkey ?l) = block_of_word (gf128_double (gf128_double (word_rcat ?l)))"
    using subkey_double [OF aes] subkey_double [of "nia2_subkey ?l"] by (simp_all add: rcat_block_of_word)
  have "non_cmac_compute_mac ?aes (nia2_subkey ?l) (nia2_subkey (nia2_subkey ?l)) bearer dir v cnt =
      (if length v + 24 \<le> sec_max_pdu_size then Inr (take 4 (aes_cmac ?aes (nia2_preamble cnt bearer dir @ v))) else Inl Assertion_Failed)"
    using non_cmac_is_cmac [OF aes, where v = v and ?k1.0 = "nia2_subkey ?l" and ?k2.0 = "nia2_subkey (nia2_subkey ?l)"]
    by (auto simp: aes_cmac_def Let_def keys [symmetric] simp del: append_assoc) (simp add: non_cmac_compute_mac_def)
  then show ?thesis
    by (simp add: compute_mac_def integrity_engine_nia2_non_cmac_new_def Let_def security_nia2_non_cmac_eq)
qed

theorem nia2_is_cmac_witness:
  "security_nia2_non_cmac (mbed_ecb demo_mbedtls) (replicate 16 1) 0 1 sec_downlink [7, 8, 9] 24 =
     Inr (take 4 (aes_cmac (mbed_ecb demo_mbedtls (replicate 16 1)) (nia2_preamble 0 1 sec_downlink @ [7, 8, 9])))"
  using nia2_is_cmac [OF demo_mbedtls_ok, of "replicate 16 1" 1 sec_downlink "[7, 8, 9]" 0] by (simp add: sec_max_pdu_size_def)

end
