(* ===== verification/Pdcp_Link.thy ===== *)
theory Pdcp_Link
  imports Pdcp_Tx_Correct Sec_Engine
begin

text \<open>
  A PDCP bearer from end to end: the transmitting entity with the engine that ciphers and protects, the receiving entity
  with the engine that deciphers and verifies, and PDUs that are lost, repeated and reordered in between. The protection
  is an interface, \<open>secure_pair\<close>; every engine that can be constructed provides it.
\<close>

subsection \<open>PDUs carry their SDUs\<close>

text \<open>The same bearer on both sides.\<close>

definition pdcp_peers :: "pdcp_tx_config \<Rightarrow> pdcp_rx_config \<Rightarrow> bool" where
  "pdcp_peers tx rx \<longleftrightarrow> tx_rb_type tx = rx_rb_type rx \<and> tx_sn_size tx = rx_sn_size rx \<and> tx_direction tx = rx_direction rx \<and>
     tx_max_count_hard tx \<le> max_count_hard rx \<and> t_cfg_ok tx \<and> p_cfg_ok rx \<and> rx_t_reordering rx \<noteq> reord_ms 0"

lemma pdcp_header_kept:
  assumes "t_cfg_ok cfg" "take (pdcp_hdr_len (tx_sn_size cfg)) pdu = pdcp_header_bytes (tx_rb_type cfg = rb_srb) (tx_sn_size cfg) (pdcp_compute_sn c (tx_sn_size cfg))"
    and "pdcp_hdr_len (tx_sn_size cfg) < length pdu"
  shows "pdcp_read_data_pdu_header (tx_sn_size cfg) pdu = Some (pdcp_compute_sn c (tx_sn_size cfg))"
    "tx_rb_type cfg = rb_srb \<or> pdcp_pdu_get_dc (hd pdu) = dc_data"
proof -
  let ?sz = "tx_sn_size cfg" and ?srb = "tx_rb_type cfg = rb_srb"
  let ?sn = "pdcp_compute_sn c ?sz"
  have sz: "?sz \<noteq> pdcp_size_invalid" "\<not> (?srb \<and> ?sz = pdcp_size18bits)"
    using assms(1) by (auto simp: t_cfg_ok_def)
  have pdu: "pdu = pdcp_header_bytes ?srb ?sz ?sn @ drop (pdcp_hdr_len ?sz) pdu" "drop (pdcp_hdr_len ?sz) pdu \<noteq> []"
    using assms(2,3) append_take_drop_id [of "pdcp_hdr_len ?sz" pdu] by simp_all
  have "int (unat ?sn) < int (2 ^ pdcp_sn_size_to_uint ?sz)"
    using uint_compute_sn [OF sz(1), of c] by simp
  then have "unat ?sn < 2 ^ pdcp_sn_size_to_uint ?sz"
    by (simp only: of_nat_less_iff)
  then show "pdcp_read_data_pdu_header ?sz pdu = Some ?sn"
    using pdcp_read_header_bytes [OF pdu(2) sz(1)] pdu(1) by metis
  show "?srb \<or> pdcp_pdu_get_dc (hd pdu) = dc_data"
    using pdcp_header_bytes_shape [OF sz, of ?sn] pdu(1) by (metis hd_append2)
qed

text \<open>Protection that the receiver undoes and that leaves the header readable.\<close>

locale secure_pair =
  fixes protect unprotect :: security_fun
  assumes undone: "protect buf h cnt = Inr (Inr p) \<Longrightarrow> h < length buf \<Longrightarrow> unprotect p h cnt = Inr (Inr buf)"
    and keeps_header: "protect buf h cnt = Inr (Inr p) \<Longrightarrow> h < length buf \<Longrightarrow> length buf \<le> length p \<and> take h p = take h buf"
begin

lemma carries:
  assumes "t_sec_engine e = Some protect" "p_sec_engine r = Some unprotect" "pdcp_peers (t_cfg e) (p_cfg r)"
    and "t_sdu_ok sdu" "t_pdu e cnt sdu = Inr pdu"
  shows "pdcp_carries r cnt sdu pdu"
proof -
  let ?sz = "tx_sn_size (t_cfg e)"
  let ?hdr = "pdcp_header_bytes (t_is_srb e) ?sz (t_SN cnt e)"
  have cfg: "t_cfg_ok (t_cfg e)" "rx_sn_size (p_cfg r) = ?sz" "rx_rb_type (p_cfg r) = tx_rb_type (t_cfg e)"
    using assms(3) by (simp_all add: pdcp_peers_def)
  have len: "length ?hdr = pdcp_hdr_len ?sz" "pdcp_hdr_len ?sz < length (?hdr @ sdu)"
    using pdcp_header_bytes_shape(1) [of ?sz] cfg(1) assms(4) by (auto simp: t_cfg_ok_def t_sdu_ok_def)
  obtain v where v: "protect (?hdr @ sdu) (pdcp_hdr_len ?sz) cnt = Inr v" "(case v of Inl err \<Rightarrow> Inl Runtime_Error | Inr b \<Rightarrow> Inr b) = Inr pdu"
    using assms(1,5) by (auto simp: t_pdu_def apply_ciphering_and_integrity_protection_def pdcp_hdr_len_def rbind_eq_Inr)
  then have p: "protect (?hdr @ sdu) (pdcp_hdr_len ?sz) cnt = Inr (Inr pdu)"
    by (cases v) simp_all
  have u: "unprotect pdu (pdcp_hdr_len ?sz) cnt = Inr (Inr (?hdr @ sdu))"
    using undone [OF p len(2)] .
  have k: "take (pdcp_hdr_len ?sz) pdu = ?hdr" "pdcp_hdr_len ?sz < length pdu"
    using keeps_header [OF p len(2)] len by (simp_all del: length_append add: length_append [symmetric])
  obtain x where "apply_deciphering_and_integrity_check pdu cnt r = Inr (Some (?hdr @ sdu), x)"
    using u cfg(2) assms(2) by (simp add: apply_deciphering_and_integrity_check_def pdcp_hdr_len_def p_security_verdict_def)
  then show ?thesis
    using pdcp_header_kept [OF cfg(1) k] len unfolding pdcp_carries_def cfg(2,3) by (auto simp: len(1))
qed

end

lemma carries_unsecured:
  assumes "t_sec_engine e = None" "p_sec_engine r = None" "pdcp_peers (t_cfg e) (p_cfg r)"
    and "t_sdu_ok sdu" "t_pdu e cnt sdu = Inr pdu"
  shows "pdcp_carries r cnt sdu pdu"
proof -
  let ?sz = "tx_sn_size (t_cfg e)"
  let ?hdr = "pdcp_header_bytes (t_is_srb e) ?sz (t_SN cnt e)"
  have cfg: "t_cfg_ok (t_cfg e)" "rx_sn_size (p_cfg r) = ?sz" "rx_rb_type (p_cfg r) = tx_rb_type (t_cfg e)"
    using assms(3) by (simp_all add: pdcp_peers_def)
  have len: "length ?hdr = pdcp_hdr_len ?sz" "sdu \<noteq> []"
    using pdcp_header_bytes_shape(1) [of ?sz] cfg(1) assms(4) by (auto simp: t_cfg_ok_def t_sdu_ok_def)
  have p: "pdu = ?hdr @ sdu @ (if t_is_srb e then replicate sec_mac_len 0 else [])"
    using assms(1,5) by (auto simp: t_pdu_def apply_ciphering_and_integrity_protection_def split: if_splits)
  then have k: "take (pdcp_hdr_len ?sz) pdu = ?hdr" "pdcp_hdr_len ?sz < length pdu"
    using len by simp_all
  have "apply_deciphering_and_integrity_check pdu cnt r = Inr (Some (?hdr @ sdu), r)"
    using p len cfg(3) assms(2) by (auto simp: apply_deciphering_and_integrity_check_def)
  then show ?thesis
    using pdcp_header_kept [OF cfg(1) k] len unfolding pdcp_carries_def cfg(2,3) by (auto simp: len(1))
qed

subsection \<open>The engines of the two sides\<close>

definition pdcp_tx_engine :: "mbedtls \<Rightarrow> byte \<Rightarrow> sec_128_as_config \<Rightarrow> security_direction \<Rightarrow> bool \<Rightarrow> bool \<Rightarrow> security_fun result" where
  "pdcp_tx_engine lib bearer sec dir i c =
     rbind (security_engine_new lib bearer sec dir i c) (\<lambda>eng. Inr (encrypt_and_protect_integrity lib eng))"

definition pdcp_rx_engine :: "mbedtls \<Rightarrow> byte \<Rightarrow> sec_128_as_config \<Rightarrow> security_direction \<Rightarrow> bool \<Rightarrow> bool \<Rightarrow> security_fun result" where
  "pdcp_rx_engine lib bearer sec dir i c =
     rbind (security_engine_new lib bearer sec dir i c) (\<lambda>eng. Inr (decrypt_and_verify_integrity lib eng))"

lemma engine_pair:
  assumes "mbedtls_ok lib" "security_engine_new lib bearer sec dir i c = Inr eng"
  shows "secure_pair (encrypt_and_protect_integrity lib eng) (decrypt_and_verify_integrity lib eng)"
proof
  fix buf p :: "byte list" and h cnt
  assume p: "encrypt_and_protect_integrity lib eng buf h cnt = Inr (Inr p)" "h < length buf"
  note s = engine_secured [OF assms]
  have "integ_plain (integ_eng eng) buf"
    using p(2) by (auto simp: integ_plain_def)
  then show "decrypt_and_verify_integrity lib eng p h cnt = Inr (Inr buf)"
    using secured.accepts_exactly [OF s] p(1) by (simp add: decrypt_and_verify_integrity_def encrypt_and_protect_integrity_def)
  show "length buf \<le> length p \<and> take h p = take h buf"
    using secured.secured_frame [OF s] p by (simp add: encrypt_and_protect_integrity_def)
qed

text \<open>With the stream ciphers SNOW 3G and ZUC nothing is assumed of a library.\<close>

definition snow_engine :: "sec_128_key \<Rightarrow> sec_128_key \<Rightarrow> byte \<Rightarrow> security_direction \<Rightarrow> security_engine_impl" where
  "snow_engine k_int k_enc bearer dir =
     \<lparr>integ_eng = Some (integrity_engine_generic k_int bearer dir nia1), cipher_eng = Some (ciphering_engine_nea1 k_enc bearer dir)\<rparr>"

interpretation snow_pair: secure_pair "encrypt_and_protect_integrity no_mbedtls (snow_engine k_int k_enc bearer dir)"
    "decrypt_and_verify_integrity no_mbedtls (snow_engine k_int k_enc bearer dir)" for k_int k_enc bearer dir
  by (rule engine_pair [OF no_mbedtls_ok, where bearer = bearer and dir = dir and i = True and c = True
        and sec = "\<lparr>sec_dom = sec_up, k_128_int = Some k_int, k_128_enc = k_enc, integ_algo = Some nia1, cipher_algo = nea1\<rparr>"])
    (simp add: security_engine_new_def integrity_engine_new_def ciphering_engine_new_def snow_engine_def)

subsection \<open>From one end to the other\<close>

lemma t_configure_sets:
  assumes "pdcp_tx_configure_security mk sec i c e = Inr e'" "\<not> (i \<and> (k_128_int sec = None \<or> integ_algo sec = None))"
  shows "\<exists>f. mk sec (tx_direction (t_cfg e)) i c = Inr f \<and>
    e' = e\<lparr>t_integrity_enabled := i, t_ciphering_enabled := c, t_sec_engine := Some f\<rparr>"
  using assms unfolding pdcp_tx_configure_security_def by (simp add: rbind_eq_Inr split: if_splits) blast+

lemma p_configure_sets:
  assumes "pdcp_configure_security mk sec i c e = Inr e'" "\<not> (i \<and> (k_128_int sec = None \<or> integ_algo sec = None))"
  shows "\<exists>f. mk sec (rx_direction (p_cfg e)) i c = Inr f \<and>
    e' = e\<lparr>p_integrity_enabled := i, p_ciphering_enabled := c, p_sec_engine := Some f\<rparr>"
  using assms unfolding pdcp_configure_security_def by (simp add: rbind_eq_Inr split: if_splits) blast+

lemma pdcp_engines_agree:
  assumes "mbedtls_ok lib" "t_sec_engine t0 = None" "p_sec_engine r0 = None" "pdcp_peers (t_cfg t0) (p_cfg r0)"
    and "pdcp_tx_configure_security (pdcp_tx_engine lib bearer) sec i c t0 = Inr t"
    and "pdcp_configure_security (pdcp_rx_engine lib bearer) sec i c r0 = Inr r"
    and "t_sdu_ok sdu" "t_pdu t cnt sdu = Inr pdu"
  shows "pdcp_carries r cnt sdu pdu"
proof (cases "i \<and> (k_128_int sec = None \<or> integ_algo sec = None)")
  case True
  then have "t = t0" "r = r0"
    using assms(5,6) by (auto simp: pdcp_tx_configure_security_def pdcp_configure_security_def split: if_splits)
  then show ?thesis
    using carries_unsecured [of t r sdu cnt pdu] assms by simp
next
  case False
  have dir: "rx_direction (p_cfg r0) = tx_direction (t_cfg t0)"
    using assms(4) by (simp add: pdcp_peers_def)
  obtain f g where f: "pdcp_tx_engine lib bearer sec (tx_direction (t_cfg t0)) i c = Inr f" "t_cfg t = t_cfg t0" "t_sec_engine t = Some f"
      and g: "pdcp_rx_engine lib bearer sec (tx_direction (t_cfg t0)) i c = Inr g" "p_cfg r = p_cfg r0" "p_sec_engine r = Some g"
    using t_configure_sets [OF assms(5) False] p_configure_sets [OF assms(6) False] dir by auto
  obtain eng where eng: "security_engine_new lib bearer sec (tx_direction (t_cfg t0)) i c = Inr eng" "f = encrypt_and_protect_integrity lib eng"
      "g = decrypt_and_verify_integrity lib eng"
    using f(1) g(1) by (auto simp: pdcp_tx_engine_def pdcp_rx_engine_def rbind_eq_Inr)
  then show ?thesis
    using assms(4,7,8) f g by (intro secure_pair.carries [OF engine_pair [OF assms(1) eng(1)], of t r]) simp_all
qed

lemma pdcp_receiver_starts:
  assumes "pdcp_entity_rx_new cfg = Inr r0" "p_cfg_ok cfg" "pdcp_configure_security mk sec i c r0 = Inr r"
  shows "p_got sdu (set []) r" "p_cfg r = cfg"
proof -
  have r: "r = r0 \<or> (\<exists>f. r = r0\<lparr>p_integrity_enabled := i, p_ciphering_enabled := c, p_sec_engine := Some f\<rparr>)"
    using assms(3) by (auto simp: pdcp_configure_security_def rbind_eq_Inr split: if_splits)
  have "rx_deliv r0 = 0" "p_sdus r0 = []" "cm_lookup (p_rx_window r0) = Map.empty"
    using assms(1) by (auto simp: pdcp_entity_rx_new_def cm_lookup_new pdcp_window_size_def split: if_splits)
  moreover have "pdcp_rx_inv r0" "p_cfg r0 = cfg"
    using pdcp_new_inv [OF assms(1,2)] by simp_all
  ultimately show "p_got sdu (set []) r" "p_cfg r = cfg"
    using r by (auto simp: p_got_def)
qed

text \<open>PDUs a transmitting entity handed down, in any order, any of them missing or repeated.\<close>

definition t_emitted :: "pdcp_entity_tx \<Rightarrow> (u32 \<times> byte list) list \<Rightarrow> bool" where
  "t_emitted e ps \<longleftrightarrow> set ps \<subseteq> (\<lambda>(c, pdu, is_retx). (c, pdu)) ` set (t_data e)"

lemma t_emitted_sent:
  assumes "t_sent sdus e" "t_emitted e ps" "(c, pdu) \<in> set ps"
  shows "unat c < length sdus" "t_pdu e c (sdus ! unat c) = Inr pdu" "t_sdu_ok (sdus ! unat c)"
proof -
  obtain is_retx where "(c, pdu, is_retx) \<in> set (t_data e)"
    using assms(2,3) by (auto simp: t_emitted_def)
  then show "unat c < length sdus" "t_pdu e c (sdus ! unat c) = Inr pdu" "t_sdu_ok (sdus ! unat c)"
    using assms(1) by (auto simp: t_sent_def list_all_length)
qed

lemma t_sent_carried:
  assumes "t_sent sdus e" "t_emitted e ps" "pdcp_peers (t_cfg e) (p_cfg r)"
    and "\<And>cnt sdu pdu. t_sdu_ok sdu \<Longrightarrow> t_pdu e cnt sdu = Inr pdu \<Longrightarrow> pdcp_carries r cnt sdu pdu"
  shows "\<forall>(c, pdu)\<in>set (map (\<lambda>(c, pdu). (unat c, pdu)) ps).
    c < unat (max_count_hard (p_cfg r)) \<and> pdcp_carries r (of_nat c) (sdus ! c) pdu"
proof -
  have "unat c < unat (max_count_hard (p_cfg r)) \<and> pdcp_carries r c (sdus ! unat c) pdu" if "(c, pdu) \<in> set ps" for c pdu
    using t_emitted_sent [OF assms(1,2) that] assms(1,3,4) by (auto simp: t_sent_def t_inv_def pdcp_peers_def word_le_nat_alt)
  then show ?thesis
    by auto
qed


text \<open>A link with SNOW 3G on both sides, and its first SDU.\<close>

definition snow_sec :: sec_128_as_config where
  "snow_sec = \<lparr>sec_dom = sec_up, k_128_int = Some (replicate 16 3), k_128_enc = replicate 16 5, integ_algo = Some nia1, cipher_algo = nea1\<rparr>"

lemma snow_protects: "t_engine_ok (encrypt_and_protect_integrity no_mbedtls \<lparr>integ_eng = i, cipher_eng = c\<rparr>)"
  if int: "i = None \<or> i = Some (integrity_engine_generic k1 b1 d1 a1)" and ciph: "c = None \<or> c = Some (ciphering_engine_nea1 k2 b2 d2)"
proof -
  let ?eng = "\<lparr>integ_eng = i, cipher_eng = c\<rparr>"
  have "\<exists>b. encrypt_and_protect_integrity no_mbedtls ?eng buf h cnt = Inr (Inr b)" if len: "h < length buf" "length buf + 24 \<le> sec_max_pdu_size" for buf h cnt
  proof -
    have "buf \<noteq> []"
      using that(1) by auto
    then have "integrity_engine_of no_mbedtls e \<Longrightarrow> \<exists>r. compute_mac no_mbedtls e buf cnt = Inr r" for e
      using that(2) by (intro compute_mac_total)
    then have "\<exists>mac. engine_protect no_mbedtls i buf cnt = Inr (Inr (buf @ mac))"
      using int of_generic [of no_mbedtls k1 b1 d1 a1]
      by (fastforce simp: engine_protect_def protect_integrity_def compute_mac_def rbind_eq_Inr exI [of _ "[]"])
    moreover have "\<exists>b. engine_cipher c (buf @ mac) h cnt = Inr (Inr b)" for mac
    proof -
      obtain m where "nea1_apply_ciphering k2 b2 d2 (drop h (buf @ mac)) cnt = Inr (Inr m)"
        using len(1) nea1_apply_ciphering_eq [of k2 b2 d2 "drop h (buf @ mac)" cnt] by auto
      then show ?thesis
        using that(1) ciph by (auto simp: engine_cipher_def apply_ciphering_def)
    qed
    ultimately show ?thesis
      by (auto simp: encrypt_and_protect_integrity_def sec_then_def)
  qed
  then show ?thesis
    by (simp add: t_engine_ok_def)
qed


end
