(* ===== verification/Sec_Keys.thy ===== *)
theory Sec_Keys
  imports Sec_Engine
begin

text \<open>
  The security context of \<^verbatim>\<open>lib/security/security.cpp\<close>: selection of the algorithms, derivation of the keys of a node and of
  the next node, the configurations of PDCP, and the short message code of \<^verbatim>\<open>integrity.h\<close>. The keyed hash of the
  library is a parameter. Inputs of the derivation are shown to be different for different purposes.
\<close>

subsection \<open>Numbers of the algorithms\<close>

fun integrity_number :: "integrity_algorithm \<Rightarrow> nat" where
  "integrity_number nia0 = 0"
| "integrity_number nia1 = 1"
| "integrity_number nia2 = 2"
| "integrity_number nia3 = 3"

definition integrity_algorithm_from_number :: "nat \<Rightarrow> integrity_algorithm result" where
  "integrity_algorithm_from_number n = (if n < 4 then Inr ([nia0, nia1, nia2, nia3] ! n) else Inl Assertion_Failed)"

fun ciphering_number :: "ciphering_algorithm \<Rightarrow> nat" where
  "ciphering_number nea0 = 0"
| "ciphering_number nea1 = 1"
| "ciphering_number nea2 = 2"
| "ciphering_number nea3 = 3"

definition ciphering_algorithm_from_number :: "nat \<Rightarrow> ciphering_algorithm result" where
  "ciphering_algorithm_from_number n = (if n < 4 then Inr ([nea0, nea1, nea2, nea3] ! n) else Inl Assertion_Failed)"

datatype fc_value = algorithm_key_derivation | k_ng_ran_star_derivation

fun fc_number :: "fc_value \<Rightarrow> byte" where
  "fc_number algorithm_key_derivation = 0x69"
| "fc_number k_ng_ran_star_derivation = 0x70"

datatype security_algo_distinguisher = rrc_enc_alg | rrc_int_alg | up_enc_alg | up_int_alg

fun distinguisher_number :: "security_algo_distinguisher \<Rightarrow> byte" where
  "distinguisher_number rrc_enc_alg = 0x03"
| "distinguisher_number rrc_int_alg = 0x04"
| "distinguisher_number up_enc_alg = 0x05"
| "distinguisher_number up_int_alg = 0x06"

subsection \<open>State\<close>

type_synonym sec_key = "byte list"

record sec_as_config =
  as_dom :: sec_domain
  as_k_int :: "sec_key option"
  as_k_enc :: sec_key
  as_integ_algo :: "integrity_algorithm option"
  as_cipher_algo :: ciphering_algorithm

record sec_selected_algos =
  algos_selected :: bool
  sel_integ_algo :: integrity_algorithm
  sel_cipher_algo :: ciphering_algorithm

record sec_as_keys =
  k_rrc_int :: sec_key
  k_rrc_enc :: sec_key
  k_up_int :: sec_key
  k_up_enc :: sec_key

text \<open>Support for the algorithms 1 to 3; that of algorithm 0 is implicit.\<close>

record security_context =
  sec_k :: sec_key
  supported_int_algos :: "bool list"
  supported_enc_algos :: "bool list"
  sel_algos :: sec_selected_algos
  as_keys :: sec_as_keys

subsection \<open>Selection of algorithms\<close>

text \<open>The loops end with the first algorithm that is supported; NIA0 ends the search without one, NEA0 is always supported.\<close>

primrec select_integrity :: "bool list \<Rightarrow> integrity_algorithm list \<Rightarrow> integrity_algorithm option result" where
  "select_integrity supported [] = Inr None"
| "select_integrity supported (a # as) =
     (if integrity_number a = 0 then Inr None
      else if supported ! (integrity_number a - 1)
      then rbind (integrity_algorithm_from_number (integrity_number a)) (\<lambda>algo. Inr (Some algo))
      else select_integrity supported as)"

primrec select_ciphering :: "bool list \<Rightarrow> ciphering_algorithm list \<Rightarrow> ciphering_algorithm option result" where
  "select_ciphering supported [] = Inr None"
| "select_ciphering supported (a # as) =
     (if ciphering_number a = 0 then Inr (Some nea0)
      else if supported ! (ciphering_number a - 1)
      then rbind (ciphering_algorithm_from_number (ciphering_number a)) (\<lambda>algo. Inr (Some algo))
      else select_ciphering supported as)"

definition select_algorithms ::
  "integrity_algorithm list \<Rightarrow> ciphering_algorithm list \<Rightarrow> security_context \<Rightarrow> (bool \<times> security_context) result" where
  "select_algorithms pref_inte_list pref_ciph_list ctx =
     rbind (select_integrity (supported_int_algos ctx) pref_inte_list) (\<lambda>inte.
     case inte of
       None \<Rightarrow> Inr (False, ctx)
     | Some i \<Rightarrow>
         let ctx1 = ctx\<lparr>sel_algos := (sel_algos ctx)\<lparr>sel_integ_algo := i\<rparr>\<rparr>
         in rbind (select_ciphering (supported_enc_algos ctx1) pref_ciph_list) (\<lambda>ciph.
            case ciph of
              None \<Rightarrow> Inr (False, ctx1)
            | Some c \<Rightarrow> Inr (True, ctx1\<lparr>sel_algos := (sel_algos ctx1)\<lparr>sel_cipher_algo := c, algos_selected := True\<rparr>\<rparr>)))"

subsection \<open>Derivation of keys\<close>

text \<open>A length of 16 bits in network order.\<close>

definition p_len :: "byte list \<Rightarrow> byte list" where
  "p_len p = (let n = of_nat (length p) :: u16 in [ucast (drop_bit 8 n), ucast n])"

definition kdf_input :: "fc_value \<Rightarrow> byte list \<Rightarrow> byte list \<Rightarrow> byte list" where
  "kdf_input fc p0 p1 = [fc_number fc] @ p0 @ p_len p0 @ p1 @ p_len p1"

definition generic_kdf :: "(byte list \<Rightarrow> byte list \<Rightarrow> byte list) \<Rightarrow> sec_key \<Rightarrow> fc_value \<Rightarrow> byte list \<Rightarrow> byte list \<Rightarrow> sec_key" where
  "generic_kdf sha256 key_in fc p0 p1 = sha256 key_in (kdf_input fc p0 p1)"

definition generate_k_rrc ::
  "(byte list \<Rightarrow> byte list \<Rightarrow> byte list) \<Rightarrow> sec_key \<Rightarrow> ciphering_algorithm \<Rightarrow> integrity_algorithm \<Rightarrow> sec_key \<times> sec_key" where
  "generate_k_rrc sha256 k_gnb enc_alg_id int_alg_id =
     (generic_kdf sha256 k_gnb algorithm_key_derivation [distinguisher_number rrc_enc_alg] [of_nat (ciphering_number enc_alg_id)],
      generic_kdf sha256 k_gnb algorithm_key_derivation [distinguisher_number rrc_int_alg] [of_nat (integrity_number int_alg_id)])"

definition generate_k_up ::
  "(byte list \<Rightarrow> byte list \<Rightarrow> byte list) \<Rightarrow> sec_key \<Rightarrow> ciphering_algorithm \<Rightarrow> integrity_algorithm \<Rightarrow> sec_key \<times> sec_key" where
  "generate_k_up sha256 k_gnb enc_alg_id int_alg_id =
     (generic_kdf sha256 k_gnb algorithm_key_derivation [distinguisher_number up_enc_alg] [of_nat (ciphering_number enc_alg_id)],
      generic_kdf sha256 k_gnb algorithm_key_derivation [distinguisher_number up_int_alg] [of_nat (integrity_number int_alg_id)])"

definition arfcn_bytes :: "u32 \<Rightarrow> byte list result" where
  "arfcn_bytes arfcn =
     (if unat arfcn < 2 ^ 16 then Inr [ucast (drop_bit 8 arfcn AND 0xff), ucast (arfcn AND 0xff)]
      else if unat arfcn < 2 ^ 24
      then Inr [ucast (drop_bit 16 arfcn AND 0xff), ucast (drop_bit 8 arfcn AND 0xff), ucast (arfcn AND 0xff)]
      else Inl Runtime_Error)"

definition generate_k_ng_ran_star :: "(byte list \<Rightarrow> byte list \<Rightarrow> byte list) \<Rightarrow> sec_key \<Rightarrow> u16 \<Rightarrow> u32 \<Rightarrow> sec_key result" where
  "generate_k_ng_ran_star sha256 k target_pci target_ssb_arfcn =
     rbind (arfcn_bytes target_ssb_arfcn) (\<lambda>arfcn.
     Inr (generic_kdf sha256 k k_ng_ran_star_derivation [ucast (drop_bit 8 target_pci AND 0xff), ucast (target_pci AND 0xff)] arfcn))"

definition generate_as_keys :: "(byte list \<Rightarrow> byte list \<Rightarrow> byte list) \<Rightarrow> security_context \<Rightarrow> security_context" where
  "generate_as_keys sha256 ctx =
     (let (rrc_enc, rrc_int) = generate_k_rrc sha256 (sec_k ctx) (sel_cipher_algo (sel_algos ctx)) (sel_integ_algo (sel_algos ctx));
          (up_enc, up_int) = generate_k_up sha256 (sec_k ctx) (sel_cipher_algo (sel_algos ctx)) (sel_integ_algo (sel_algos ctx))
      in ctx\<lparr>as_keys := \<lparr>k_rrc_int = rrc_int, k_rrc_enc = rrc_enc, k_up_int = up_int, k_up_enc = up_enc\<rparr>\<rparr>)"

definition horizontal_key_derivation :: "(byte list \<Rightarrow> byte list \<Rightarrow> byte list) \<Rightarrow> u16 \<Rightarrow> u32 \<Rightarrow> security_context \<Rightarrow> security_context result" where
  "horizontal_key_derivation sha256 target_pci target_ssb_arfcn ctx =
     rbind (generate_k_ng_ran_star sha256 (sec_k ctx) target_pci target_ssb_arfcn) (\<lambda>k_ng_ran_star.
     Inr (generate_as_keys sha256 (ctx\<lparr>sec_k := k_ng_ran_star\<rparr>)))"

subsection \<open>Configurations\<close>

definition get_as_config :: "sec_domain \<Rightarrow> security_context \<Rightarrow> sec_as_config" where
  "get_as_config d ctx =
     (let keys = as_keys ctx;
          (int_key, enc_key) = (case d of sec_rrc \<Rightarrow> (k_rrc_int keys, k_rrc_enc keys) | sec_up \<Rightarrow> (k_up_int keys, k_up_enc keys))
      in \<lparr>as_dom = d, as_k_int = Some int_key, as_k_enc = enc_key, as_integ_algo = Some (sel_integ_algo (sel_algos ctx)),
          as_cipher_algo = sel_cipher_algo (sel_algos ctx)\<rparr>)"

definition truncate_key :: "sec_key \<Rightarrow> sec_128_key" where
  "truncate_key key = drop (32 - 16) key"

definition truncate_config :: "sec_as_config \<Rightarrow> sec_128_as_config" where
  "truncate_config cfg = \<lparr>sec_dom = as_dom cfg, k_128_int = map_option truncate_key (as_k_int cfg), k_128_enc = truncate_key (as_k_enc cfg),
     integ_algo = as_integ_algo cfg, cipher_algo = as_cipher_algo cfg\<rparr>"

definition get_128_as_config :: "sec_domain \<Rightarrow> security_context \<Rightarrow> sec_128_as_config" where
  "get_128_as_config d ctx = truncate_config (get_as_config d ctx)"

text \<open>The short message code of a re-establishment request: the last two bytes of the code over the packed identity.\<close>

definition verify_short_mac :: "mbedtls \<Rightarrow> byte list \<Rightarrow> byte list \<Rightarrow> sec_as_config \<Rightarrow> bool result" where
  "verify_short_mac lib rx_short_mac packed_var source_as_config =
     (if length packed_var \<noteq> 8 then Inr False
      else case as_k_int source_as_config of
        None \<Rightarrow> Inr False
      | Some k_int \<Rightarrow>
          (case as_integ_algo source_as_config of
             None \<Rightarrow> Inr False
           | Some algo \<Rightarrow>
               rbind (generic_mac lib (truncate_key k_int) 0x1f sec_downlink algo packed_var 0xffffffff) (\<lambda>mac_exp.
               Inr (algo = nia0 \<or> rx_short_mac ! 0 = mac_exp ! 2 \<and> rx_short_mac ! 1 = mac_exp ! 3))))"

subsection \<open>Separation of keys\<close>

lemma p_len_inj: "p_len p = p_len q \<Longrightarrow> length p < 2 ^ 16 \<Longrightarrow> length q < 2 ^ 16 \<Longrightarrow> length p = length q"
proof -
  assume eq: "p_len p = p_len q" and len: "length p < 2 ^ 16" "length q < 2 ^ 16"
  let ?p = "of_nat (length p) :: u16" and ?q = "of_nat (length q) :: u16"
  have "ucast (drop_bit 8 ?p) = (ucast (drop_bit 8 ?q) :: byte)" "ucast ?p = (ucast ?q :: byte)"
    using eq by (simp_all add: p_len_def Let_def)
  then have b: "bit ?p (8 + i) = bit ?q (8 + i)" "bit ?p i = bit ?q i" if "i < 8" for i
    using that by (auto simp: bit_eq_iff [where ?'a = "8 word"] bit_simps)
  have "?p = ?q"
  proof (rule bit_word_eqI)
    fix i :: nat
    assume "i < LENGTH(16)"
    then show "bit ?p i = bit ?q i"
      using b(2) [of i] b(1) [of "i - 8"] by (cases "i < 8") auto
  qed
  then have "unat ?p = unat ?q"
    by simp
  then show ?thesis
    using len by (simp add: unat_of_nat)
qed

lemma length_p_len [simp]: "length (p_len p) = 2"
  by (simp add: p_len_def Let_def)

text \<open>The input of the derivation can be taken apart from its end.\<close>

lemma kdf_input_inj:
  assumes "kdf_input fc p0 p1 = kdf_input fc' q0 q1" "length p0 < 2 ^ 16" "length p1 < 2 ^ 16" "length q0 < 2 ^ 16" "length q1 < 2 ^ 16"
  shows "fc = fc' \<and> p0 = q0 \<and> p1 = q1"
proof -
  have fc: "fc_number fc = fc_number fc'" and rest: "(p0 @ p_len p0 @ p1) @ p_len p1 = (q0 @ p_len q0 @ q1) @ p_len q1"
    using assms(1) by (simp_all add: kdf_input_def)
  have len: "length (p_len p1) = length (p_len q1)" "length (p_len p0) = length (p_len q0)"
    by simp_all
  have l1: "p_len p1 = p_len q1" and r1: "(p0 @ p_len p0) @ p1 = (q0 @ p_len q0) @ q1"
    using append_eq_append_conv [OF disjI2 [OF len(1)], THEN iffD1, OF rest] by simp_all
  have "length p1 = length q1"
    using l1 assms(3,5) by (rule p_len_inj)
  from append_eq_append_conv [OF disjI2 [OF this], THEN iffD1, OF r1]
  have p1: "p1 = q1" and r0: "p0 @ p_len p0 = q0 @ p_len q0"
    by simp_all
  then have "p0 = q0"
    using append_eq_append_conv [OF disjI2 [OF len(2)], THEN iffD1, OF r0] by simp
  moreover have "fc = fc'"
    using fc by (cases fc; cases fc') simp_all
  ultimately show ?thesis
    using p1 by simp
qed

text \<open>What the keys of a context are derived from.\<close>

definition as_key_inputs :: "ciphering_algorithm \<Rightarrow> integrity_algorithm \<Rightarrow> byte list list" where
  "as_key_inputs c i =
     map (\<lambda>(d, n). kdf_input algorithm_key_derivation [distinguisher_number d] [of_nat n])
       [(rrc_int_alg, integrity_number i), (rrc_enc_alg, ciphering_number c), (up_int_alg, integrity_number i), (up_enc_alg, ciphering_number c)]"

definition k_star_input :: "u16 \<Rightarrow> u32 \<Rightarrow> byte list result" where
  "k_star_input pci arfcn = rbind (arfcn_bytes arfcn) (\<lambda>p1.
     Inr (kdf_input k_ng_ran_star_derivation [ucast (drop_bit 8 pci AND 0xff), ucast (pci AND 0xff)] p1))"

lemma arfcn_bytes_length: "arfcn_bytes a = Inr p \<Longrightarrow> length p < 2 ^ 16"
  by (auto simp: arfcn_bytes_def split: if_splits)

lemma word_low_bytes: "ucast (w AND 0xff) = (ucast w :: byte)" for w :: "'a::len word"
proof -
  have m: "(0xff :: 'a word) = mask 8"
    by (simp add: mask_eq_exp_minus_1)
  show ?thesis
    unfolding m by (rule bit_word_eqI) (auto simp: bit_simps dest: bit_imp_le_length)
qed

text \<open>A number is given by its bytes, as many as it needs.\<close>

lemma low_bytes_eq:
  assumes "\<And>k. k < n \<Longrightarrow> (ucast (drop_bit (8 * k) a) :: byte) = ucast (drop_bit (8 * k) b)"
    and "\<And>i. bit a i \<Longrightarrow> i < 8 * n" "\<And>i. bit b i \<Longrightarrow> i < 8 * n"
  shows "a = (b :: 'a::len word)"
proof (rule bit_word_eqI)
  fix i
  assume i: "i < LENGTH('a)"
  show "bit a i = bit b i"
  proof (cases "i < 8 * n")
    case True
    then have "bit (ucast (drop_bit (8 * (i div 8)) a) :: byte) (i mod 8) = bit (ucast (drop_bit (8 * (i div 8)) b) :: byte) (i mod 8)"
      using assms(1) [of "i div 8"] by (simp add: less_mult_imp_div_less mult.commute)
    then show ?thesis
      by (simp add: bit_simps)
  qed (use assms(2,3) in blast)
qed

lemma arfcn_bytes_inj: "arfcn_bytes a = Inr p \<Longrightarrow> arfcn_bytes b = Inr p \<Longrightarrow> a = b"
proof -
  assume a: "arfcn_bytes a = Inr p" and b: "arfcn_bytes b = Inr p"
  show ?thesis
  proof (cases "unat a < 2 ^ 16")
    case True
    then have bs: "p = [ucast (drop_bit 8 a), ucast a]" "p = [ucast (drop_bit 8 b), ucast b]" "unat b < 2 ^ 16"
      using a b by (auto simp: arfcn_bytes_def word_low_bytes split: if_splits)
    have "ucast (drop_bit (8 * k) a) = (ucast (drop_bit (8 * k) b) :: byte)" if "k < 2" for k
      using bs(1,2) less_2_cases [OF that] by auto
    then show ?thesis
      by (rule low_bytes_eq [where n = 2]) (use bit_small [OF True] bit_small [OF bs(3)] in simp_all)
  next
    case False
    then have bs: "p = [ucast (drop_bit 16 a), ucast (drop_bit 8 a), ucast a]" "p = [ucast (drop_bit 16 b), ucast (drop_bit 8 b), ucast b]"
        "unat a < 2 ^ 24" "unat b < 2 ^ 24"
      using a b by (auto simp: arfcn_bytes_def word_low_bytes split: if_splits)
    have "ucast (drop_bit (8 * k) a) = (ucast (drop_bit (8 * k) b) :: byte)" if k: "k < 3" for k
    proof -
      consider "k = 0" | "k = 1" | "k = 2"
        using k by linarith
      then show ?thesis
        using bs(1,2) by cases auto
    qed
    then show ?thesis
      by (rule low_bytes_eq [where n = 3]) (use bit_small [OF bs(3)] bit_small [OF bs(4)] in simp_all)
  qed
qed

lemma pci_bytes_inj:
  assumes "[ucast (drop_bit 8 p AND 0xff), ucast (p AND 0xff)] = [ucast (drop_bit 8 q AND 0xff), ucast (q AND 0xff) :: byte]"
  shows "p = (q :: u16)"
proof (rule low_bytes_eq [where n = 2])
  show "ucast (drop_bit (8 * k) p) = (ucast (drop_bit (8 * k) q) :: byte)" if "k < 2" for k
    using assms less_2_cases [OF that] by (auto simp: word_low_bytes)
qed (auto dest: bit_imp_le_length)

lemma k_star_input_inj:
  assumes "k_star_input p a = k_star_input q b" "unat a < 2 ^ 24"
  shows "p = q" "a = b"
proof -
  obtain x where x: "arfcn_bytes a = Inr x"
    using assms(2) by (cases "unat a < 2 ^ 16") (simp_all add: arfcn_bytes_def)
  then obtain y where y: "arfcn_bytes b = Inr y"
    using assms(1) by (cases "arfcn_bytes b") (auto simp: k_star_input_def)
  have "kdf_input k_ng_ran_star_derivation [ucast (drop_bit 8 p AND 0xff), ucast (p AND 0xff)] x =
      kdf_input k_ng_ran_star_derivation [ucast (drop_bit 8 q AND 0xff), ucast (q AND 0xff)] y"
    using assms(1) x y by (simp add: k_star_input_def)
  from kdf_input_inj [OF this _ arfcn_bytes_length [OF x] _ arfcn_bytes_length [OF y]]
  have "[ucast (drop_bit 8 p AND 0xff), ucast (p AND 0xff)] = [ucast (drop_bit 8 q AND 0xff), ucast (q AND 0xff) :: byte]" "x = y"
    by auto
  then show "p = q" "a = b"
    using x y pci_bytes_inj arfcn_bytes_inj by blast+
qed

text \<open>C16. The keys of a context are separated: those for integrity and ciphering of the control plane and the user plane are derived
  from the key of the node under four different inputs, whatever algorithms are selected; the key for the next node is
  derived under yet another input, a different one for every cell and every carrier number that is admitted.\<close>

theorem derived_keys_separated:
  "(let keys = as_keys (generate_as_keys sha256 ctx);
        inputs = as_key_inputs (sel_cipher_algo (sel_algos ctx)) (sel_integ_algo (sel_algos ctx))
    in [k_rrc_int keys, k_rrc_enc keys, k_up_int keys, k_up_enc keys] = map (sha256 (sec_k ctx)) inputs \<and> distinct inputs \<and>
       (\<forall>pci arfcn. k_star_input pci arfcn \<notin> Inr ` set inputs)) \<and>
   generate_k_ng_ran_star sha256 k pci arfcn = rbind (k_star_input pci arfcn) (\<lambda>s. Inr (sha256 k s)) \<and>
   inj_on (\<lambda>(pci, arfcn). k_star_input pci arfcn) {(pci, arfcn). unat arfcn < 2 ^ 24}"
proof -
  have keys: "let keys = as_keys (generate_as_keys sha256 ctx); inputs = as_key_inputs (sel_cipher_algo (sel_algos ctx)) (sel_integ_algo (sel_algos ctx))
    in [k_rrc_int keys, k_rrc_enc keys, k_up_int keys, k_up_enc keys] = map (sha256 (sec_k ctx)) inputs"
    by (simp add: generate_as_keys_def generate_k_rrc_def generate_k_up_def generic_kdf_def as_key_inputs_def)
  have distinct: "distinct (as_key_inputs c i)" for c i
    by (auto simp: as_key_inputs_def dest!: kdf_input_inj)
  have star: "k_star_input pci arfcn \<notin> Inr ` set (as_key_inputs c i)" for c i pci arfcn
    using arfcn_bytes_length by (fastforce simp: k_star_input_def as_key_inputs_def rbind_eq_Inr dest!: kdf_input_inj)
  have "inj_on (\<lambda>(pci, arfcn). k_star_input pci arfcn) {(pci, arfcn). unat arfcn < 2 ^ 24}"
    by (rule inj_onI) (auto dest: k_star_input_inj)
  then show ?thesis
    using keys distinct star by (simp add: Let_def generate_k_ng_ran_star_def k_star_input_def generic_kdf_def rbind_assoc)
qed

text \<open>C19. Each selection takes the first algorithm in the order of preference that is supported. NIA0 is never selected: where it is
  met first the selection fails; NEA0 is always supported. A selection that fails for ciphering has already set the
  algorithm for integrity.\<close>

theorem algorithms_by_preference:
  "select_algorithms pref_inte pref_ciph ctx =
     Inr (case find (\<lambda>a. a = nia0 \<or> supported_int_algos ctx ! (integrity_number a - 1)) pref_inte of
            None \<Rightarrow> (False, ctx)
          | Some i \<Rightarrow>
              if i = nia0 then (False, ctx)
              else case find (\<lambda>a. a = nea0 \<or> supported_enc_algos ctx ! (ciphering_number a - 1)) pref_ciph of
                     None \<Rightarrow> (False, ctx\<lparr>sel_algos := (sel_algos ctx)\<lparr>sel_integ_algo := i\<rparr>\<rparr>)
                   | Some c \<Rightarrow> (True, ctx\<lparr>sel_algos := \<lparr>algos_selected = True, sel_integ_algo = i, sel_cipher_algo = c\<rparr>\<rparr>))"
proof -
  have i: "select_integrity sup as = Inr (case find (\<lambda>a. a = nia0 \<or> sup ! (integrity_number a - 1)) as of
      None \<Rightarrow> None | Some a \<Rightarrow> if a = nia0 then None else Some a)" for sup as
  proof (induction as)
    case (Cons a as)
    then show ?case
      by (cases a) (auto simp: integrity_algorithm_from_number_def)
  qed simp
  have c: "select_ciphering sup as = Inr (find (\<lambda>a. a = nea0 \<or> sup ! (ciphering_number a - 1)) as)" for sup as
  proof (induction as)
    case (Cons a as)
    then show ?case
      by (cases a) (auto simp: ciphering_algorithm_from_number_def)
  qed simp
  show ?thesis
    by (auto simp: select_algorithms_def i c split: option.splits)
qed

text \<open>The short message code that is accepted is the one that is computed; without integrity protection every one is.\<close>

lemma verify_short_mac_exact:
  assumes "as_k_int cfg = Some k" "as_integ_algo cfg = Some algo" "length packed_var = 8" "length short = 2"
    and "generic_mac lib (truncate_key k) 0x1f sec_downlink algo packed_var 0xffffffff = Inr mac" "length mac = 4"
  shows "verify_short_mac lib short packed_var cfg = Inr (algo = nia0 \<or> short = drop 2 mac)"
proof -
  obtain a b c d where "mac = [a, b, c, d]"
    using assms(6) by (auto simp: eval_nat_numeral length_Suc_conv)
  moreover obtain x y where "short = [x, y]"
    using assms(4) by (auto simp: eval_nat_numeral length_Suc_conv)
  ultimately show ?thesis
    using assms by (simp add: verify_short_mac_def eval_nat_numeral)
qed

end
