(* ===== verification/Spec2Isabelle.thy ===== *)
theory Spec2Isabelle
  imports Receiver Ofh_Compression Rlc_Um_Link Pdcp_Link Sec_Keys
begin

text \<open>
  A verification development for a sender and a receiver of compressed IQ samples and for the parts
  of the 5G stack beside them: the Open Fronthaul codec, RLC in unacknowledged mode, PDCP and its security algorithms.

  \<^bold>\<open>Parts.\<close> The sender (\<^verbatim>\<open>sender/main.cpp\<close>) reads a file in frames, lets a controller choose a codec, converts the
  bytes to bf16 samples, compresses them and sends each frame over a TCP channel; the receiver
  (\<^verbatim>\<open>receiver/main.cpp\<close>) undoes this and writes the file. The controller picks the codec by a table of averages or by
  deep Q-learning. In the stack, PDCP hands SDUs to RLC, whose transmitting entity cuts them into the grants of
  MAC; the receiving entities reassemble, reorder and deliver.

  \<^bold>\<open>Common ground.\<close> \<^verbatim>\<open>Prelude\<close> has bytes, machine words, failures (\<open>cpp_error + 'a\<close> with \<open>rbind\<close>) and the
  specification \<open>succeeds\<close> of calls that may fail. An exception, a read out of bounds and a failed
  \<^verbatim>\<open>srsran_assert\<close> are values of type \<open>cpp_error\<close>; \<^verbatim>\<open>srsran_sanity_check\<close> is compiled into debug builds only
  and has no effect. \<^verbatim>\<open>Fp\<close> has the floating point numbers the selectors and codecs calculate with.

  \<^bold>\<open>Transfer.\<close>
  \<^item> \<^verbatim>\<open>Bf16\<close>: \<^verbatim>\<open>include/srsran/adt/bf16.h\<close>, the conversions on bit patterns; rounding is to nearest even.
  \<^item> \<^verbatim>\<open>Iq_Conv\<close>: \<^verbatim>\<open>lib/d_compression/iq.cpp\<close>; samples and bytes, serialisation and its inverse.
  \<^item> \<^verbatim>\<open>Rle\<close>, \<^verbatim>\<open>Bfp\<close>, \<^verbatim>\<open>Lz77\<close>: the three codecs; zlib is a parameter whose promises are named. \<^verbatim>\<open>Codec\<close> has the
    switches over them and the locale of lossless codecs.
  \<^item> \<^verbatim>\<open>Channel\<close>: \<^verbatim>\<open>include/d_compression/channel.h\<close> over a byte stream, and the ZeroMQ channel; what is sent is received.
  \<^item> \<^verbatim>\<open>State_Machine\<close>, \<^verbatim>\<open>Replay\<close>, \<^verbatim>\<open>Trainer\<close>, \<^verbatim>\<open>Controller\<close>: the selectors. Random numbers and measured times are
    arguments; libtorch's gradient step is a parameter.
  \<^item> \<^verbatim>\<open>Sender\<close>, \<^verbatim>\<open>Receiver\<close>: the two programs and the theorem that the received file is the sent one.

  \<^bold>\<open>Fronthaul.\<close> \<^verbatim>\<open>Bit_Buffer\<close> is \<^verbatim>\<open>include/srsran/adt/bit_buffer.h\<close>, \<^verbatim>\<open>Ofh_Compression\<close> the generic block floating point
  codec under \<^verbatim>\<open>lib/ofh/compression\<close>: packing, exponents and the error bound of a round trip.

  \<^bold>\<open>RLC.\<close>
  \<^item> \<^verbatim>\<open>Circular_Map\<close>: \<^verbatim>\<open>include/srsran/adt/circular_map.h\<close> and the SDU window; it refines a partial map.
  \<^item> \<^verbatim>\<open>Rlc_Um_Pdu\<close>: the UM headers of \<^verbatim>\<open>lib/rlc/rlc_um_pdu.h\<close>.
  \<^item> \<^verbatim>\<open>Rlc_Um_Segments\<close>, \<^verbatim>\<open>Rlc_Um_Rx\<close>: \<^verbatim>\<open>lib/rlc/rlc_rx_um_entity.cpp\<close>; the segments of one SDU as a set of byte
    positions, then the window, its invariant and that no handler can fail.
  \<^item> \<^verbatim>\<open>Rlc_Sdu_Queue\<close>: \<^verbatim>\<open>lib/rlc/rlc_sdu_queue_lockfree.h\<close>, a first-in first-out list with deletion; every operation is
    one step.
  \<^item> \<^verbatim>\<open>Rlc_Um_Tx\<close>: \<^verbatim>\<open>lib/rlc/rlc_tx_um_entity.cpp\<close> with the invariant of the transmitter.
  \<^item> \<^verbatim>\<open>Rlc_Um_Link\<close>: both entities joined; everything accepted is delivered in order.

  \<^bold>\<open>PDCP.\<close>
  \<^item> \<^verbatim>\<open>Bit_Encoding\<close>: \<^verbatim>\<open>lib/support/bit_encoding.cpp\<close> as operations on lists of bits.
  \<^item> \<^verbatim>\<open>Pdcp_Pdu\<close>: headers of data and control PDUs and the reader of the PDCP number that RLC uses.
  \<^item> \<^verbatim>\<open>Sec_Types\<close>, \<^verbatim>\<open>Pdcp_Rx\<close>: \<^verbatim>\<open>lib/pdcp/pdcp_entity_rx.cpp\<close>, the receiving entity over a security engine. \<^verbatim>\<open>Pdcp_Rx_Inv\<close>
    has its invariant and the reconstruction of COUNTs, \<^verbatim>\<open>Pdcp_Rx_Correct\<close> that no handler fails in a reachable
    state, delivery in order, re-establishment, status reports, and two inputs that are handled badly.
  \<^item> \<^verbatim>\<open>Pdcp_Tx\<close>: \<^verbatim>\<open>lib/pdcp/pdcp_entity_tx.cpp\<close>, the transmitting entity. \<^verbatim>\<open>Pdcp_Tx_Correct\<close> has its invariant, that every
    sequence of inputs is handled, that no two PDUs share a COUNT, that status reports of the receiving entity
    acknowledge exactly what they name, and two errors.
  \<^item> \<^verbatim>\<open>Pdcp_Link\<close>: both entities with their engines over a transport that loses, repeats and reorders.

  \<^bold>\<open>Security.\<close>
  \<^item> \<^verbatim>\<open>Zuc\<close>, \<^verbatim>\<open>Snow3g\<close>: \<^verbatim>\<open>lib/security/zuc.cpp\<close> and \<^verbatim>\<open>lib/security/s3g.cpp\<close> at the width of their registers. The shift
    register of ZUC is the recurrence of its specification and stays in the field; the multiplication of SNOW 3G is bilinear.
  \<^item> \<^verbatim>\<open>Sec_Algos\<close>: \<^verbatim>\<open>include/srsran/security/ciphering.h\<close> and \<^verbatim>\<open>integrity.h\<close>, NEA1 to NEA3 and NIA1 to NIA3; ciphering is the
    exclusive or with a key stream.
  \<^item> \<^verbatim>\<open>Sec_Engine\<close>: the engines under \<^verbatim>\<open>lib/security\<close>. mbedTLS is a record of functions, its promises are \<open>mbedtls_ok\<close>:
    AES in counter mode is its own inverse, and the block functions return blocks. An engine accepts exactly
    what its peer generates; NIA2 without CMAC support is the AES-CMAC of the specification.
  \<^item> \<^verbatim>\<open>Sec_Keys\<close>: \<^verbatim>\<open>lib/security/security.cpp\<close>, selection of algorithms and derivation of keys over a keyed hash that is a
    parameter; keys for different purposes are derived from different inputs.

  \<^bold>\<open>Interfaces.\<close> Locales state what a client relies on: \<open>sample_codec\<close>, \<open>message_channel\<close>, \<open>selector\<close>, \<open>sdu_window\<close>,
  \<open>sdu_fifo\<close>, \<open>bit_codec\<close>, \<open>stream_cipher\<close> and \<open>message_code\<close> with \<open>secured\<close> over both, and \<open>secure_pair\<close>. Each is interpreted
  on the definitions of the model.

  \<^bold>\<open>Loops.\<close> Loops that end for every argument are defined by \<open>fun\<close> or by \<open>function\<close> with a measure: distances
  of sequence numbers modulo their cardinality, bits or bytes left. Two loops of the PDCP transmitter depend on
  their arguments to end; they are partial functions into the option type, \<open>Endless_Loop\<close> is what a call that does not
  end gives, and it is proved that their callers never reach it. No fuel is used, except that the receiver's
  endless loop ends with the byte stream.

  \<^bold>\<open>Not modelled.\<close> Sockets, files, threads, clocks and logging (I/O); allocation of buffers, which always succeeds; the
  vector variants of the codecs; the physical layer, the schedulers, RLC in acknowledged and transparent mode, the control plane and the
  generated ASN.1 code, which the parts above do not call; \<^verbatim>\<open>include/dqn/noisy.h\<close> and
  \<^verbatim>\<open>include/dqn/categorical_dqn.h\<close>, which nothing uses.
\<close>

end
